(* ===== verification/KV_Prelude.thy ===== *)
theory KV_Prelude
  imports Main "HOL-Library.Word" "HOL-Library.List_Lexorder" "HOL-Library.Sublist"
begin

unbundle bit_operations_syntax

text \<open>
  Shared vocabulary of the development: the byte and integer types of the Go code, the parts of
  the standard library the components call on plain values (little-endian integers of
  \<^verbatim>\<open>encoding/binary\<close>, decimal printing and \<^verbatim>\<open>strconv.Atoi\<close>, \<^verbatim>\<open>io.ReadFull\<close> on a byte
  stream), and the generic facts about lists, options and words the component proofs share.

  A Go \<^verbatim>\<open>string\<close> and a Go \<^verbatim>\<open>[]byte\<close> are both byte sequences, so both are \<open>bytes\<close>; their
  order is Go's bytewise string order, which \<^verbatim>\<open>List_Lexorder\<close> gives on lists of words.
\<close>

named_theorems kv_eval \<open>rules that evaluate the model on concrete inputs\<close>
named_theorems wire_len \<open>lengths of encoded frames\<close>
named_theorems inv_intros \<open>preservation of the component invariants\<close>

section \<open>Types\<close>

type_synonym byte = "8 word"
type_synonym bytes = "8 word list"
type_synonym u32 = "32 word"
type_synonym u64 = "64 word"

text \<open>A string literal of the source as bytes.\<close>

definition str :: "string \<Rightarrow> bytes" where
  "str s = map of_char s"

text \<open>The errors of package \<^verbatim>\<open>io\<close> the code distinguishes, and any other error of the OS.\<close>

datatype io_error = EOF | ErrUnexpectedEOF | ErrIO

section \<open>Little-endian integers (encoding/binary)\<close>

definition PutUint32 :: "u32 \<Rightarrow> bytes" where
  "PutUint32 v =
     [ucast v, ucast (drop_bit 8 v), ucast (drop_bit 16 v), ucast (drop_bit 24 v)]"

fun Uint32 :: "bytes \<Rightarrow> u32" where
  "Uint32 (b0 # b1 # b2 # b3 # _) =
     ucast b0 OR push_bit 8 (ucast b1) OR push_bit 16 (ucast b2) OR push_bit 24 (ucast b3)"
| "Uint32 _ = 0"

definition PutUint64 :: "u64 \<Rightarrow> bytes" where
  "PutUint64 v = map (\<lambda>i. ucast (drop_bit (8 * i) v)) [0, 1, 2, 3, 4, 5, 6, 7]"

fun Uint64 :: "bytes \<Rightarrow> u64" where
  "Uint64 (b0 # b1 # b2 # b3 # b4 # b5 # b6 # b7 # _) =
     ucast b0 OR push_bit 8 (ucast b1) OR push_bit 16 (ucast b2) OR push_bit 24 (ucast b3) OR
     push_bit 32 (ucast b4) OR push_bit 40 (ucast b5) OR push_bit 48 (ucast b6) OR
     push_bit 56 (ucast b7)"
| "Uint64 _ = 0"

section \<open>Slices\<close>

text \<open>\<^verbatim>\<open>xs[a:b]\<close>; \<open>None\<close> is the run-time panic of a slice out of range.\<close>

definition goslice :: "nat \<Rightarrow> nat \<Rightarrow> 'a list \<Rightarrow> 'a list option" where
  "goslice a b xs = (if a \<le> b \<and> b \<le> length xs then Some (take (b - a) (drop a xs)) else None)"

section \<open>io.ReadFull on a byte stream\<close>

text \<open>
  A reader is the list of bytes still to come. \<open>ReadFull n r\<close> returns the \<open>n\<close> bytes and the
  rest of the stream. A stream that is empty gives \<open>EOF\<close>, one that ends early gives
  \<open>ErrUnexpectedEOF\<close> and leaves nothing; a request of zero bytes always succeeds.
\<close>

definition ReadFull :: "nat \<Rightarrow> bytes \<Rightarrow> (io_error + bytes) \<times> bytes" where
  "ReadFull n r =
     (if n \<le> length r then (Inr (take n r), drop n r)
      else if r = [] then (Inl EOF, [])
      else (Inl ErrUnexpectedEOF, []))"

section \<open>Decimal numbers (fmt's \<^verbatim>\<open>%d\<close>, strconv.Atoi)\<close>

definition digit :: "nat \<Rightarrow> byte" where
  "digit d = 48 + word_of_nat d"

fun fmt_d :: "nat \<Rightarrow> bytes" where
  "fmt_d n = (if n < 10 then [digit n] else fmt_d (n div 10) @ [digit (n mod 10)])"

declare fmt_d.simps [simp del]

definition is_digit :: "byte \<Rightarrow> bool" where
  "is_digit b \<longleftrightarrow> 48 \<le> b \<and> b \<le> 57"

definition digit_val :: "byte \<Rightarrow> nat" where
  "digit_val b = unat b - 48"

definition dec_value :: "bytes \<Rightarrow> nat" where
  "dec_value s = foldl (\<lambda>n b. 10 * n + digit_val b) 0 s"

text \<open>
  \<^verbatim>\<open>strconv.Atoi\<close> on a 64-bit platform: an optional sign, then one or more decimal digits;
  \<open>None\<close> is the error for a syntax error or a value outside \<^verbatim>\<open>int64\<close>.
\<close>

definition Atoi_digits :: "bytes \<Rightarrow> nat option" where
  "Atoi_digits s = (if s \<noteq> [] \<and> list_all is_digit s then Some (dec_value s) else None)"

definition Atoi :: "bytes \<Rightarrow> int option" where
  "Atoi s =
     (case s of
        [] \<Rightarrow> None
      | c # s' \<Rightarrow>
          (if c = 45 then
             (case Atoi_digits s' of
                None \<Rightarrow> None
              | Some n \<Rightarrow> (if n \<le> 2 ^ 63 then Some (- int n) else None))
           else
             (case Atoi_digits (if c = 43 then s' else s) of
                None \<Rightarrow> None
              | Some n \<Rightarrow> (if n < 2 ^ 63 then Some (int n) else None))))"

text \<open>\<^verbatim>\<open>%06d\<close>: at least six digits, padded with zeros on the left.\<close>

definition fmt_06d :: "nat \<Rightarrow> bytes" where
  "fmt_06d n = replicate (6 - length (fmt_d n)) 48 @ fmt_d n"

section \<open>Lemmas: literals and little-endian integers\<close>

lemma length_str [simp]: "length (str s) = length s"
  by (simp add: str_def)

lemma length_PutUint32 [simp]: "length (PutUint32 v) = 4"
  by (simp add: PutUint32_def)

lemma length_PutUint64 [simp]: "length (PutUint64 v) = 8"
  by (simp add: PutUint64_def)

lemma Uint32_PutUint32_append [simp]: "Uint32 (PutUint32 v @ r) = v"
proof (rule bit_word_eqI)
  fix n assume n: "n < LENGTH(32)"
  consider "n < 8" | "8 \<le> n" "n < 16" | "16 \<le> n" "n < 24" | "24 \<le> n" by linarith
  then show "bit (Uint32 (PutUint32 v @ r)) n = bit v n"
    using n by cases (auto simp: PutUint32_def bit_simps)
qed

lemma Uint32_PutUint32 [simp]: "Uint32 (PutUint32 v) = v"
  using Uint32_PutUint32_append [of v "[]"] by simp

lemma Uint32_append: "4 \<le> length bs \<Longrightarrow> Uint32 (bs @ r) = Uint32 bs"
  by (auto simp: numeral_eq_Suc Suc_le_length_iff)

lemma Uint32_take: "4 \<le> n \<Longrightarrow> 4 \<le> length bs \<Longrightarrow> Uint32 (take n bs) = Uint32 bs"
  by (metis Uint32_append append_take_drop_id length_take min.bounded_iff)

lemma PutUint32_Uint32:
  assumes "length bs = 4"
  shows "PutUint32 (Uint32 bs) = bs"
proof -
  obtain a b c d where bs: "bs = [a, b, c, d]"
    using assms by (auto simp: numeral_eq_Suc length_Suc_conv)
  show ?thesis
    unfolding bs PutUint32_def Uint32.simps
    by (intro arg_cong2 [where f = Cons] refl; rule bit_word_eqI)
      (auto simp: bit_simps dest: bit_imp_le_length)
qed

lemma PutUint32_inject [simp]: "PutUint32 v = PutUint32 w \<longleftrightarrow> v = w"
  by (metis Uint32_PutUint32)

lemma Uint64_PutUint64_append [simp]: "Uint64 (PutUint64 v @ r) = v"
proof (rule bit_word_eqI)
  fix n assume n: "n < LENGTH(64)"
  consider "n < 8" | "8 \<le> n" "n < 16" | "16 \<le> n" "n < 24" | "24 \<le> n" "n < 32"
    | "32 \<le> n" "n < 40" | "40 \<le> n" "n < 48" | "48 \<le> n" "n < 56" | "56 \<le> n" by linarith
  then show "bit (Uint64 (PutUint64 v @ r)) n = bit v n"
    using n by cases (simp_all add: PutUint64_def bit_simps less_diff_conv2)
qed

lemma Uint64_PutUint64 [simp]: "Uint64 (PutUint64 v) = v"
  using Uint64_PutUint64_append [of v "[]"] by simp

section \<open>Lemmas: slices and streams\<close>

lemma goslice_mid [simp]:
  "length xs = a \<Longrightarrow> a + length ys = b \<Longrightarrow> goslice a b (xs @ ys @ zs) = Some ys"
  by (auto simp: goslice_def)

lemma goslice_in_range: "a \<le> b \<Longrightarrow> b \<le> length xs \<Longrightarrow> goslice a b xs \<noteq> None"
  by (simp add: goslice_def)

lemma goslice_Some: "goslice a b xs = Some ys \<Longrightarrow> length ys = b - a"
  by (auto simp: goslice_def split: if_splits)

lemma ReadFull_append [simp]: "length xs = n \<Longrightarrow> ReadFull n (xs @ ys) = (Inr xs, ys)"
  by (simp add: ReadFull_def)

lemma ReadFull_zero [simp]: "ReadFull 0 r = (Inr [], r)"
  by (simp add: ReadFull_def)

lemma ReadFull_short: "length r < n \<Longrightarrow> ReadFull n r = (Inl (if r = [] then EOF else ErrUnexpectedEOF), [])"
  by (simp add: ReadFull_def)

lemma ReadFull_Inr: "ReadFull n r = (Inr xs, r') \<Longrightarrow> r = xs @ r' \<and> length xs = n"
  by (auto simp: ReadFull_def split: if_splits)

lemma ReadFull_Inl: "ReadFull n r = (Inl e, r') \<Longrightarrow> length r < n \<and> r' = []"
  by (auto simp: ReadFull_def split: if_splits)

section \<open>Lemmas: decimal numbers\<close>

lemma digit_val_digit [simp]: "d < 10 \<Longrightarrow> digit_val (digit d) = d"
  by (simp add: digit_val_def digit_def unat_word_ariths unat_of_nat take_bit_nat_def)

lemma is_digit_digit [simp]: "d < 10 \<Longrightarrow> is_digit (digit d)"
  by (simp add: is_digit_def digit_def word_le_nat_alt unat_word_ariths unat_of_nat take_bit_nat_def)

lemma dec_value_Nil [simp]: "dec_value [] = 0"
  by (simp add: dec_value_def)

lemma dec_value_snoc [simp]: "dec_value (s @ [b]) = 10 * dec_value s + digit_val b"
  by (simp add: dec_value_def)

lemma fmt_d_not_Nil [simp]: "fmt_d n \<noteq> []"
  by (subst fmt_d.simps) simp

lemma fmt_d_digits: "list_all is_digit (fmt_d n)"
proof (induction n rule: fmt_d.induct)
  case (1 n)
  then show ?case by (subst fmt_d.simps) auto
qed

lemma dec_value_fmt_d [simp]: "dec_value (fmt_d n) = n"
proof (induction n rule: fmt_d.induct)
  case (1 n)
  show ?case
  proof (cases "n < 10")
    case True
    then show ?thesis using dec_value_snoc [of "[]"] by (subst fmt_d.simps) simp
  next
    case False
    with 1 show ?thesis by (subst fmt_d.simps) simp
  qed
qed

lemma length_fmt_d: "n < 10 ^ k \<Longrightarrow> 0 < k \<Longrightarrow> length (fmt_d n) \<le> k"
proof (induction n arbitrary: k rule: fmt_d.induct)
  case (1 n)
  show ?case
  proof (cases "n < 10")
    case True
    then show ?thesis using "1.prems" by (simp add: fmt_d.simps [of n])
  next
    case False
    then obtain j where k: "k = Suc j" "0 < j" using "1.prems" by (cases k; cases "k - 1") auto
    have "n div 10 < 10 ^ j" using "1.prems"(1) k by (simp add: less_mult_imp_div_less mult.commute)
    then show ?thesis using "1.IH" [OF False, of j] k False by (simp add: fmt_d.simps [of n])
  qed
qed

lemma fmt_d_inject [simp]: "fmt_d m = fmt_d n \<longleftrightarrow> m = n"
  by (metis dec_value_fmt_d)

lemma is_digit_neq: "is_digit b \<Longrightarrow> b \<noteq> 45 \<and> b \<noteq> 43 \<and> b \<noteq> 13 \<and> b \<noteq> 10 \<and> b \<noteq> 32"
  by (auto simp: is_digit_def)

lemma Atoi_fmt_d:
  assumes "n < 2 ^ 63"
  shows "Atoi (fmt_d n) = Some (int n)"
proof -
  obtain c s where cs: "fmt_d n = c # s" by (metis fmt_d_not_Nil neq_Nil_conv)
  have "is_digit c" using fmt_d_digits [of n] cs by simp
  moreover have "Atoi_digits (c # s) = Some n"
    using fmt_d_digits [of n] cs dec_value_fmt_d [of n] by (simp add: Atoi_digits_def)
  ultimately show ?thesis
    using assms by (auto simp: Atoi_def cs dest: is_digit_neq)
qed

lemma dec_value_zeros: "dec_value (replicate k 48 @ s) = dec_value s"
proof (induction k)
  case (Suc k)
  have "dec_value (48 # t) = dec_value t" for t
    by (simp add: dec_value_def digit_val_def)
  with Suc show ?case by simp
qed simp

lemma dec_value_fmt_06d [simp]: "dec_value (fmt_06d n) = n"
  by (simp add: fmt_06d_def dec_value_zeros)

lemma fmt_06d_inject [simp]: "fmt_06d m = fmt_06d n \<longleftrightarrow> m = n"
  by (metis dec_value_fmt_06d)

section \<open>Lemmas: lists, maps\<close>

lemma prefix_take: "prefix xs ys \<Longrightarrow> xs = take (length xs) ys"
  by (auto simp: prefix_def)

lemma append_eq_prefix: "xs @ ys = zs \<Longrightarrow> prefix xs zs"
  by auto

lemma unat_of_length:
  "length xs < 2 ^ LENGTH('n) \<Longrightarrow> unat (word_of_nat (length xs) :: 'n::len word) = length xs"
  by (simp add: unat_of_nat take_bit_nat_eq_self)

end
