(* ===== verification/Go_IO.thy ===== *)
theory Go_IO
  imports KV_Prelude
begin

text \<open>
  Files and buffered writers, directories and listeners: the part of packages \<^verbatim>\<open>os\<close>, \<^verbatim>\<open>bufio\<close> and
  \<^verbatim>\<open>net\<close> the engine writes through.

  An \<open>osfile\<close> is an append-only file as the kernel sees it: its content, how much of it an fsync
  has made durable, and a script of the outcomes its next system calls will have. An empty script
  means every call succeeds; a statement for all files covers every pattern of failures.

  A \<open>bwriter\<close> is a \<^verbatim>\<open>*bufio.Writer\<close> over such a file: the bytes buffered so far (at most
  4096) and its sticky error, after which every write and flush fails. The same writer serves a
  network connection: \<open>content\<close> is then what was sent.
\<close>

section \<open>Files\<close>

datatype io_outcome = IO_OK | IO_Fail nat

record osfile =
  content :: bytes
  synced :: nat
  faults :: "io_outcome list"

definition pop_outcome :: "osfile \<Rightarrow> io_outcome \<times> osfile" where
  "pop_outcome f =
     (case faults f of [] \<Rightarrow> (IO_OK, f) | x # xs \<Rightarrow> (x, f\<lparr>faults := xs\<rparr>))"

text \<open>
  \<open>File_Write p f\<close> returns the number of bytes written, whether the call succeeded, and the
  file. A failing call may have written any prefix of \<open>p\<close>.
\<close>

definition File_Write :: "bytes \<Rightarrow> osfile \<Rightarrow> nat \<times> bool \<times> osfile" where
  "File_Write p f =
     (case pop_outcome f of
        (IO_OK, f') \<Rightarrow> (length p, True, f'\<lparr>content := content f' @ p\<rparr>)
      | (IO_Fail n, f') \<Rightarrow>
          (min n (length p), False, f'\<lparr>content := content f' @ take n p\<rparr>))"

definition File_Sync :: "osfile \<Rightarrow> bool \<times> osfile" where
  "File_Sync f =
     (case pop_outcome f of
        (IO_OK, f') \<Rightarrow> (True, f'\<lparr>synced := length (content f')\<rparr>)
      | (IO_Fail n, f') \<Rightarrow> (False, f'))"

text \<open>
  A crash keeps what was fsynced and any part of the bytes after it; a restarted process starts
  with a fresh script of outcomes.
\<close>

definition crash_file :: "osfile \<Rightarrow> nat \<Rightarrow> io_outcome list \<Rightarrow> osfile" where
  "crash_file f n fl =
     (let c = take (max (synced f) n) (content f)
      in \<lparr>content = c, synced = length c, faults = fl\<rparr>)"

section \<open>bufio.Writer\<close>

record bwriter =
  dst :: osfile
  wbuf :: bytes
  werr :: bool

definition defaultBufSize :: nat where
  "defaultBufSize = 4096"

definition NewWriter :: "osfile \<Rightarrow> bwriter" where
  "NewWriter f = \<lparr>dst = f, wbuf = [], werr = False\<rparr>"

definition bufio_Flush :: "bwriter \<Rightarrow> bool \<times> bwriter" where
  "bufio_Flush b =
     (if werr b then (False, b)
      else if wbuf b = [] then (True, b)
      else case File_Write (wbuf b) (dst b) of
        (n, ok, f) \<Rightarrow>
          (if ok then (True, b\<lparr>dst := f, wbuf := []\<rparr>)
           else (False, b\<lparr>dst := f, wbuf := drop n (wbuf b), werr := True\<rparr>)))"

function bufio_Write :: "bytes \<Rightarrow> bwriter \<Rightarrow> bool \<times> bwriter" where
  "bufio_Write p b =
     (if \<not> werr b \<and> defaultBufSize - length (wbuf b) < length p then
        (if wbuf b = [] then
           (case File_Write p (dst b) of
              (n, ok, f) \<Rightarrow> bufio_Write (drop n p) (b\<lparr>dst := f, werr := \<not> ok\<rparr>))
         else
           (let k = defaultBufSize - length (wbuf b)
            in bufio_Write (drop k p) (snd (bufio_Flush (b\<lparr>wbuf := wbuf b @ take k p\<rparr>)))))
      else if werr b then (False, b)
      else (True, b\<lparr>wbuf := wbuf b @ p\<rparr>))"
  by pat_completeness auto
termination
  by (relation "measure (\<lambda>(p, b). if werr b then 0
        else 1 + 2 * length p + (if wbuf b = [] then 0 else 1))")
    (auto simp: bufio_Flush_def File_Write_def pop_outcome_def
      split: list.splits io_outcome.splits if_splits prod.splits)

declare bufio_Write.simps [simp del]

text \<open>What the file will hold once the buffer is flushed.\<close>

definition logical :: "bwriter \<Rightarrow> bytes" where
  "logical b = content (dst b) @ wbuf b"

section \<open>Directories of files\<close>

text \<open>
  A file system is the map from paths to contents, the paths whose reads fail, and the outcomes
  of the next system calls. A file that is being written is an \<open>osfile\<close>; \<open>fs_store\<close> puts what
  was written, complete or not, and the remaining outcomes back.
\<close>

record fsys =
  fs_files :: "bytes \<rightharpoonup> bytes"
  fs_unreadable :: "bytes \<Rightarrow> bool"
  fs_faults :: "io_outcome list"

datatype open_result = NotExist | OpenErr | Opened bytes

definition fs_pop :: "fsys \<Rightarrow> bool \<times> fsys" where
  "fs_pop fs =
     (case fs_faults fs of
        [] \<Rightarrow> (True, fs)
      | x # xs \<Rightarrow> (x = IO_OK, fs\<lparr>fs_faults := xs\<rparr>))"

definition os_Create :: "bytes \<Rightarrow> fsys \<Rightarrow> osfile option \<times> fsys" where
  "os_Create path fs =
     (case fs_pop fs of
        (True, fs) \<Rightarrow>
          (Some \<lparr>content = [], synced = 0, faults = fs_faults fs\<rparr>,
           fs\<lparr>fs_files := (fs_files fs)(path \<mapsto> [])\<rparr>)
      | (False, fs) \<Rightarrow> (None, fs))"

definition fs_store :: "bytes \<Rightarrow> osfile \<Rightarrow> fsys \<Rightarrow> fsys" where
  "fs_store path f fs =
     fs\<lparr>fs_files := (fs_files fs)(path \<mapsto> content f), fs_faults := faults f\<rparr>"

definition os_Open :: "bytes \<Rightarrow> fsys \<Rightarrow> open_result" where
  "os_Open path fs =
     (if fs_unreadable fs path then OpenErr
      else case fs_files fs path of None \<Rightarrow> NotExist | Some bs \<Rightarrow> Opened bs)"

definition os_Remove :: "bytes \<Rightarrow> fsys \<Rightarrow> bool \<times> fsys" where
  "os_Remove path fs =
     (case fs_pop fs of
        (True, fs) \<Rightarrow> (fs_files fs path \<noteq> None, fs\<lparr>fs_files := (fs_files fs)(path := None)\<rparr>)
      | (False, fs) \<Rightarrow> (False, fs))"

definition os_Rename :: "bytes \<Rightarrow> bytes \<Rightarrow> fsys \<Rightarrow> bool \<times> fsys" where
  "os_Rename old new fs =
     (case fs_pop fs of
        (True, fs) \<Rightarrow>
          (case fs_files fs old of
             None \<Rightarrow> (False, fs)
           | Some bs \<Rightarrow> (True, fs\<lparr>fs_files := (fs_files fs)(old := None, new \<mapsto> bs)\<rparr>))
      | (False, fs) \<Rightarrow> (False, fs))"

text \<open>
  The sequence both Raft files are written with: create a temporary file, write, fsync, rename it
  over the old one. It stops at the first call that fails.
\<close>

definition tmp_suffix :: bytes where
  "tmp_suffix = str ''.tmp''"

definition write_via_tmp :: "bytes \<Rightarrow> bytes \<Rightarrow> fsys \<Rightarrow> bool \<times> fsys" where
  "write_via_tmp path data fs =
     (let tmp = path @ tmp_suffix
      in case os_Create tmp fs of
           (None, fs) \<Rightarrow> (False, fs)
         | (Some f, fs) \<Rightarrow>
             (case File_Write data f of
                (_, ok, f) \<Rightarrow>
                  (if \<not> ok then (False, fs_store tmp f fs)
                   else case File_Sync f of
                     (ok, f) \<Rightarrow>
                       (if \<not> ok then (False, fs_store tmp f fs)
                        else os_Rename tmp path (fs_store tmp f fs)))))"

section \<open>Listeners\<close>

text \<open>A listener has its address and whether it was closed; a second \<^verbatim>\<open>Close\<close> is an error.\<close>

record listener =
  ln_addr :: bytes
  ln_closed :: bool

text \<open>
  The accept loop: the connections it hands to goroutines, and whether \<^verbatim>\<open>Accept\<close> ended it. The
  list holds the results of its \<^verbatim>\<open>Accept\<close> calls so far, \<open>None\<close> an error.
\<close>

fun accept_loop :: "'c option list \<Rightarrow> 'c list \<times> bool" where
  "accept_loop [] = ([], False)"
| "accept_loop (None # _) = ([], True)"
| "accept_loop (Some c # rs) = (case accept_loop rs of (cs, e) \<Rightarrow> (c # cs, e))"

section \<open>Lemmas: files\<close>

lemma File_Write_cases:
  assumes "File_Write p f = (n, ok, f')"
  shows "synced f' = synced f"
    and "content f' = content f @ take n p" and "n \<le> length p"
    and "ok \<Longrightarrow> n = length p"
    and "faults f = [] \<Longrightarrow> ok \<and> faults f' = []"
  using assms
  by (auto simp: File_Write_def pop_outcome_def min_def split: list.splits io_outcome.splits)

lemma File_Sync_cases:
  assumes "File_Sync f = (ok, f')"
  shows "content f' = content f"
    and "ok \<Longrightarrow> synced f' = length (content f)"
    and "\<not> ok \<Longrightarrow> synced f' = synced f"
    and "faults f = [] \<Longrightarrow> ok \<and> faults f' = []"
  using assms
  by (auto simp: File_Sync_def pop_outcome_def split: list.splits io_outcome.splits)

lemma crash_file_content:
  "content (crash_file f n fl) = take (max (synced f) n) (content f)"
  by (simp add: crash_file_def Let_def)

section \<open>Lemmas: buffered writers\<close>

lemma NewWriter_simps [simp]:
  "dst (NewWriter f) = f" "wbuf (NewWriter f) = []" "\<not> werr (NewWriter f)"
  "logical (NewWriter f) = content f"
  by (simp_all add: NewWriter_def logical_def)

lemma bufio_Flush_cases:
  assumes "bufio_Flush b = (ok, b')"
  shows "synced (dst b') = synced (dst b)"
    and "logical b' = logical b"
    and "prefix (content (dst b)) (content (dst b'))"
    and "ok \<Longrightarrow> \<not> werr b \<and> wbuf b' = [] \<and> content (dst b') = logical b \<and> \<not> werr b'"
    and "\<not> ok \<Longrightarrow> werr b'"
    and "werr b \<Longrightarrow> \<not> ok \<and> b' = b"
    and "\<not> werr b \<Longrightarrow> faults (dst b) = [] \<Longrightarrow> ok \<and> faults (dst b') = []"
proof -
  obtain n w f where w: "File_Write (wbuf b) (dst b) = (n, w, f)" by (metis prod_cases3)
  note fw = File_Write_cases [OF w]
  show "synced (dst b') = synced (dst b)" "logical b' = logical b"
    "prefix (content (dst b)) (content (dst b'))"
    "ok \<Longrightarrow> \<not> werr b \<and> wbuf b' = [] \<and> content (dst b') = logical b \<and> \<not> werr b'"
    "\<not> ok \<Longrightarrow> werr b'" "werr b \<Longrightarrow> \<not> ok \<and> b' = b"
    "\<not> werr b \<Longrightarrow> faults (dst b) = [] \<Longrightarrow> ok \<and> faults (dst b') = []"
    using assms w fw by (auto simp: bufio_Flush_def logical_def split: if_splits)
qed

text \<open>
  The contract of \<^verbatim>\<open>Write\<close>: on success the bytes are appended to the logical content; on
  failure the writer is poisoned and the file holds a prefix of what it would have held.
\<close>

lemma bufio_Write_spec:
  "bufio_Write p b = (ok, b') \<Longrightarrow>
     synced (dst b') = synced (dst b) \<and>
     prefix (content (dst b)) (content (dst b')) \<and>
     (ok \<longrightarrow> \<not> werr b \<and> \<not> werr b' \<and> logical b' = logical b @ p) \<and>
     (\<not> ok \<longrightarrow> werr b' \<and> (werr b \<longrightarrow> b' = b) \<and> prefix (content (dst b')) (logical b @ p)) \<and>
     (\<not> werr b \<longrightarrow> faults (dst b) = [] \<longrightarrow> ok \<and> faults (dst b') = [])"
  (is "_ \<Longrightarrow> ?P p b ok b'")
proof (induction p b arbitrary: ok b' rule: bufio_Write.induct)
  case (1 p b)
  consider (direct) "\<not> werr b" "defaultBufSize - length (wbuf b) < length p" "wbuf b = []"
    | (full) "\<not> werr b" "defaultBufSize - length (wbuf b) < length p" "wbuf b \<noteq> []"
    | (err) "werr b" | (fits) "\<not> werr b" "\<not> defaultBufSize - length (wbuf b) < length p"
    by blast
  then show ?case
  proof cases
    case direct
    obtain n w f where w: "File_Write p (dst b) = (n, w, f)" by (metis prod_cases3)
    let ?c = "b\<lparr>dst := f, werr := \<not> w\<rparr>"
    have rec: "bufio_Write (drop n p) ?c = (ok, b')"
      using 1(3) direct w by (simp add: bufio_Write.simps [of p b])
    have "?P (drop n p) ?c ok b'"
      using 1(1) [OF _ direct(3) w [symmetric] refl rec] direct by simp
    then show ?thesis
      using File_Write_cases [OF w] direct rec
      by (cases w) (auto simp: logical_def bufio_Write.simps [of _ ?c] dest: append_prefixD)
  next
    case full
    let ?k = "defaultBufSize - length (wbuf b)"
    let ?b1 = "b\<lparr>wbuf := wbuf b @ take ?k p\<rparr>"
    obtain w c where fl: "bufio_Flush ?b1 = (w, c)" by (metis prod.exhaust)
    have rec: "bufio_Write (drop ?k p) c = (ok, b')"
      using 1(3) full fl by (simp add: bufio_Write.simps [of p b] Let_def)
    have IH: "?P (drop ?k p) c ok b'"
      using 1(2) [OF _ full(3) refl] full rec fl by simp
    note fc = bufio_Flush_cases [OF fl]
    have lc: "logical c = logical b @ take ?k p" using fc(2) by (simp add: logical_def)
    have pre: "prefix (content (dst b)) (content (dst b'))"
      using IH fc(3) by (auto intro: prefix_order.trans)
    have sy: "synced (dst b') = synced (dst b)" using IH fc(1) by simp
    have fau: "faults (dst b) = [] \<longrightarrow> ok \<and> faults (dst b') = []"
      using IH fc(4,7) full by auto
    have "\<not> ok \<longrightarrow> werr b' \<and> prefix (content (dst b')) (logical b @ p)"
      using IH lc by (auto simp: append_assoc)
    moreover have "ok \<longrightarrow> \<not> werr b' \<and> logical b' = logical b @ p"
      using IH lc by (auto simp: append_assoc)
    ultimately show ?thesis using pre sy fau full by auto
  next
    case err
    with 1(3) show ?thesis by (auto simp: bufio_Write.simps [of p b] logical_def)
  next
    case fits
    with 1(3) show ?thesis by (auto simp: bufio_Write.simps [of p b] logical_def)
  qed
qed

lemma bufio_Write_small:
  assumes "\<not> werr b" and "length (wbuf b) + length p \<le> 4096"
  shows "bufio_Write p b = (True, b\<lparr>wbuf := wbuf b @ p\<rparr>)"
proof -
  have "\<not> defaultBufSize - length (wbuf b) < length p"
    using assms(2) by (simp add: defaultBufSize_def)
  with assms(1) show ?thesis by (simp add: bufio_Write.simps [of p b])
qed

section \<open>Lemmas: directories\<close>

lemma fs_pop_cases:
  assumes "fs_pop fs = (ok, fs')"
  shows "fs_files fs' = fs_files fs" and "fs_unreadable fs' = fs_unreadable fs"
    and "fs_faults fs = [] \<Longrightarrow> ok \<and> fs' = fs"
  using assms by (auto simp: fs_pop_def split: list.splits)

lemma fs_store_simps [simp]:
  "fs_files (fs_store p f fs) = (fs_files fs)(p \<mapsto> content f)"
  "fs_unreadable (fs_store p f fs) = fs_unreadable fs"
  "fs_faults (fs_store p f fs) = faults f"
  by (simp_all add: fs_store_def)

text \<open>
  The contract of the write sequence, for every pattern of failures: on success the path holds the
  new data, otherwise exactly what it held before; no path but the temporary one changes.
\<close>

lemma write_via_tmp_spec:
  assumes "write_via_tmp path data fs = (ok, fs')"
  shows "fs_files fs' path = (if ok then Some data else fs_files fs path)"
    and "\<And>p. p \<noteq> path \<Longrightarrow> p \<noteq> path @ tmp_suffix \<Longrightarrow> fs_files fs' p = fs_files fs p"
    and "fs_unreadable fs' = fs_unreadable fs"
    and "fs_faults fs = [] \<Longrightarrow> ok \<and> fs_faults fs' = []"
proof -
  let ?t = "path @ tmp_suffix"
  have ne: "?t \<noteq> path" by (simp add: tmp_suffix_def str_def)
  obtain o0 fs0 where 0: "fs_pop fs = (o0, fs0)" by (metis prod.exhaust)
  note p0 = fs_pop_cases [OF 0]
  let ?f = "\<lparr>content = [], synced = 0, faults = fs_faults fs0\<rparr>"
  let ?fs = "fs0\<lparr>fs_files := (fs_files fs0)(?t \<mapsto> [])\<rparr>"
  obtain n1 o1 f1 where 1: "File_Write data ?f = (n1, o1, f1)" by (metis prod_cases3)
  obtain o2 f2 where 2: "File_Sync f1 = (o2, f2)" by (metis prod.exhaust)
  obtain o3 fs3 where 3: "fs_pop (fs_store ?t f2 ?fs) = (o3, fs3)" by (metis prod.exhaust)
  note s1 = File_Write_cases [OF 1] and s2 = File_Sync_cases [OF 2] and p3 = fs_pop_cases [OF 3]
  have c2: "o1 \<Longrightarrow> content f2 = data" using s1(2,4) s2(1) by simp
  have run: "(ok, fs') =
      (if \<not> o0 then (False, fs0) else if \<not> o1 then (False, fs_store ?t f1 ?fs)
       else if \<not> o2 then (False, fs_store ?t f2 ?fs)
       else if \<not> o3 then (False, fs3)
       else (True, fs3\<lparr>fs_files := (fs_files fs3)(?t := None, path \<mapsto> data)\<rparr>))"
    using assms 0 1 2 3 c2 p3(1)
    by (cases o0; cases o1; cases o2; cases o3) (simp_all add: write_via_tmp_def os_Create_def os_Rename_def Let_def)
  show "fs_files fs' path = (if ok then Some data else fs_files fs path)"
    using run p0(1) p3(1) ne by (auto split: if_splits)
  show "p \<noteq> path \<Longrightarrow> p \<noteq> ?t \<Longrightarrow> fs_files fs' p = fs_files fs p" for p
    using run p0(1) p3(1) by (auto split: if_splits)
  show "fs_unreadable fs' = fs_unreadable fs" using run p0(2) p3(2) by (auto split: if_splits)
  show "fs_faults fs = [] \<Longrightarrow> ok \<and> fs_faults fs' = []"
    using run p0(3) s1(5) s2(4) p3(3) by (auto split: if_splits)
qed

end
