(* ===== verification/CRC32.thy ===== *)
theory CRC32
  imports KV_Prelude
begin

text \<open>
  The checksum \<^verbatim>\<open>crc32.ChecksumIEEE\<close> that \<^verbatim>\<open>encode\<close> and \<^verbatim>\<open>ReadRecord\<close> of
  \<^verbatim>\<open>internal/wal/wal.go\<close> use: the reflected CRC-32 with polynomial \<^verbatim>\<open>0xEDB88320\<close>, register
  preset to all ones and complemented at the end, one bit at a time (the tables of the library
  are this step applied eight times to each byte).

  The register step is a linear bijection. Hence two bodies of the same length that differ only
  inside one window of four bytes always have different checksums, which is what lets
  \<^verbatim>\<open>ReadRecord\<close> notice corruption.
\<close>

section \<open>Definitions\<close>

definition crc_poly :: u32 where
  "crc_poly = 0xEDB88320"

definition crc_bit :: "u32 \<Rightarrow> u32" where
  "crc_bit c = (if bit c 0 then drop_bit 1 c XOR crc_poly else drop_bit 1 c)"

definition crc_shift :: "u32 \<Rightarrow> u32" where
  "crc_shift c = crc_bit (crc_bit (crc_bit (crc_bit (crc_bit (crc_bit (crc_bit (crc_bit c)))))))"

definition crc_byte :: "u32 \<Rightarrow> byte \<Rightarrow> u32" where
  "crc_byte c b = crc_shift (c XOR ucast b)"

definition crc_update :: "u32 \<Rightarrow> bytes \<Rightarrow> u32" where
  "crc_update c bs = foldl crc_byte c bs"

definition ChecksumIEEE :: "bytes \<Rightarrow> u32" where
  "ChecksumIEEE bs = NOT (crc_update (NOT 0) bs)"

section \<open>Evaluation\<close>

lemma crc_bit_numeral [kv_eval]:
  "crc_bit 0 = 0"
  "crc_bit 1 = 0xEDB88320"
  "crc_bit (numeral (num.Bit0 n)) = drop_bit 1 (numeral (num.Bit0 n))"
  "crc_bit (numeral (num.Bit1 n)) = drop_bit 1 (numeral (num.Bit1 n)) XOR 0xEDB88320"
  by (simp_all add: crc_bit_def crc_poly_def)

lemma ChecksumIEEE_eval [kv_eval]:
  "ChecksumIEEE bs = NOT (crc_update 0xFFFFFFFF bs)"
  "crc_update c [] = c"
  "crc_update c (b # bs) = crc_update (crc_byte c b) bs"
proof -
  have "(NOT 0 :: u32) = 0xFFFFFFFF" by simp
  then show "ChecksumIEEE bs = NOT (crc_update 0xFFFFFFFF bs)"
    by (simp only: ChecksumIEEE_def)
qed (simp_all add: crc_update_def)

lemmas crc_eval [kv_eval] = crc_byte_def crc_shift_def

text \<open>The check value every CRC-32 implementation is tested against.\<close>

lemma ChecksumIEEE_check_value: "ChecksumIEEE (str ''123456789'') = 0xCBF43926"
  by (simp add: str_def kv_eval)

section \<open>The register step is linear and injective\<close>

lemma xor_left_cancel [simp]: "c XOR x = c XOR y \<longleftrightarrow> x = (y :: u32)"
  by (metis xor.left_neutral xor.assoc xor_self_eq)

lemma xor_right_cancel [simp]: "x XOR c = y XOR c \<longleftrightarrow> x = (y :: u32)"
  by (metis xor.commute xor_left_cancel)

lemma crc_bit_xor: "crc_bit (x XOR y) = crc_bit x XOR crc_bit y"
  by (auto simp: crc_bit_def bit_simps xor.assoc xor.left_commute xor.commute)

lemma bit_crc_bit_top: "bit (crc_bit c) 31 \<longleftrightarrow> bit c 0"
  by (auto simp: crc_bit_def crc_poly_def bit_simps dest: bit_imp_le_length)

lemma crc_bit_inject: "crc_bit x = crc_bit y \<longleftrightarrow> x = y"
proof
  assume eq: "crc_bit x = crc_bit y"
  then have b0: "bit x 0 = bit y 0" by (metis bit_crc_bit_top)
  with eq have d: "drop_bit 1 x = drop_bit 1 y"
    by (auto simp: crc_bit_def split: if_splits)
  show "x = y"
  proof (rule bit_word_eqI)
    fix n
    show "bit x n = bit y n"
    proof (cases n)
      case 0
      with b0 show ?thesis by simp
    next
      case (Suc m)
      have "bit (drop_bit 1 x) m = bit (drop_bit 1 y) m" by (simp only: d)
      with Suc show ?thesis by (simp add: bit_drop_bit_eq)
    qed
  qed
qed simp

lemma crc_shift_xor: "crc_shift (x XOR y) = crc_shift x XOR crc_shift y"
  by (simp add: crc_shift_def crc_bit_xor)

lemma crc_shift_inject: "crc_shift x = crc_shift y \<longleftrightarrow> x = y"
  by (simp add: crc_shift_def crc_bit_inject)

lemma crc_byte_inject_state: "crc_byte c b = crc_byte d b \<longleftrightarrow> c = d"
  by (auto simp: crc_byte_def crc_shift_inject)

lemma crc_update_inject_state: "crc_update c bs = crc_update d bs \<longleftrightarrow> c = d"
  by (induction bs arbitrary: c d) (simp_all add: crc_update_def crc_byte_inject_state)

lemma crc_update_append: "crc_update c (xs @ ys) = crc_update (crc_update c xs) ys"
  by (simp add: crc_update_def)

text \<open>A register whose low byte is zero is only shifted.\<close>

lemma crc_bit_even: "\<not> bit c 0 \<Longrightarrow> crc_bit c = drop_bit 1 c"
  by (simp add: crc_bit_def)

lemma crc_shift_push:
  "crc_shift (push_bit (k + 8) (ucast (b :: byte))) = push_bit k (ucast b)" if "k \<le> 16"
proof -
  have step: "crc_bit (push_bit (Suc j) (ucast b)) = push_bit j (ucast b)" if "j < 24" for j
  proof -
    have "crc_bit (push_bit (Suc j) (ucast b)) = drop_bit 1 (push_bit (Suc j) (ucast b))"
      by (rule crc_bit_even) (simp add: bit_push_bit_iff del: push_bit_Suc)
    also have "\<dots> = push_bit j (ucast b)"
      using that
      by (intro bit_word_eqI)
        (auto simp: bit_simps simp del: push_bit_Suc dest: bit_imp_le_length)
    finally show ?thesis .
  qed
  have num: "k + 8 = Suc (Suc (Suc (Suc (Suc (Suc (Suc (Suc k)))))))" by simp
  show ?thesis
    unfolding crc_shift_def num using that by (simp add: step del: push_bit_Suc)
qed

text \<open>Four bytes enter the register as one little-endian word.\<close>

lemma crc_update_word:
  "crc_update c [b0, b1, b2, b3] =
     crc_shift (crc_shift (crc_shift (crc_shift (c XOR Uint32 [b0, b1, b2, b3]))))"
proof -
  have "Uint32 [b0, b1, b2, b3] =
      ucast b0 XOR push_bit 8 (ucast b1) XOR push_bit 16 (ucast b2) XOR push_bit 24 (ucast b3)"
    by (rule bit_word_eqI) (auto simp: bit_simps dest: bit_imp_le_length)
  moreover have "crc_shift (push_bit 8 (ucast b)) = ucast b" for b :: byte
    using crc_shift_push [of 0 b] by simp
  moreover have "crc_shift (push_bit 16 (ucast b)) = push_bit 8 (ucast b)"
    "crc_shift (push_bit 24 (ucast b)) = push_bit 16 (ucast b)" for b :: byte
    using crc_shift_push [of 8 b] crc_shift_push [of 16 b] by simp_all
  ultimately show ?thesis
    by (simp add: crc_update_def crc_byte_def crc_shift_xor xor.assoc)
qed

lemma crc_update_word_inject:
  assumes "length w = 4" "length w' = 4"
  shows "crc_update c w = crc_update c w' \<longleftrightarrow> w = w'"
proof -
  obtain a0 a1 a2 a3 b0 b1 b2 b3 where w: "w = [a0, a1, a2, a3]" "w' = [b0, b1, b2, b3]"
    using assms by (auto simp: numeral_eq_Suc length_Suc_conv)
  have "crc_update c w = crc_update c w' \<longleftrightarrow> Uint32 w = Uint32 w'"
    by (simp only: w crc_update_word crc_shift_inject xor_left_cancel)
  also have "\<dots> \<longleftrightarrow> w = w'" using assms PutUint32_Uint32 by metis
  finally show ?thesis .
qed

text \<open>Every error confined to a window of four bytes changes the checksum.\<close>

lemma ChecksumIEEE_detects_burst:
  assumes "length w = 4" and "length w' = 4" and "w \<noteq> w'"
  shows "ChecksumIEEE (xs @ w @ ys) \<noteq> ChecksumIEEE (xs @ w' @ ys)"
  using assms
  by (simp add: ChecksumIEEE_def crc_update_append crc_update_inject_state crc_update_word_inject)

end
