(* ===== verification/WAL.thy ===== *)
theory WAL
  imports Go_IO CRC32
begin

text \<open>
  \<^verbatim>\<open>internal/wal/wal.go\<close>: the record codec, the append-only log with its buffered writer and
  durable frontier, replay after a restart, and the byte stream a replication leader reads.

  The codec (\<open>encode\<close>, \<open>ReadRecord\<close>) is on plain byte lists; a panic of the decoder is a
  branch of its own, and the lemmas show it is never taken. \<open>WAL\<close> is the struct: its writer
  contains the file, the two offsets are numbers of bytes, and the \<^verbatim>\<open>notify\<close> channel, which
  \<^verbatim>\<open>Sync\<close> closes and replaces, is the number of replacements so far.
\<close>

section \<open>Records and their encoding\<close>

record Record =
  rec_Type :: byte
  rec_Key :: bytes
  rec_Value :: bytes

definition RecordPut :: byte where
  "RecordPut = 1"

definition RecordDelete :: byte where
  "RecordDelete = 2"

datatype wal_error =
    ErrRead io_error
  | ErrTooLarge u32
  | ErrChecksum
  | ErrMalformedBody
  | ErrMalformedKeyLength
  | ErrMalformedValueLength
  | ErrPanic
  | ErrOpen
  | ErrStat
  | ErrAppend
  | ErrFlush
  | ErrFsync
  | ErrClose

definition appendUint32 :: "bytes \<Rightarrow> u32 \<Rightarrow> bytes" where
  "appendUint32 b v = b @ PutUint32 v"

definition encode_body :: "Record \<Rightarrow> bytes" where
  "encode_body r =
     (let body = [rec_Type r];
          body = appendUint32 body (word_of_nat (length (rec_Key r)));
          body = body @ rec_Key r;
          body = appendUint32 body (word_of_nat (length (rec_Value r)))
      in body @ rec_Value r)"

definition encode :: "Record \<Rightarrow> bytes" where
  "encode r =
     (let body = encode_body r;
          crc = ChecksumIEEE body;
          out = appendUint32 [] crc;
          out = appendUint32 out (word_of_nat (length body))
      in out @ body)"

definition maxBodySize :: u32 where
  "maxBodySize = 33554432"

text \<open>The checks of \<^verbatim>\<open>ReadRecord\<close> on a body that was read completely.\<close>

definition decode_body :: "u32 \<Rightarrow> bytes \<Rightarrow> wal_error + Record" where
  "decode_body crcWant body =
     (if ChecksumIEEE body \<noteq> crcWant then Inl ErrChecksum
      else if length body < 9 then Inl ErrMalformedBody
      else
        case (body, goslice 1 5 body) of
          (typ # _, Some kl) \<Rightarrow>
            (let valLenOffset = 5 + unat (Uint32 kl)
             in if valLenOffset + 4 > length body then Inl ErrMalformedKeyLength
                else
                  case (goslice 5 valLenOffset body,
                        goslice valLenOffset (valLenOffset + 4) body) of
                    (Some key, Some vl) \<Rightarrow>
                      (let valStart = valLenOffset + 4; valLen = unat (Uint32 vl)
                       in if valStart + valLen > length body then Inl ErrMalformedValueLength
                          else
                            case goslice valStart (valStart + valLen) body of
                              Some val \<Rightarrow>
                                Inr \<lparr>rec_Type = typ, rec_Key = key, rec_Value = val\<rparr>
                            | None \<Rightarrow> Inl ErrPanic)
                  | _ \<Rightarrow> Inl ErrPanic)
        | _ \<Rightarrow> Inl ErrPanic)"

text \<open>
  The result, the byte count \<^verbatim>\<open>ReadRecord\<close> reports, and the rest of the stream. The count
  \<^verbatim>\<open>int64(8 + length)\<close> is added in 32 bits.
\<close>

definition ReadRecord :: "bytes \<Rightarrow> (wal_error + Record) \<times> nat \<times> bytes" where
  "ReadRecord r =
     (case ReadFull 8 r of
        (Inl e, r1) \<Rightarrow> (Inl (ErrRead e), 0, r1)
      | (Inr header, r1) \<Rightarrow>
          (let crcWant = Uint32 (take 4 header); len = Uint32 (drop 4 header)
           in if maxBodySize < len then (Inl (ErrTooLarge len), 0, r1)
              else
                case ReadFull (unat len) r1 of
                  (Inl e, r2) \<Rightarrow> (Inl (ErrRead ErrUnexpectedEOF), 8, r2)
                | (Inr body, r2) \<Rightarrow> (decode_body crcWant body, unat (8 + len), r2)))"

text \<open>The loop of \<^verbatim>\<open>Replay\<close>: records until the first error.\<close>

lemma ReadRecord_shrinks:
  assumes "ReadRecord r = (Inr rec, n, r')"
  shows "length r' < length r"
proof -
  obtain h r1 where h: "ReadFull 8 r = (Inr h, r1)"
    using assms by (cases "ReadFull 8 r" rule: prod.exhaust) (auto simp: ReadRecord_def split: sum.splits)
  then have "r = h @ r1" "length h = 8" by (auto dest: ReadFull_Inr)
  moreover have "length r' \<le> length r1"
    using assms h
    by (auto simp: ReadRecord_def Let_def ReadFull_def split: if_splits)
  ultimately show ?thesis by simp
qed

function Replay_loop :: "bytes \<Rightarrow> Record list" where
  "Replay_loop r =
     (case ReadRecord r of
        (Inl e, _, _) \<Rightarrow> []
      | (Inr rec, _, r') \<Rightarrow> rec # Replay_loop r')"
  by pat_completeness auto
termination
  by (relation "measure length") (auto dest: ReadRecord_shrinks [OF sym])

declare Replay_loop.simps [simp del]

definition Replay :: "open_result \<Rightarrow> wal_error + Record list" where
  "Replay f =
     (case f of
        NotExist \<Rightarrow> Inr []
      | OpenErr \<Rightarrow> Inl ErrOpen
      | Opened bs \<Rightarrow> Inr (Replay_loop bs))"

section \<open>The log\<close>

record WAL =
  wal_name :: bytes
  wal_w :: bwriter
  durableOff :: nat
  pendingBytes :: nat
  notify :: nat

text \<open>
  \<^verbatim>\<open>Open\<close>: \<open>f\<close> is what \<^verbatim>\<open>os.OpenFile\<close> returned (\<open>None\<close>: it failed) and \<open>stat_ok\<close> whether
  \<^verbatim>\<open>Stat\<close> succeeded.
\<close>

definition WAL_Open :: "bytes \<Rightarrow> osfile option \<Rightarrow> bool \<Rightarrow> wal_error + WAL" where
  "WAL_Open path f stat_ok =
     (case f of
        None \<Rightarrow> Inl ErrOpen
      | Some f \<Rightarrow>
          (if \<not> stat_ok then Inl ErrStat
           else Inr \<lparr>wal_name = path, wal_w = NewWriter f, durableOff = length (content f),
                     pendingBytes = 0, notify = 0\<rparr>))"

definition WAL_Append :: "Record \<Rightarrow> WAL \<Rightarrow> wal_error option \<times> WAL" where
  "WAL_Append r w =
     (let b = encode r
      in case bufio_Write b (wal_w w) of
           (ok, bw) \<Rightarrow>
             (if \<not> ok then (Some ErrAppend, w\<lparr>wal_w := bw\<rparr>)
              else (None, w\<lparr>wal_w := bw, pendingBytes := pendingBytes w + length b\<rparr>)))"

definition WAL_Sync :: "WAL \<Rightarrow> wal_error option \<times> WAL" where
  "WAL_Sync w =
     (case bufio_Flush (wal_w w) of
        (ok, bw) \<Rightarrow>
          (if \<not> ok then (Some ErrFlush, w\<lparr>wal_w := bw\<rparr>)
           else
             case File_Sync (dst bw) of
               (ok, f) \<Rightarrow>
                 (let w = w\<lparr>wal_w := bw\<lparr>dst := f\<rparr>\<rparr>
                  in if \<not> ok then (Some ErrFsync, w)
                     else (None, w\<lparr>durableOff := durableOff w + pendingBytes w,
                                   pendingBytes := 0, notify := notify w + 1\<rparr>))))"

definition WAL_DurableOffset :: "WAL \<Rightarrow> nat" where
  "WAL_DurableOffset w = durableOff w"

definition WAL_Path :: "WAL \<Rightarrow> bytes" where
  "WAL_Path w = wal_name w"

text \<open>\<open>close_ok\<close> is the outcome of closing the file.\<close>

definition WAL_Close :: "bool \<Rightarrow> WAL \<Rightarrow> wal_error option \<times> WAL" where
  "WAL_Close close_ok w =
     (case bufio_Flush (wal_w w) of
        (ok, bw) \<Rightarrow>
          (if \<not> ok then (Some ErrFlush, w\<lparr>wal_w := bw\<rparr>)
           else (if close_ok then None else Some ErrClose, w\<lparr>wal_w := bw\<rparr>)))"

abbreviation wal_file :: "WAL \<Rightarrow> osfile" where
  "wal_file w \<equiv> dst (wal_w w)"

section \<open>Streaming to a follower\<close>

text \<open>
  \<^verbatim>\<open>StreamFrom\<close> is a loop that shares the log with the writers, so it is a step relation: \<open>w\<close>
  is the log at the moment of the step. \<open>Copying\<close> is the head of the loop, \<open>Blocked ch\<close> the
  \<^verbatim>\<open>select\<close> on the channel read under the lock, \<open>Returned\<close> the end with its error.
\<close>

datatype stream_pc = Copying | Blocked nat | Returned "wal_error option"

record stream =
  s_pos :: nat
  s_dst :: bwriter
  s_pc :: stream_pc

definition StreamFrom_start :: "nat \<Rightarrow> bwriter \<Rightarrow> stream" where
  "StreamFrom_start fromOffset d = \<lparr>s_pos = fromOffset, s_dst = d, s_pc = Copying\<rparr>"

text \<open>
  One pass of the copy branch: \<^verbatim>\<open>io.CopyN\<close> of the bytes up to the durable frontier, then the
  flush of the destination. A file shorter than the frontier ends the copy early.
\<close>

definition stream_copy :: "WAL \<Rightarrow> stream \<Rightarrow> stream" where
  "stream_copy w s =
     (let n = durableOff w - s_pos s;
          chunk = take n (drop (s_pos s) (content (wal_file w)))
      in case bufio_Write chunk (s_dst s) of
           (ok, d) \<Rightarrow>
             (if \<not> ok then s\<lparr>s_dst := d, s_pc := Returned (Some (ErrRead ErrIO))\<rparr>
              else if length chunk < n then
                s\<lparr>s_pos := s_pos s + length chunk, s_dst := d,
                  s_pc := Returned (Some (ErrRead EOF))\<rparr>
              else
                case bufio_Flush d of
                  (ok, d) \<Rightarrow>
                    s\<lparr>s_pos := s_pos s + n, s_dst := d,
                      s_pc := (if ok then Copying else Returned (Some (ErrRead ErrIO)))\<rparr>))"

inductive stream_step :: "WAL \<Rightarrow> bool \<Rightarrow> stream \<Rightarrow> stream \<Rightarrow> bool" where
  copy: "s_pc s = Copying \<Longrightarrow> s_pos s < durableOff w \<Longrightarrow> stream_step w dn s (stream_copy w s)"
| caught_up: "s_pc s = Copying \<Longrightarrow> \<not> s_pos s < durableOff w \<Longrightarrow>
    stream_step w dn s (s\<lparr>s_pc := Blocked (notify w)\<rparr>)"
| stop: "s_pc s = Blocked ch \<Longrightarrow> stream_step w True s (s\<lparr>s_pc := Returned None\<rparr>)"
| wake: "s_pc s = Blocked ch \<Longrightarrow> ch \<noteq> notify w \<Longrightarrow> stream_step w dn s (s\<lparr>s_pc := Copying\<rparr>)"

section \<open>Lemmas: the codec\<close>

text \<open>
  Records \<^verbatim>\<open>ReadRecord\<close> accepts: \<open>rec_ok\<close> is its limit on the body. \<open>encode_all\<close> is the
  content of a log of records.
\<close>

definition rec_ok :: "Record \<Rightarrow> bool" where
  "rec_ok r \<longleftrightarrow> 9 + length (rec_Key r) + length (rec_Value r) \<le> 33554432"

definition encode_all :: "Record list \<Rightarrow> bytes" where
  "encode_all rs = concat (map encode rs)"

lemma encode_body_eq:
  "encode_body r =
     [rec_Type r] @ PutUint32 (word_of_nat (length (rec_Key r))) @ rec_Key r @
     PutUint32 (word_of_nat (length (rec_Value r))) @ rec_Value r"
  by (simp add: encode_body_def appendUint32_def)

lemma encode_eq:
  "encode r =
     PutUint32 (ChecksumIEEE (encode_body r)) @
     PutUint32 (word_of_nat (length (encode_body r))) @ encode_body r"
  by (simp add: encode_def appendUint32_def Let_def)

lemma length_encode_body [wire_len]:
  "length (encode_body r) = 9 + length (rec_Key r) + length (rec_Value r)"
  by (simp add: encode_body_eq)

lemma length_encode [wire_len]:
  "length (encode r) = 17 + length (rec_Key r) + length (rec_Value r)"
  by (simp add: encode_eq length_encode_body)

lemma encode_all_simps [simp]:
  "encode_all [] = []"
  "encode_all (r # rs) = encode r @ encode_all rs"
  "encode_all (rs @ rs') = encode_all rs @ encode_all rs'"
  by (simp_all add: encode_all_def)

lemma rec_ok_len:
  assumes "rec_ok r"
  shows "unat (word_of_nat (length (rec_Key r)) :: u32) = length (rec_Key r)"
    and "unat (word_of_nat (length (rec_Value r)) :: u32) = length (rec_Value r)"
    and "unat (word_of_nat (length (encode_body r)) :: u32) = length (encode_body r)"
    and "\<not> maxBodySize < word_of_nat (length (encode_body r))"
    and "unat (8 + word_of_nat (length (encode_body r)) :: u32) = length (encode r)"
proof -
  let ?n = "length (encode_body r)"
  have n: "?n \<le> 33554432" using assms by (simp add: rec_ok_def wire_len)
  show u: "unat (word_of_nat ?n :: u32) = ?n"
    using n by (intro unat_of_length) simp
  show "unat (word_of_nat (length (rec_Key r)) :: u32) = length (rec_Key r)"
    "unat (word_of_nat (length (rec_Value r)) :: u32) = length (rec_Value r)"
    using assms by (auto simp: rec_ok_def intro!: unat_of_length)
  show "\<not> maxBodySize < word_of_nat ?n"
    using n u by (simp add: word_less_nat_alt maxBodySize_def)
  have "length (encode r) = 8 + ?n" by (simp add: wire_len)
  moreover have "unat (8 + word_of_nat ?n :: u32) = 8 + ?n"
    using n by (simp add: unat_word_ariths u del: of_nat_add)
  ultimately show "unat (8 + word_of_nat ?n :: u32) = length (encode r)" by simp
qed

lemma decode_body_encode_body:
  assumes "rec_ok r"
  shows "decode_body (ChecksumIEEE (encode_body r)) (encode_body r) = Inr r"
proof -
  let ?k = "PutUint32 (word_of_nat (length (rec_Key r)))"
  let ?v = "PutUint32 (word_of_nat (length (rec_Value r)))"
  let ?K = "length (rec_Key r)"
  have b: "encode_body r = rec_Type r # ?k @ rec_Key r @ ?v @ rec_Value r"
    by (simp add: encode_body_eq)
  have "goslice 1 5 (encode_body r) = Some ?k"
    using goslice_mid [of "[rec_Type r]" 1 ?k 5] b by simp
  moreover have "goslice 5 (5 + ?K) (encode_body r) = Some (rec_Key r)"
    using goslice_mid [of "rec_Type r # ?k" 5 "rec_Key r" "5 + ?K"] b by simp
  moreover have "goslice (5 + ?K) (5 + ?K + 4) (encode_body r) = Some ?v"
    using goslice_mid [of "rec_Type r # ?k @ rec_Key r" "5 + ?K" ?v "5 + ?K + 4"] b by simp
  moreover have "goslice (5 + ?K + 4) (5 + ?K + 4 + length (rec_Value r)) (encode_body r)
      = Some (rec_Value r)"
    using goslice_mid [of "rec_Type r # ?k @ rec_Key r @ ?v" "5 + ?K + 4" "rec_Value r" _ "[]"] b
    by simp
  ultimately show ?thesis
    using rec_ok_len [OF assms] b
    by (simp add: decode_body_def Let_def wire_len)
qed

lemma ReadRecord_frame:
  assumes "length body = unat len" and "\<not> maxBodySize < len"
  shows "ReadRecord (PutUint32 crc @ PutUint32 len @ body @ rest) =
     (decode_body crc body, unat (8 + len), rest)"
proof -
  have "ReadFull 8 (PutUint32 crc @ PutUint32 len @ body @ rest) =
      (Inr (PutUint32 crc @ PutUint32 len), body @ rest)"
    using ReadFull_append [of "PutUint32 crc @ PutUint32 len" 8] by simp
  then show ?thesis using assms by (simp add: ReadRecord_def)
qed

lemma ReadRecord_encode:
  assumes "rec_ok r"
  shows "ReadRecord (encode r @ rest) = (Inr r, length (encode r), rest)"
  using rec_ok_len [OF assms]
  by (simp add: encode_eq [of r] ReadRecord_frame decode_body_encode_body [OF assms])

text \<open>A cut-off frame: an error, whatever its length.\<close>

lemma ReadRecord_torn:
  assumes "rec_ok r" and "n < length (encode r)"
  shows "\<exists>e m. ReadRecord (take n (encode r)) = (Inl (ErrRead e), m, [])"
proof (cases "n < 8")
  case True
  then have "ReadFull 8 (take n (encode r)) =
      (Inl (if take n (encode r) = [] then EOF else ErrUnexpectedEOF), [])"
    using assms(2) by (intro ReadFull_short) simp
  then show ?thesis by (simp add: ReadRecord_def)
next
  case False
  let ?h = "PutUint32 (ChecksumIEEE (encode_body r)) @
     PutUint32 (word_of_nat (length (encode_body r)))"
  let ?b = "take (n - 8) (encode_body r)"
  have t: "take n (encode r) = ?h @ ?b" using False by (simp add: encode_eq)
  have "ReadFull 8 (take n (encode r)) = (Inr ?h, ?b)"
    unfolding t by (rule ReadFull_append) simp
  moreover have "length ?b < length (encode_body r)"
    using assms(2) False by (simp add: wire_len)
  then have "ReadFull (length (encode_body r)) ?b =
      (Inl (if ?b = [] then EOF else ErrUnexpectedEOF), [])"
    by (rule ReadFull_short)
  ultimately show ?thesis
    using rec_ok_len [OF assms(1)] by (simp add: ReadRecord_def)
qed

text \<open>The reported count is the number of bytes consumed; the smallest frame has 17 bytes.\<close>

lemma decode_body_Inr_len: "decode_body c body = Inr r \<Longrightarrow> 9 \<le> length body"
  by (auto simp: decode_body_def split: if_splits)

lemma ReadRecord_Inr:
  assumes "ReadRecord r = (Inr rec, n, r')"
  shows "n \<le> length r \<and> r' = drop n r \<and> 17 \<le> n"
proof -
  obtain h r1 where h: "ReadFull 8 r = (Inr h, r1)"
    using assms
    by (cases "ReadFull 8 r" rule: prod.exhaust) (auto simp: ReadRecord_def split: sum.splits)
  let ?len = "Uint32 (drop 4 h)"
  obtain body where body: "ReadFull (unat ?len) r1 = (Inr body, r')"
    and len: "\<not> maxBodySize < ?len" and n: "n = unat (8 + ?len)"
    and dec: "decode_body (Uint32 (take 4 h)) body = Inr rec"
    using assms h by (auto simp: ReadRecord_def Let_def split: if_splits sum.splits prod.splits)
  from h body have r: "r = h @ body @ r'" "length h = 8" "length body = unat ?len"
    by (auto dest!: ReadFull_Inr)
  have "unat ?len \<le> 33554432"
    using len by (simp add: word_less_nat_alt maxBodySize_def)
  then have "n = 8 + length body" using n r by (simp add: unat_word_ariths)
  then show ?thesis using r decode_body_Inr_len [OF dec] by simp
qed

text \<open>The slices of the decoder are always in range.\<close>

lemma decode_body_no_panic: "decode_body c body \<noteq> Inl ErrPanic"
  by (cases body) (auto simp: decode_body_def Let_def goslice_def split: if_splits)

lemma ReadRecord_no_panic: "fst (ReadRecord r) \<noteq> Inl ErrPanic"
  by (auto simp: ReadRecord_def Let_def decode_body_no_panic split: prod.splits sum.splits)

section \<open>Lemmas: replay\<close>

lemma Replay_loop_encode: "rec_ok r \<Longrightarrow> Replay_loop (encode r @ rest) = r # Replay_loop rest"
  by (subst Replay_loop.simps) (simp add: ReadRecord_encode)

lemma Replay_loop_error: "ReadRecord bs = (Inl e, n, bs') \<Longrightarrow> Replay_loop bs = []"
  by (subst Replay_loop.simps) simp

lemma Replay_loop_Nil [simp]: "Replay_loop [] = []"
  by (rule Replay_loop_error) (simp add: ReadRecord_def ReadFull_def)

lemma Replay_loop_encode_all:
  "list_all rec_ok rs \<Longrightarrow> Replay_loop (encode_all rs @ rest) = rs @ Replay_loop rest"
  by (induction rs) (simp_all add: Replay_loop_encode)

text \<open>
  Replaying any prefix of a log gives the records that lie completely inside the prefix.
\<close>

lemma Replay_loop_prefix:
  assumes "list_all rec_ok rs"
  shows "\<exists>k \<le> length rs. Replay_loop (take n (encode_all rs)) = take k rs \<and>
     length (encode_all (take k rs)) \<le> n \<and>
     (k < length rs \<longrightarrow> n < length (encode_all (take (Suc k) rs)))"
  using assms
proof (induction rs arbitrary: n)
  case Nil
  then show ?case by simp
next
  case (Cons r rs)
  show ?case
  proof (cases "n < length (encode r)")
    case True
    have "Replay_loop (take n (encode_all (r # rs))) = []"
      using ReadRecord_torn [of r n] Cons.prems True by (auto intro: Replay_loop_error)
    with True show ?thesis by (intro exI [of _ 0]) simp
  next
    case False
    define m where "m = n - length (encode r)"
    from Cons obtain k where k: "k \<le> length rs" "Replay_loop (take m (encode_all rs)) = take k rs"
      "length (encode_all (take k rs)) \<le> m"
      "k < length rs \<longrightarrow> m < length (encode_all (take (Suc k) rs))" by auto
    have "Replay_loop (take n (encode_all (r # rs))) = r # take k rs"
      using False Cons.prems k(2) by (simp add: Replay_loop_encode m_def)
    with k False show ?thesis
      by (intro exI [of _ "Suc k"]) (auto simp: m_def)
  qed
qed

section \<open>Lemmas: the log\<close>

text \<open>
  The invariant: the durable frontier lies inside the file, and as long as no write has failed
  the frontier and the pending bytes account for everything appended.
\<close>

definition wal_inv :: "WAL \<Rightarrow> bool" where
  "wal_inv w \<longleftrightarrow>
     durableOff w \<le> length (content (wal_file w)) \<and>
     synced (wal_file w) \<le> length (content (wal_file w)) \<and>
     (\<not> werr (wal_w w) \<longrightarrow> durableOff w + pendingBytes w = length (logical (wal_w w)))"

lemma WAL_Open_inv [inv_intros]:
  "WAL_Open p (Some f) st = Inr w \<Longrightarrow> synced f \<le> length (content f) \<Longrightarrow> wal_inv w"
  by (auto simp: WAL_Open_def wal_inv_def split: if_splits)

lemma WAL_Open_file: "WAL_Open p (Some f) st = Inr w \<Longrightarrow> wal_w w = NewWriter f"
  by (auto simp: WAL_Open_def split: if_splits)

lemma WAL_Append_spec:
  assumes "WAL_Append r w = (e, w')"
  shows "synced (wal_file w') = synced (wal_file w)"
    and "prefix (content (wal_file w)) (content (wal_file w'))"
    and "durableOff w' = durableOff w" and "notify w' = notify w"
    and "e = None \<Longrightarrow> \<not> werr (wal_w w) \<and> \<not> werr (wal_w w') \<and>
           logical (wal_w w') = logical (wal_w w) @ encode r \<and>
           pendingBytes w' = pendingBytes w + length (encode r)"
    and "e \<noteq> None \<Longrightarrow> werr (wal_w w') \<and> (werr (wal_w w) \<longrightarrow> w' = w) \<and>
           prefix (content (wal_file w')) (logical (wal_w w) @ encode r)"
    and "\<not> werr (wal_w w) \<Longrightarrow> faults (wal_file w) = [] \<Longrightarrow> e = None \<and> faults (wal_file w') = []"
proof -
  obtain ok bw where b: "bufio_Write (encode r) (wal_w w) = (ok, bw)" by (metis prod.exhaust)
  show "synced (wal_file w') = synced (wal_file w)"
    "prefix (content (wal_file w)) (content (wal_file w'))"
    "durableOff w' = durableOff w" "notify w' = notify w"
    "e = None \<Longrightarrow> \<not> werr (wal_w w) \<and> \<not> werr (wal_w w') \<and>
           logical (wal_w w') = logical (wal_w w) @ encode r \<and>
           pendingBytes w' = pendingBytes w + length (encode r)"
    "e \<noteq> None \<Longrightarrow> werr (wal_w w') \<and> (werr (wal_w w) \<longrightarrow> w' = w) \<and>
           prefix (content (wal_file w')) (logical (wal_w w) @ encode r)"
    "\<not> werr (wal_w w) \<Longrightarrow> faults (wal_file w) = [] \<Longrightarrow> e = None \<and> faults (wal_file w') = []"
    using bufio_Write_spec [OF b] assms b by (auto simp: WAL_Append_def split: if_splits)
qed

lemma WAL_Sync_cases:
  assumes "WAL_Sync w = (e, w')"
  obtains (flush_failed) bw where "bufio_Flush (wal_w w) = (False, bw)" "e = Some ErrFlush"
      "w' = w\<lparr>wal_w := bw\<rparr>"
  | (fsync_failed) bw f where "bufio_Flush (wal_w w) = (True, bw)" "File_Sync (dst bw) = (False, f)"
      "e = Some ErrFsync" "w' = w\<lparr>wal_w := bw\<lparr>dst := f\<rparr>\<rparr>"
  | (synced) bw f where "bufio_Flush (wal_w w) = (True, bw)" "File_Sync (dst bw) = (True, f)"
      "e = None" "w' = w\<lparr>wal_w := bw\<lparr>dst := f\<rparr>, durableOff := durableOff w + pendingBytes w,
        pendingBytes := 0, notify := notify w + 1\<rparr>"
proof -
  obtain ok bw where b: "bufio_Flush (wal_w w) = (ok, bw)" by (metis prod.exhaust)
  obtain ok' f where f: "File_Sync (dst bw) = (ok', f)" by (metis prod.exhaust)
  show thesis
    using assms b f that by (cases ok; cases ok') (simp_all add: WAL_Sync_def)
qed

lemma WAL_Sync_any:
  assumes "WAL_Sync w = (e, w')"
  shows "prefix (content (wal_file w)) (content (wal_file w')) \<and>
    logical (wal_w w') = logical (wal_w w) \<and> (werr (wal_w w) \<longrightarrow> e \<noteq> None \<and> werr (wal_w w')) \<and>
    (\<not> werr (wal_w w) \<longrightarrow> faults (wal_file w) = [] \<longrightarrow> e = None \<and> faults (wal_file w') = [])"
  using assms
proof (cases rule: WAL_Sync_cases)
  case (flush_failed bw)
  then show ?thesis using bufio_Flush_cases(2,3,5,7) [OF flush_failed(1)] by auto
next
  case (fsync_failed bw f)
  then show ?thesis
    using bufio_Flush_cases(2,3,4,7) [OF fsync_failed(1)] File_Sync_cases(1,4) [OF fsync_failed(2)]
    by (auto simp: logical_def)
next
  case (synced bw f)
  then show ?thesis
    using bufio_Flush_cases(2,3,4,7) [OF synced(1)] File_Sync_cases(1,4) [OF synced(2)]
    by (auto simp: logical_def)
qed

lemma WAL_Sync_None:
  assumes "WAL_Sync w = (None, w')"
  shows "\<not> werr (wal_w w) \<and> \<not> werr (wal_w w') \<and> wbuf (wal_w w') = [] \<and>
    content (wal_file w') = logical (wal_w w) \<and>
    synced (wal_file w') = length (logical (wal_w w)) \<and>
    durableOff w' = durableOff w + pendingBytes w \<and> pendingBytes w' = 0 \<and>
    notify w' = notify w + 1"
  using assms
proof (cases rule: WAL_Sync_cases)
  case (synced bw f)
  then show ?thesis
    using bufio_Flush_cases(4) [OF synced(1)] File_Sync_cases(1,2) [OF synced(2)] by simp
qed auto

lemma WAL_Sync_Some:
  assumes "WAL_Sync w = (Some e, w')"
  shows "synced (wal_file w') = synced (wal_file w) \<and> durableOff w' = durableOff w \<and>
    pendingBytes w' = pendingBytes w \<and> notify w' = notify w"
  using assms
proof (cases rule: WAL_Sync_cases)
  case (flush_failed bw)
  then show ?thesis using bufio_Flush_cases(1) [OF flush_failed(1)] by simp
next
  case (fsync_failed bw f)
  then show ?thesis
    using bufio_Flush_cases(1) [OF fsync_failed(1)] File_Sync_cases(3) [OF fsync_failed(2)] by simp
qed auto

lemma WAL_Append_inv [inv_intros]:
  assumes "WAL_Append r w = (e, w')" and "wal_inv w"
  shows "wal_inv w'"
proof -
  note A = WAL_Append_spec [OF assms(1)]
  have "length (content (wal_file w)) \<le> length (content (wal_file w'))"
    using A(2) by (rule prefix_length_le)
  with A assms(2) show ?thesis by (cases e) (auto simp: wal_inv_def)
qed

lemma WAL_Sync_inv [inv_intros]:
  assumes "WAL_Sync w = (e, w')" and "wal_inv w"
  shows "wal_inv w'"
proof (cases e)
  case None
  with WAL_Sync_None assms show ?thesis by (fastforce simp: wal_inv_def logical_def)
next
  case (Some x)
  from assms(1) have A: "prefix (content (wal_file w)) (content (wal_file w'))"
    "logical (wal_w w') = logical (wal_w w)" "werr (wal_w w) \<longrightarrow> werr (wal_w w')"
    using WAL_Sync_any by blast+
  from Some assms(1) have "synced (wal_file w') = synced (wal_file w) \<and> durableOff w' = durableOff w \<and>
    pendingBytes w' = pendingBytes w" using WAL_Sync_Some by blast
  with A assms(2) show ?thesis by (auto simp: wal_inv_def dest: prefix_length_le)
qed

text \<open>After a successful \<^verbatim>\<open>Sync\<close> the frontier is the end of the file and all of it is durable.\<close>

lemma WAL_Sync_durable:
  assumes "WAL_Sync w = (None, w')" and "wal_inv w"
  shows "durableOff w' = length (content (wal_file w'))"
    and "synced (wal_file w') = length (content (wal_file w'))"
  using WAL_Sync_None [OF assms(1)] assms(2) by (auto simp: wal_inv_def)

section \<open>Lemmas: streaming\<close>

text \<open>
  The log and one follower's stream run side by side: writers append and sync, the stream takes
  its own steps.
\<close>

inductive log_stream_reach :: "nat \<Rightarrow> bwriter \<Rightarrow> WAL \<Rightarrow> stream \<Rightarrow> bool"
  for fromOffset :: nat and d :: bwriter where
  start: "wal_inv w \<Longrightarrow> \<not> werr d \<Longrightarrow> log_stream_reach fromOffset d w (StreamFrom_start fromOffset d)"
| append: "log_stream_reach fromOffset d w s \<Longrightarrow> WAL_Append r w = (e, w') \<Longrightarrow>
    log_stream_reach fromOffset d w' s"
| sync: "log_stream_reach fromOffset d w s \<Longrightarrow> WAL_Sync w = (e, w') \<Longrightarrow>
    log_stream_reach fromOffset d w' s"
| stream: "log_stream_reach fromOffset d w s \<Longrightarrow> stream_step w dn s s' \<Longrightarrow>
    log_stream_reach fromOffset d w s'"

definition stream_inv :: "nat \<Rightarrow> bwriter \<Rightarrow> WAL \<Rightarrow> stream \<Rightarrow> bool" where
  "stream_inv fromOffset d w s \<longleftrightarrow>
     wal_inv w \<and> fromOffset \<le> s_pos s \<and> s_pos s \<le> max fromOffset (durableOff w) \<and>
     ((\<forall>e. s_pc s \<noteq> Returned (Some e)) \<longrightarrow> \<not> werr (s_dst s) \<and>
        logical (s_dst s) =
          logical d @ take (s_pos s - fromOffset) (drop fromOffset (content (wal_file w)))) \<and>
     (\<forall>ch. s_pc s = Blocked ch \<longrightarrow> ch \<le> notify w \<and> (ch = notify w \<longrightarrow> durableOff w \<le> s_pos s))"

lemma take_drop_prefix:
  "prefix xs ys \<Longrightarrow> a + n \<le> length xs \<Longrightarrow> take n (drop a ys) = take n (drop a xs)"
  by (auto simp: prefix_def)

lemma take_drop_split:
  assumes "a \<le> b" and "b \<le> c"
  shows "take (b - a) (drop a xs) @ take (c - b) (drop b xs) = take (c - a) (drop a xs)"
proof -
  have "take ((b - a) + (c - b)) (drop a xs) =
      take (b - a) (drop a xs) @ take (c - b) (drop (b - a) (drop a xs))"
    by (rule take_add)
  with assms show ?thesis by simp
qed

lemma stream_inv_log_step:
  assumes inv: "stream_inv fromOffset d w s" and inv': "wal_inv w'"
    and pre: "prefix (content (wal_file w)) (content (wal_file w'))"
    and off: "durableOff w \<le> durableOff w'"
    and ep: "notify w' = notify w \<and> durableOff w' = durableOff w \<or> notify w < notify w'"
  shows "stream_inv fromOffset d w' s"
proof -
  have "take (s_pos s - fromOffset) (drop fromOffset (content (wal_file w'))) =
      take (s_pos s - fromOffset) (drop fromOffset (content (wal_file w)))"
  proof (cases "s_pos s \<le> fromOffset")
    case False
    with inv have "fromOffset + (s_pos s - fromOffset) \<le> length (content (wal_file w))"
      by (auto simp: stream_inv_def wal_inv_def)
    then show ?thesis by (rule take_drop_prefix [OF pre])
  qed simp
  with inv inv' off ep show ?thesis by (auto simp: stream_inv_def)
qed

lemma stream_copy_inv:
  assumes inv: "stream_inv fromOffset d w s" and pc: "s_pc s = Copying"
    and lt: "s_pos s < durableOff w"
  shows "stream_inv fromOffset d w (stream_copy w s)"
proof -
  let ?c = "content (wal_file w)"
  let ?n = "durableOff w - s_pos s"
  let ?chunk = "take ?n (drop (s_pos s) ?c)"
  have len: "length ?chunk = ?n" using inv by (auto simp: stream_inv_def wal_inv_def)
  obtain ok d1 where W: "bufio_Write ?chunk (s_dst s) = (ok, d1)" by (metis prod.exhaust)
  obtain ok' d2 where F: "bufio_Flush d1 = (ok', d2)" by (metis prod.exhaust)
  note W' = bufio_Write_spec [OF W] and F' = bufio_Flush_cases [OF F]
  have s: "logical (s_dst s) = logical d @ take (s_pos s - fromOffset) (drop fromOffset ?c)"
    "fromOffset \<le> s_pos s" using inv pc by (auto simp: stream_inv_def)
  have "take (s_pos s - fromOffset) (drop fromOffset ?c) @ ?chunk =
      take (durableOff w - fromOffset) (drop fromOffset ?c)"
    using s(2) lt by (intro take_drop_split) simp_all
  then have lg: "logical (s_dst s) @ ?chunk =
      logical d @ take (durableOff w - fromOffset) (drop fromOffset ?c)"
    by (simp add: s(1))
  have frame: "wal_inv w" "fromOffset \<le> s_pos s" "fromOffset \<le> durableOff w"
    "s_pos s \<le> durableOff w" using inv s(2) lt by (auto simp: stream_inv_def)
  consider "\<not> ok" | "ok" "\<not> ok'" | "ok" "ok'" by blast
  then show ?thesis
  proof cases
    case 1
    with W frame show ?thesis by (simp add: stream_inv_def stream_copy_def)
  next
    case 2
    with W F frame len show ?thesis by (simp add: stream_inv_def stream_copy_def)
  next
    case 3
    then have "logical d2 = logical (s_dst s) @ ?chunk" "\<not> werr d2" using W' F'(2,4) by auto
    with 3 W F frame len lg show ?thesis by (simp add: stream_inv_def stream_copy_def)
  qed
qed

lemma stream_step_inv:
  "stream_step w dn s s' \<Longrightarrow> stream_inv fromOffset d w s \<Longrightarrow> stream_inv fromOffset d w s'"
proof (induction rule: stream_step.induct)
  case (copy s w dn)
  then show ?case by (intro stream_copy_inv)
qed (auto simp: stream_inv_def)

lemma log_stream_reach_inv:
  "log_stream_reach fromOffset d w s \<Longrightarrow> stream_inv fromOffset d w s"
proof (induction rule: log_stream_reach.induct)
  case (start w)
  then show ?case by (simp add: stream_inv_def StreamFrom_start_def)
next
  case (append w s r e w')
  have "wal_inv w'" using append by (auto simp: stream_inv_def intro: inv_intros)
  with append WAL_Append_spec [OF append(2)] show ?case
    by (intro stream_inv_log_step [OF append(3)]) auto
next
  case (sync w s e w')
  have "wal_inv w'" using sync by (auto simp: stream_inv_def intro: inv_intros)
  moreover have "prefix (content (wal_file w)) (content (wal_file w'))"
    using WAL_Sync_any [OF sync(2)] by blast
  moreover have "durableOff w \<le> durableOff w' \<and>
      (notify w' = notify w \<and> durableOff w' = durableOff w \<or> notify w < notify w')"
    using sync(2) WAL_Sync_None WAL_Sync_Some by (cases e) fastforce+
  ultimately show ?case by (blast intro: stream_inv_log_step [OF sync(3)])
next
  case (stream w s dn s')
  then show ?case by (blast intro: stream_step_inv)
qed

section \<open>Properties\<close>



text \<open>
  Decoding one record from any byte stream never slices out of range, whatever the bytes;
  on success it has consumed exactly the number of bytes it reports (which a follower adds to its
  offset), at least the 17 bytes of the smallest frame.
\<close>

theorem ReadRecord_safe:
  "fst (ReadRecord r) \<noteq> Inl ErrPanic \<and>
   (\<forall>rec n r'. ReadRecord r = (Inr rec, n, r') \<longrightarrow> n \<le> length r \<and> r' = drop n r \<and> 17 \<le> n)"
  using ReadRecord_no_panic ReadRecord_Inr by blast

theorem ReadRecord_safe_witness:
  "ReadRecord (encode \<lparr>rec_Type = RecordPut, rec_Key = [107], rec_Value = [7]\<rparr> @ [9]) =
     (Inr \<lparr>rec_Type = RecordPut, rec_Key = [107], rec_Value = [7]\<rparr>, 19, [9]) \<and> 17 \<le> (19 :: nat)"
proof -
  have "ReadRecord (encode \<lparr>rec_Type = RecordPut, rec_Key = [107], rec_Value = [7]\<rparr> @ [9]) =
     (Inr \<lparr>rec_Type = RecordPut, rec_Key = [107], rec_Value = [7]\<rparr>, 19, [9])"
    by (subst ReadRecord_encode) (simp_all add: rec_ok_def length_encode)
  then show ?thesis using ReadRecord_safe by blast
qed



text \<open>
  C16: What a follower receives. At every moment of a stream that runs beside any number of
  appends and syncs, as long as it has not failed, the bytes handed to the follower are exactly
  the log's bytes from the requested offset on, never beyond the durable frontier; and a stream
  blocked on the notification channel while durable bytes are waiting can always be woken (no
  lost wake-up).
\<close>

theorem StreamFrom_durable_prefix:
  assumes "log_stream_reach fromOffset d w s"
  shows "s_pos s \<le> max fromOffset (durableOff w) \<and>
    ((\<forall>e. s_pc s \<noteq> Returned (Some e)) \<longrightarrow>
       logical (s_dst s) =
         logical d @ take (s_pos s - fromOffset) (drop fromOffset (content (wal_file w)))) \<and>
    (\<forall>ch. s_pc s = Blocked ch \<and> s_pos s < durableOff w \<longrightarrow>
       stream_step w False s (s\<lparr>s_pc := Copying\<rparr>))"
  using log_stream_reach_inv [OF assms]
  by (auto simp: stream_inv_def intro!: stream_step.wake)

theorem StreamFrom_durable_prefix_witness:
  "\<exists>w s. log_stream_reach 0 (NewWriter \<lparr>content = [], synced = 0, faults = []\<rparr>) w s \<and>
     content (wal_file w) = [1, 2, 3] \<and> s_pos s = 3 \<and> logical (s_dst s) = [1, 2, 3]"
proof -
  let ?f = "\<lparr>content = [1, 2, 3], synced = 3, faults = []\<rparr>"
  let ?d = "NewWriter \<lparr>content = [], synced = 0, faults = []\<rparr>"
  let ?w = "\<lparr>wal_name = [], wal_w = NewWriter ?f, durableOff = 3, pendingBytes = 0, notify = 0\<rparr>"
  let ?s = "stream_copy ?w (StreamFrom_start 0 ?d)"
  have "log_stream_reach 0 ?d ?w (StreamFrom_start 0 ?d)"
    by (rule log_stream_reach.start) (simp_all add: wal_inv_def)
  then have r: "log_stream_reach 0 ?d ?w ?s"
    by (rule log_stream_reach.stream) (rule stream_step.copy, simp_all add: StreamFrom_start_def)
  have "s_pos ?s = 3" "s_pc ?s = Copying"
    by (simp_all add: stream_copy_def StreamFrom_start_def bufio_Write_small bufio_Flush_def
        File_Write_def pop_outcome_def)
  with StreamFrom_durable_prefix [OF r] have "logical (s_dst ?s) = [1, 2, 3]" by simp
  with r \<open>s_pos ?s = 3\<close> show ?thesis by (intro exI [of _ ?w] exI [of _ ?s]) simp
qed



end
