(* ===== verification/KV_Interface.thy ===== *)
theory KV_Interface
  imports KV_Prelude
begin

text \<open>
  The interface \<^verbatim>\<open>KVStore\<close> of \<^verbatim>\<open>internal/server/server.go\<close> and its contract. A value of the Go
  interface type is a record of the four operations; each operation takes the store's state and
  returns it with the result. The locale \<open>kv_store\<close> states what the server relies on: the
  operations act on a finite map, an operation that reports an error leaves the map alone.
  \<open>Store\<close> interprets it; the server's properties are proved against it.
\<close>

section \<open>Operations\<close>

record ('s, 'e) KVStore =
  kv_Put :: "bytes \<Rightarrow> bytes \<Rightarrow> 's \<Rightarrow> 'e option \<times> 's"
  kv_Delete :: "bytes \<Rightarrow> 's \<Rightarrow> 'e option \<times> 's"
  kv_Get :: "bytes \<Rightarrow> 's \<Rightarrow> bytes option"
  kv_Len :: "'s \<Rightarrow> nat"

text \<open>One mutation, its effect on the abstract map, and runs of mutations through an interface.\<close>

datatype kv_op = KPut bytes bytes | KDel bytes

fun apply_op :: "kv_op \<Rightarrow> (bytes \<rightharpoonup> bytes) \<Rightarrow> (bytes \<rightharpoonup> bytes)" where
  "apply_op (KPut k v) m = m(k \<mapsto> v)"
| "apply_op (KDel k) m = m(k := None)"

fun kv_exec :: "('s, 'e) KVStore \<Rightarrow> kv_op \<Rightarrow> 's \<Rightarrow> 'e option \<times> 's" where
  "kv_exec kv (KPut k v) s = kv_Put kv k v s"
| "kv_exec kv (KDel k) s = kv_Delete kv k s"

fun kv_run :: "('s, 'e) KVStore \<Rightarrow> kv_op list \<Rightarrow> 's \<Rightarrow> 'e option list \<times> 's" where
  "kv_run kv [] s = ([], s)"
| "kv_run kv (x # xs) s =
     (let (e, s') = kv_exec kv x s; (es, s'') = kv_run kv xs s' in (e # es, s''))"

text \<open>The operations of a run that were acknowledged.\<close>

definition acked :: "kv_op list \<Rightarrow> 'e option list \<Rightarrow> kv_op list" where
  "acked xs es = map fst (filter (\<lambda>(x, e). e = None) (zip xs es))"

fun op_key :: "kv_op \<Rightarrow> bytes" where
  "op_key (KPut k v) = k"
| "op_key (KDel k) = k"

section \<open>The contract\<close>

locale kv_store =
  fixes kv :: "('s, 'e) KVStore"
    and abs :: "'s \<Rightarrow> bytes \<rightharpoonup> bytes"
    and inv :: "'s \<Rightarrow> bool"
  assumes get_abs: "inv s \<Longrightarrow> kv_Get kv k s = abs s k"
    and len_abs: "inv s \<Longrightarrow> kv_Len kv s = card (dom (abs s))"
    and fin_abs: "inv s \<Longrightarrow> finite (dom (abs s))"
    and put_ok: "inv s \<Longrightarrow> kv_Put kv k v s = (None, s') \<Longrightarrow> inv s' \<and> abs s' = (abs s)(k \<mapsto> v)"
    and put_err: "inv s \<Longrightarrow> kv_Put kv k v s = (Some e, s') \<Longrightarrow> inv s' \<and> abs s' = abs s"
    and del_ok: "inv s \<Longrightarrow> kv_Delete kv k s = (None, s') \<Longrightarrow> inv s' \<and> abs s' = (abs s)(k := None)"
    and del_err: "inv s \<Longrightarrow> kv_Delete kv k s = (Some e, s') \<Longrightarrow> inv s' \<and> abs s' = abs s"
begin

lemma exec_ok: "inv s \<Longrightarrow> kv_exec kv x s = (None, s') \<Longrightarrow> inv s' \<and> abs s' = apply_op x (abs s)"
  by (cases x) (auto dest: put_ok del_ok)

lemma exec_err: "inv s \<Longrightarrow> kv_exec kv x s = (Some e, s') \<Longrightarrow> inv s' \<and> abs s' = abs s"
  by (cases x) (auto dest: put_err del_err)

text \<open>A run leaves exactly the acknowledged operations in the map, in their order.\<close>

lemma run_abs:
  "inv s \<Longrightarrow> kv_run kv xs s = (es, s') \<Longrightarrow>
     inv s' \<and> length es = length xs \<and> abs s' = fold apply_op (acked xs es) (abs s)"
proof (induction xs arbitrary: s s' es)
  case Nil
  then show ?case by (simp add: acked_def)
next
  case (Cons x xs)
  obtain e t where e: "kv_exec kv x s = (e, t)" by (metis prod.exhaust)
  obtain es' t' where r: "kv_run kv xs t = (es', t')" by (metis prod.exhaust)
  have t: "inv t \<and> abs t = (if e = None then apply_op x (abs s) else abs s)"
    using exec_ok [OF Cons.prems(1)] exec_err [OF Cons.prems(1)] e by (cases e) auto
  have eq: "es = e # es'" "s' = t'" using Cons.prems(2) e r by simp_all
  have "inv t' \<and> length es' = length xs \<and> abs t' = fold apply_op (acked xs es') (abs t)"
    using t r by (intro Cons.IH) simp_all
  with t show ?case by (simp add: eq acked_def)
qed

text \<open>Read your writes: a read after an acknowledged operation sees it.\<close>

lemma read_after_put:
  assumes "inv s" and "kv_Put kv k v s = (None, s')"
  shows "kv_Get kv k' s' = (if k' = k then Some v else kv_Get kv k' s)"
  using put_ok [OF assms] get_abs [OF assms(1)] get_abs [of s'] by simp

lemma read_after_del:
  assumes "inv s" and "kv_Delete kv k s = (None, s')"
  shows "kv_Get kv k' s' = (if k' = k then None else kv_Get kv k' s)"
  using del_ok [OF assms] get_abs [OF assms(1)] get_abs [of s'] by simp

lemma len_after_put:
  assumes "inv s" and "kv_Put kv k v s = (None, s')"
  shows "kv_Len kv s' = (if kv_Get kv k s = None then Suc (kv_Len kv s) else kv_Len kv s)"
proof -
  have "inv s'" "abs s' = (abs s)(k \<mapsto> v)" using put_ok [OF assms] by auto
  then have "kv_Len kv s' = card (insert k (dom (abs s)))" by (simp add: len_abs)
  also have "\<dots> = (if k \<in> dom (abs s) then card (dom (abs s)) else Suc (card (dom (abs s))))"
    using fin_abs [OF assms(1)] by (simp add: card_insert_if)
  finally show ?thesis using assms(1) by (simp add: len_abs get_abs domIff)
qed

end

section \<open>Maps of operations\<close>

lemma kv_run_append:
  "kv_run kv (xs @ ys) s =
     (let (es, s') = kv_run kv xs s; (es', s'') = kv_run kv ys s' in (es @ es', s''))"
  by (induction xs arbitrary: s) (simp_all add: case_prod_beta)

lemma fold_apply_op_other:
  "k \<notin> op_key ` set xs \<Longrightarrow> fold apply_op xs m k = m k"
proof (induction xs arbitrary: m)
  case (Cons x xs)
  then show ?case by (cases x) auto
qed simp

lemma finite_dom_apply_op: "finite (dom m) \<Longrightarrow> finite (dom (apply_op x m))"
  by (cases x) auto

lemma apply_op_idem: "apply_op x (apply_op x m) = apply_op x m"
  by (cases x) auto

end
