(* ===== verification/Store.thy ===== *)
theory Store
  imports WAL KV_Interface
begin

text \<open>
  \<^verbatim>\<open>internal/store/store.go\<close>: the in-memory map backed by the log. \<open>Store\<close> is the struct (its
  map, its log); \<open>Store_Open\<close> replays the log, \<open>Store_Put\<close> and \<open>Store_Delete\<close> append, sync and
  only then change the map. Here operations run one after the other; their interleavings are in
  \<^verbatim>\<open>Store_Concurrent\<close>.
\<close>

section \<open>Definitions\<close>

record Store =
  st_data :: "bytes \<rightharpoonup> bytes"
  st_log :: WAL

text \<open>The \<^verbatim>\<open>switch\<close> on the record type in the replay loop of \<^verbatim>\<open>Open\<close>.\<close>

definition replay_record :: "Record \<Rightarrow> (bytes \<rightharpoonup> bytes) \<Rightarrow> (bytes \<rightharpoonup> bytes)" where
  "replay_record r m =
     (if rec_Type r = RecordPut then m(rec_Key r \<mapsto> rec_Value r)
      else if rec_Type r = RecordDelete then m(rec_Key r := None)
      else m)"

definition replay_all :: "Record list \<Rightarrow> (bytes \<rightharpoonup> bytes)" where
  "replay_all rs = fold replay_record rs Map.empty"

text \<open>
  \<open>src\<close> is the log file opened for reading, \<open>f\<close> the same file opened for appending.
\<close>

definition Store_Open :: "bytes \<Rightarrow> open_result \<Rightarrow> osfile option \<Rightarrow> bool \<Rightarrow> wal_error + Store" where
  "Store_Open walPath src f stat_ok =
     (case Replay src of
        Inl e \<Rightarrow> Inl e
      | Inr records \<Rightarrow>
          (let data = replay_all records
           in case WAL_Open walPath f stat_ok of
                Inl e \<Rightarrow> Inl e
              | Inr log \<Rightarrow> Inr \<lparr>st_data = data, st_log = log\<rparr>))"

definition Store_Put :: "bytes \<Rightarrow> bytes \<Rightarrow> Store \<Rightarrow> wal_error option \<times> Store" where
  "Store_Put key value s =
     (case WAL_Append \<lparr>rec_Type = RecordPut, rec_Key = key, rec_Value = value\<rparr> (st_log s) of
        (Some e, w) \<Rightarrow> (Some e, s\<lparr>st_log := w\<rparr>)
      | (None, w) \<Rightarrow>
          (case WAL_Sync w of
             (Some e, w) \<Rightarrow> (Some e, s\<lparr>st_log := w\<rparr>)
           | (None, w) \<Rightarrow> (None, s\<lparr>st_log := w, st_data := (st_data s)(key \<mapsto> value)\<rparr>)))"

definition Store_Delete :: "bytes \<Rightarrow> Store \<Rightarrow> wal_error option \<times> Store" where
  "Store_Delete key s =
     (case WAL_Append \<lparr>rec_Type = RecordDelete, rec_Key = key, rec_Value = []\<rparr> (st_log s) of
        (Some e, w) \<Rightarrow> (Some e, s\<lparr>st_log := w\<rparr>)
      | (None, w) \<Rightarrow>
          (case WAL_Sync w of
             (Some e, w) \<Rightarrow> (Some e, s\<lparr>st_log := w\<rparr>)
           | (None, w) \<Rightarrow> (None, s\<lparr>st_log := w, st_data := (st_data s)(key := None)\<rparr>)))"

definition Store_Get :: "bytes \<Rightarrow> Store \<Rightarrow> bytes option" where
  "Store_Get key s = st_data s key"

definition Store_Len :: "Store \<Rightarrow> nat" where
  "Store_Len s = card (dom (st_data s))"

definition Store_WAL :: "Store \<Rightarrow> WAL" where
  "Store_WAL s = st_log s"

definition Store_Close :: "bool \<Rightarrow> Store \<Rightarrow> wal_error option \<times> Store" where
  "Store_Close close_ok s =
     (case WAL_Close close_ok (st_log s) of (e, w) \<Rightarrow> (e, s\<lparr>st_log := w\<rparr>))"

text \<open>\<^verbatim>\<open>*store.Store\<close> as a \<^verbatim>\<open>KVStore\<close>.\<close>

definition Store_kv :: "(Store, wal_error) KVStore" where
  "Store_kv = \<lparr>kv_Put = Store_Put, kv_Delete = Store_Delete, kv_Get = Store_Get, kv_Len = Store_Len\<rparr>"

text \<open>The record an operation logs, the file behind a store, and a restart on a file.\<close>

fun op_record :: "kv_op \<Rightarrow> Record" where
  "op_record (KPut k v) = \<lparr>rec_Type = RecordPut, rec_Key = k, rec_Value = v\<rparr>"
| "op_record (KDel k) = \<lparr>rec_Type = RecordDelete, rec_Key = k, rec_Value = []\<rparr>"

abbreviation st_file :: "Store \<Rightarrow> osfile" where
  "st_file s \<equiv> wal_file (st_log s)"

definition Store_restart :: "bytes \<Rightarrow> osfile \<Rightarrow> wal_error + Store" where
  "Store_restart path f = Store_Open path (Opened (content f)) (Some f) True"

section \<open>Lemmas: one operation\<close>

lemma replay_op_record: "replay_record (op_record x) m = apply_op x m"
  by (cases x) (simp_all add: replay_record_def RecordPut_def RecordDelete_def)

lemma replay_all_append: "replay_all (rs @ map op_record xs) = fold apply_op xs (replay_all rs)"
proof -
  have "fold replay_record (map op_record xs) m = fold apply_op xs m" for m
    by (induction xs arbitrary: m) (simp_all add: replay_op_record)
  then show ?thesis by (simp add: replay_all_def)
qed

lemma finite_dom_replay_all: "finite (dom (replay_all rs))"
proof -
  have "finite (dom m) \<Longrightarrow> finite (dom (fold replay_record rs m))" for m
    by (induction rs arbitrary: m) (simp_all add: replay_record_def)
  then show ?thesis by (simp add: replay_all_def)
qed

text \<open>Both mutations are one shape: append, sync, change the map.\<close>

lemma Store_exec_eq:
  "kv_exec Store_kv x s =
     (case WAL_Append (op_record x) (st_log s) of
        (Some e, w) \<Rightarrow> (Some e, s\<lparr>st_log := w\<rparr>)
      | (None, w) \<Rightarrow>
          (case WAL_Sync w of
             (Some e, w) \<Rightarrow> (Some e, s\<lparr>st_log := w\<rparr>)
           | (None, w) \<Rightarrow> (None, s\<lparr>st_log := w, st_data := apply_op x (st_data s)\<rparr>)))"
  by (cases x)
    (auto simp: Store_kv_def Store_Put_def Store_Delete_def split: prod.splits option.splits)

lemma Store_exec_cases:
  assumes "kv_exec Store_kv x s = (e, s')"
  obtains (append_failed) a w where "WAL_Append (op_record x) (st_log s) = (Some a, w)"
      "e = Some a" "s' = s\<lparr>st_log := w\<rparr>"
  | (sync_failed) a w w' where "WAL_Append (op_record x) (st_log s) = (None, w)"
      "WAL_Sync w = (Some a, w')" "e = Some a" "s' = s\<lparr>st_log := w'\<rparr>"
  | (ok) w w' where "WAL_Append (op_record x) (st_log s) = (None, w)" "WAL_Sync w = (None, w')"
      "e = None" "s' = s\<lparr>st_log := w', st_data := apply_op x (st_data s)\<rparr>"
proof -
  obtain a w where A: "WAL_Append (op_record x) (st_log s) = (a, w)" by (metis prod.exhaust)
  obtain b w' where S: "WAL_Sync w = (b, w')" by (metis prod.exhaust)
  show thesis
  proof (cases a)
    case a: None
    show thesis
    proof (cases b)
      case None
      show thesis using assms A S a None by (intro ok) (auto simp: Store_exec_eq)
    next
      case (Some y)
      show thesis using assms A S a Some by (intro sync_failed) (auto simp: Store_exec_eq)
    qed
  next
    case (Some y)
    show thesis using assms A Some by (intro append_failed) (auto simp: Store_exec_eq)
  qed
qed

definition store_inv :: "Store \<Rightarrow> bool" where
  "store_inv s \<longleftrightarrow> finite (dom (st_data s)) \<and> wal_inv (st_log s)"

lemma Store_exec_ok:
  assumes "store_inv s" and "kv_exec Store_kv x s = (None, s')"
  shows "store_inv s' \<and> st_data s' = apply_op x (st_data s)"
  using assms(2)
proof (cases rule: Store_exec_cases)
  case (ok w w')
  then have "wal_inv w'" using assms(1) by (auto simp: store_inv_def intro: inv_intros)
  with ok assms(1) show ?thesis by (simp add: store_inv_def finite_dom_apply_op)
qed simp_all

lemma Store_exec_err:
  assumes "store_inv s" and "kv_exec Store_kv x s = (Some e, s')"
  shows "store_inv s' \<and> st_data s' = st_data s"
  using assms(2)
proof (cases rule: Store_exec_cases)
  case (append_failed a w)
  then have "wal_inv w" using assms(1) by (auto simp: store_inv_def intro: inv_intros)
  with append_failed assms(1) show ?thesis by (simp add: store_inv_def)
next
  case (sync_failed a w w')
  then have "wal_inv w'" using assms(1) by (auto simp: store_inv_def intro: inv_intros)
  with sync_failed assms(1) show ?thesis by (simp add: store_inv_def)
qed simp_all

interpretation store: kv_store Store_kv st_data store_inv
proof unfold_locales
  fix s k v s' e
  assume inv: "store_inv s"
  show "kv_Get Store_kv k s = st_data s k"
    by (simp add: Store_kv_def Store_Get_def)
  show "kv_Len Store_kv s = card (dom (st_data s))"
    by (simp add: Store_kv_def Store_Len_def)
  show "finite (dom (st_data s))" using inv by (simp add: store_inv_def)
  show "kv_Put Store_kv k v s = (None, s') \<Longrightarrow> store_inv s' \<and> st_data s' = (st_data s)(k \<mapsto> v)"
    using Store_exec_ok [OF inv, of "KPut k v"] by simp
  show "kv_Put Store_kv k v s = (Some e, s') \<Longrightarrow> store_inv s' \<and> st_data s' = st_data s"
    using Store_exec_err [OF inv, of "KPut k v"] by simp
  show "kv_Delete Store_kv k s = (None, s') \<Longrightarrow> store_inv s' \<and> st_data s' = (st_data s)(k := None)"
    using Store_exec_ok [OF inv, of "KDel k"] by simp
  show "kv_Delete Store_kv k s = (Some e, s') \<Longrightarrow> store_inv s' \<and> st_data s' = st_data s"
    using Store_exec_err [OF inv, of "KDel k"] by simp
qed

section \<open>Lemmas: restarts\<close>

lemma Store_restart_eq:
  "Store_restart path f =
     Inr \<lparr>st_data = replay_all (Replay_loop (content f)),
          st_log = \<lparr>wal_name = path, wal_w = NewWriter f, durableOff = length (content f),
                    pendingBytes = 0, notify = 0\<rparr>\<rparr>"
  by (simp add: Store_restart_def Store_Open_def Replay_def WAL_Open_def)

lemma Store_restart_inv:
  "Store_restart path f = Inr s \<Longrightarrow> synced f \<le> length (content f) \<Longrightarrow> store_inv s"
  by (auto simp: Store_restart_eq store_inv_def finite_dom_replay_all wal_inv_def)

text \<open>
  How the log of a running store relates to the records it was asked to write, \<open>rs\<close>, of which
  the first \<open>a\<close> are certainly durable.
\<close>

definition log_inv :: "Record list \<Rightarrow> nat \<Rightarrow> WAL \<Rightarrow> bool" where
  "log_inv rs a w \<longleftrightarrow>
     prefix (content (wal_file w)) (encode_all rs) \<and>
     (\<not> werr (wal_w w) \<longrightarrow> logical (wal_w w) = encode_all rs) \<and>
     length (encode_all (take a rs)) \<le> synced (wal_file w) \<and>
     synced (wal_file w) \<le> length (content (wal_file w)) \<and> a \<le> length rs"

lemma log_inv_append:
  assumes "WAL_Append r w = (e, w')" and "log_inv rs a w"
  shows "log_inv (rs @ [r]) a w'"
proof -
  note A = WAL_Append_spec [OF assms(1)]
  have len: "length (content (wal_file w)) \<le> length (content (wal_file w'))"
    using A(2) by (rule prefix_length_le)
  have pre: "prefix (content (wal_file w')) (encode_all (rs @ [r]))"
  proof (cases "werr (wal_w w)")
    case True
    then have "w' = w" using A(5,6) by (cases e) auto
    with assms(2) show ?thesis by (auto simp: log_inv_def intro: prefix_prefix)
  next
    case False
    then have "logical (wal_w w) @ encode r = encode_all (rs @ [r])"
      using assms(2) by (simp add: log_inv_def)
    then show ?thesis
      using A(5,6) by (cases e) (auto simp: logical_def intro: append_eq_prefix)
  qed
  have "\<not> werr (wal_w w') \<longrightarrow> logical (wal_w w') = encode_all (rs @ [r])"
    using A(5,6) assms(2) by (cases e) (auto simp: log_inv_def)
  with pre len A(1) assms(2) show ?thesis by (simp add: log_inv_def)
qed

lemma log_inv_sync:
  assumes "WAL_Sync w = (e, w')" and "log_inv rs a w"
  shows "log_inv rs (if e = None then length rs else a) w'"
proof (cases e)
  case None
  with WAL_Sync_None assms have "content (wal_file w') = logical (wal_w w)" "\<not> werr (wal_w w)"
    "synced (wal_file w') = length (logical (wal_w w))" "logical (wal_w w') = logical (wal_w w)"
    using WAL_Sync_any by blast+
  with None assms(2) show ?thesis by (simp add: log_inv_def)
next
  case (Some x)
  with assms(1) have s: "synced (wal_file w') = synced (wal_file w)" using WAL_Sync_Some by blast
  from assms(1) have A: "prefix (content (wal_file w)) (content (wal_file w'))"
    "logical (wal_w w') = logical (wal_w w)" "werr (wal_w w) \<longrightarrow> werr (wal_w w')"
    using WAL_Sync_any by blast+
  obtain y where y: "content (wal_file w') @ y = logical (wal_w w)"
    using A(2) by (auto simp: logical_def)
  have "prefix (content (wal_file w')) (encode_all rs)"
  proof (cases "werr (wal_w w)")
    case True
    then have "w' = w"
      using assms(1) by (auto simp: WAL_Sync_def bufio_Flush_def)
    with assms(2) show ?thesis by (simp add: log_inv_def)
  next
    case False
    with assms(2) y show ?thesis by (auto simp: log_inv_def intro: append_eq_prefix)
  qed
  with Some s A assms(2) show ?thesis by (auto simp: log_inv_def dest: prefix_length_le)
qed

lemma log_inv_exec:
  assumes "kv_exec Store_kv x s = (e, s')" and "log_inv rs a (st_log s)"
  shows "log_inv (rs @ [op_record x]) (if e = None then Suc (length rs) else a) (st_log s')"
  using assms(1)
proof (cases rule: Store_exec_cases)
  case (append_failed b w)
  then show ?thesis using log_inv_append assms(2) by fastforce
next
  case (sync_failed b w w')
  then show ?thesis using log_inv_sync [OF _ log_inv_append] assms(2) by fastforce
next
  case (ok w w')
  then show ?thesis using log_inv_sync [OF ok(2) log_inv_append [OF ok(1) assms(2)]] by simp
qed

lemma log_inv_run:
  assumes "kv_run Store_kv xs s = (es, s')" and "log_inv rs a (st_log s)"
  shows "\<exists>b. log_inv (rs @ map op_record xs) b (st_log s') \<and> a \<le> b \<and>
    (\<forall>i < length xs. es ! i = None \<longrightarrow> length rs + i < b)"
  using assms
proof (induction xs arbitrary: s s' rs a es)
  case Nil
  then show ?case by auto
next
  case (Cons x xs)
  obtain e t where e: "kv_exec Store_kv x s = (e, t)" by (metis prod.exhaust)
  obtain es' t' where r: "kv_run Store_kv xs t = (es', t')" by (metis prod.exhaust)
  have eq: "es = e # es'" "s' = t'" using Cons.prems(1) e r by simp_all
  let ?a = "if e = None then Suc (length rs) else a"
  have "log_inv (rs @ [op_record x]) ?a (st_log t)" using log_inv_exec [OF e Cons.prems(2)] .
  from Cons.IH [OF r this] obtain b where b:
    "log_inv ((rs @ [op_record x]) @ map op_record xs) b (st_log t')" "?a \<le> b"
    "\<forall>i < length xs. es' ! i = None \<longrightarrow> length (rs @ [op_record x]) + i < b" by blast
  have "a \<le> length rs" using Cons.prems(2) by (simp add: log_inv_def)
  then have "a \<le> b" using b(2) by (auto split: if_splits)
  moreover have "length rs + i < b" if "i < length (x # xs)" "es ! i = None" for i
    using that b(2,3) by (cases i) (auto simp: eq split: if_splits)
  ultimately show ?case using b(1) by (auto simp: eq)
qed

lemma length_encode_all_mono: "i \<le> j \<Longrightarrow> length (encode_all (take i rs)) \<le> length (encode_all (take j rs))"
proof -
  assume "i \<le> j"
  then have "take j rs = take i rs @ take (j - i) (drop i rs)"
    by (metis le_add_diff_inverse take_add)
  then show ?thesis by simp
qed

text \<open>What a restart recovers after a crash: a prefix of the log with all that is durable.\<close>

lemma log_inv_crash:
  assumes "log_inv rs a w" and "list_all rec_ok rs"
  shows "\<exists>k. a \<le> k \<and> k \<le> length rs \<and>
    Replay_loop (content (crash_file (wal_file w) n fl)) = take k rs"
proof -
  let ?c = "content (wal_file w)" and ?s = "synced (wal_file w)"
  let ?m = "min (max ?s n) (length ?c)"
  have "content (crash_file (wal_file w) n fl) = take ?m (encode_all rs)"
    using assms(1) by (auto simp: crash_file_content log_inv_def prefix_def min_def max_def)
  with Replay_loop_prefix [OF assms(2), of ?m] obtain k where
    k: "k \<le> length rs" "Replay_loop (content (crash_file (wal_file w) n fl)) = take k rs"
    "k < length rs \<longrightarrow> ?m < length (encode_all (take (Suc k) rs))" by auto
  have "a \<le> k"
  proof (rule ccontr)
    assume "\<not> a \<le> k"
    then have "Suc k \<le> a" "k < length rs" using assms(1) by (auto simp: log_inv_def)
    then have "?m < length (encode_all (take a rs))"
      using k(3) length_encode_all_mono [of "Suc k" a rs] by auto
    with assms(1) show False by (auto simp: log_inv_def)
  qed
  with k show ?thesis by blast
qed

text \<open>A store opened on a clean, durable log.\<close>

lemma Store_restart_clean:
  assumes "Store_restart path f = Inr s" and "content f = encode_all rs"
    and "synced f = length (content f)" and "list_all rec_ok rs"
  shows "log_inv rs (length rs) (st_log s) \<and> store_inv s \<and> st_data s = replay_all rs"
proof -
  have "Replay_loop (content f) = rs"
    using Replay_loop_encode_all [OF assms(4), of "[]"] assms(2) by simp
  then show ?thesis
    using assms Store_restart_inv [OF assms(1)] by (auto simp: Store_restart_eq log_inv_def)
qed

text \<open>A torn record in front of new records swallows them.\<close>

lemma ReadRecord_torn_then_more:
  assumes "rec_ok r" and "8 \<le> n" and "n + length ys < length (encode r)"
  shows "ReadRecord (take n (encode r) @ ys) = (Inl (ErrRead ErrUnexpectedEOF), 8, [])"
proof -
  let ?h = "PutUint32 (ChecksumIEEE (encode_body r)) @
     PutUint32 (word_of_nat (length (encode_body r)))"
  let ?b = "take (n - 8) (encode_body r) @ ys"
  have t: "take n (encode r) @ ys = ?h @ ?b" using assms(2) by (simp add: encode_eq)
  have "ReadFull 8 (take n (encode r) @ ys) = (Inr ?h, ?b)"
    unfolding t by (rule ReadFull_append) simp
  moreover have "ReadFull (length (encode_body r)) ?b =
      (Inl (if ?b = [] then EOF else ErrUnexpectedEOF), [])"
    using assms by (intro ReadFull_short) (simp add: wire_len)
  ultimately show ?thesis
    using rec_ok_len [OF assms(1)] by (simp add: ReadRecord_def)
qed

text \<open>Without failures every operation is acknowledged and its record is in the file.\<close>

lemma Store_exec_no_faults:
  assumes "\<not> werr (wal_w (st_log s))" and "faults (st_file s) = []"
    and "kv_exec Store_kv x s = (e, s')"
  shows "e = None \<and> \<not> werr (wal_w (st_log s')) \<and> faults (st_file s') = [] \<and>
    wbuf (wal_w (st_log s')) = [] \<and>
    content (st_file s') = logical (wal_w (st_log s)) @ encode (op_record x) \<and>
    synced (st_file s') = length (content (st_file s'))"
  using assms(3)
proof (cases rule: Store_exec_cases)
  case (append_failed a w)
  then show ?thesis using WAL_Append_spec(7) [OF append_failed(1) assms(1,2)] by simp
next
  case (sync_failed a w w')
  then have "\<not> werr (wal_w w)" "faults (wal_file w) = []"
    using WAL_Append_spec(5,7) [OF sync_failed(1)] assms by auto
  then show ?thesis using WAL_Sync_any [OF sync_failed(2)] by simp
next
  case (ok w w')
  then have w: "\<not> werr (wal_w w)" "faults (wal_file w) = []"
    "logical (wal_w w) = logical (wal_w (st_log s)) @ encode (op_record x)"
    using WAL_Append_spec(5,7) [OF ok(1)] assms by auto
  then show ?thesis using ok WAL_Sync_any [OF ok(2)] WAL_Sync_None [OF ok(2)] by simp
qed

lemma Store_run_no_faults:
  "\<not> werr (wal_w (st_log s)) \<Longrightarrow> faults (st_file s) = [] \<Longrightarrow> kv_run Store_kv xs s = (es, s') \<Longrightarrow>
   es = replicate (length xs) None \<and>
   logical (wal_w (st_log s')) = logical (wal_w (st_log s)) @ encode_all (map op_record xs) \<and>
   (wbuf (wal_w (st_log s)) = [] \<longrightarrow> wbuf (wal_w (st_log s')) = [])"
proof (induction xs arbitrary: s es)
  case (Cons x xs)
  obtain e t where e: "kv_exec Store_kv x s = (e, t)" by (metis prod.exhaust)
  obtain es' t' where r: "kv_run Store_kv xs t = (es', t')" by (metis prod.exhaust)
  note E = Store_exec_no_faults [OF Cons.prems(1,2) e]
  have "es = e # es'" "s' = t'" using Cons.prems(3) e r by simp_all
  with Cons.IH [of t es'] E r show ?case by (auto simp: logical_def)
qed simp

text \<open>Memory holds the acknowledged operations, whatever the log is worth.\<close>

lemma Store_run_data:
  "kv_run Store_kv xs s = (es, s') \<Longrightarrow> st_data s' = fold apply_op (acked xs es) (st_data s)"
proof (induction xs arbitrary: s s' es)
  case Nil
  then show ?case by (simp add: acked_def)
next
  case (Cons x xs)
  obtain e t where e: "kv_exec Store_kv x s = (e, t)" by (metis prod.exhaust)
  obtain es' t' where r: "kv_run Store_kv xs t = (es', t')" by (metis prod.exhaust)
  have eq: "es = e # es'" "s' = t'" using Cons.prems e r by simp_all
  have "st_data t = (if e = None then apply_op x (st_data s) else st_data s)"
    using e by (cases rule: Store_exec_cases) simp_all
  with Cons.IH [OF r] show ?case by (simp add: eq acked_def)
qed

text \<open>What a crash leaves of a run: every acknowledged operation, and an operation only after all before it.\<close>

lemma crash_recovery:
  assumes "list_all rec_ok (rs @ map op_record xs)"
    and "content f = encode_all rs" and "synced f = length (content f)"
    and "Store_restart path f = Inr s" and "kv_run Store_kv xs s = (es, s')"
  shows "st_data s' = fold apply_op (acked xs es) (replay_all rs) \<and>
    (\<exists>k s''. k \<le> length xs \<and> (\<forall>i < length xs. es ! i = None \<longrightarrow> i < k) \<and>
      Store_restart path (crash_file (st_file s') n fl) = Inr s'' \<and>
      st_data s'' = fold apply_op (take k xs) (replay_all rs))"
proof -
  have start: "log_inv rs (length rs) (st_log s)" "store_inv s" "st_data s = replay_all rs"
    using Store_restart_clean [OF assms(4,2,3)] assms(1) by auto
  obtain b where b: "log_inv (rs @ map op_record xs) b (st_log s')" "length rs \<le> b"
    "\<forall>i < length xs. es ! i = None \<longrightarrow> length rs + i < b"
    using log_inv_run [OF assms(5) start(1)] by blast
  obtain k where k: "b \<le> k" "k \<le> length (rs @ map op_record xs)"
    "Replay_loop (content (crash_file (st_file s') n fl)) = take k (rs @ map op_record xs)"
    using log_inv_crash [OF b(1) assms(1)] by blast
  define j where "j = k - length rs"
  have "take k (rs @ map op_record xs) = rs @ map op_record (take j xs)"
    using k(1) b(2) by (simp add: j_def take_map)
  then have "\<exists>s''. Store_restart path (crash_file (st_file s') n fl) = Inr s'' \<and>
      st_data s'' = fold apply_op (take j xs) (replay_all rs)"
    using k(3) by (simp add: Store_restart_eq replay_all_append)
  moreover have "j \<le> length xs" "\<forall>i < length xs. es ! i = None \<longrightarrow> i < j"
    using k b(3) by (auto simp: j_def)
  moreover have "st_data s' = fold apply_op (acked xs es) (replay_all rs)"
    using store.run_abs [OF start(2) assms(5)] start(3) by simp
  ultimately show ?thesis by blast
qed

section \<open>Properties\<close>



text \<open>
  C21: A restart does not cut off a torn record. If a crash leaves a record of which at least the
  eight header bytes were written, the reopened store appends behind the torn bytes; operations
  it then acknowledges as durable are dropped by the next restart, as long as they are together
  shorter than the missing part of the torn record.
\<close>

theorem torn_tail_swallows_acknowledged_writes:
  assumes "list_all rec_ok rs" and "rec_ok r" and "8 \<le> n"
    and "content f = encode_all rs @ take n (encode r)" and "faults f = []"
    and "n + length (encode_all (map op_record xs)) < length (encode r)"
    and "Store_restart path f = Inr s" and "kv_run Store_kv xs s = (es, s')"
  shows "es = replicate (length xs) None \<and>
    st_data s' = fold apply_op (acked xs es) (replay_all rs) \<and>
    (\<exists>s''. Store_restart path (st_file s') = Inr s'' \<and> st_data s'' = replay_all rs)"
proof -
  have "ReadRecord (take n (encode r) @ []) = (Inl (ErrRead ErrUnexpectedEOF), 8, [])"
    using assms by (intro ReadRecord_torn_then_more) simp_all
  then have "Replay_loop (content f) = rs"
    using assms(1,4) Replay_loop_encode_all Replay_loop_error by simp
  then have s: "st_data s = replay_all rs" "wal_w (st_log s) = NewWriter f"
    using assms(7) by (auto simp: Store_restart_eq)
  have run: "es = replicate (length xs) None"
    "content (st_file s') = content f @ encode_all (map op_record xs)"
    using Store_run_no_faults [OF _ _ assms(8)] s(2) assms(5) by (auto simp: logical_def)
  have "ReadRecord (take n (encode r) @ encode_all (map op_record xs)) =
      (Inl (ErrRead ErrUnexpectedEOF), 8, [])"
    using assms by (intro ReadRecord_torn_then_more) simp_all
  then have "Replay_loop (content (st_file s')) = rs"
    using run(2) assms(1,4) Replay_loop_encode_all Replay_loop_error by simp
  then have "\<exists>s''. Store_restart path (st_file s') = Inr s'' \<and> st_data s'' = replay_all rs"
    by (simp add: Store_restart_eq)
  moreover have "st_data s' = fold apply_op (acked xs es) (st_data s)"
    using assms(8) by (rule Store_run_data)
  ultimately show ?thesis using run(1) s(1) by simp
qed

theorem torn_tail_swallows_acknowledged_writes_witness:
  "\<exists>s s'. Store_restart []
       \<lparr>content = take 8 (encode (op_record (KPut [1] (replicate 30 0)))), synced = 8, faults = []\<rparr>
       = Inr s \<and>
     kv_run Store_kv [KPut [7] [7]] s = ([None], s') \<and> st_data s' [7] = Some [7] \<and>
     (\<exists>s''. Store_restart [] (st_file s') = Inr s'' \<and> st_data s'' [7] = None)"
proof -
  let ?r = "op_record (KPut [1] (replicate 30 0))"
  let ?f = "\<lparr>content = take 8 (encode ?r), synced = 8, faults = []\<rparr>"
  obtain s where s: "Store_restart [] ?f = Inr s" by (simp add: Store_restart_eq)
  obtain es s' where r: "kv_run Store_kv [KPut [7] [7]] s = (es, s')" by (metis prod.exhaust)
  have "es = replicate 1 None \<and> st_data s' = fold apply_op (acked [KPut [7] [7]] es) (replay_all []) \<and>
      (\<exists>s''. Store_restart [] (st_file s') = Inr s'' \<and> st_data s'' = replay_all [])"
    using torn_tail_swallows_acknowledged_writes [of "[]" ?r 8 ?f "[KPut [7] [7]]" "[]", OF _ _ _ _ _ _ s r]
    by (simp add: rec_ok_def wire_len)
  then have "es = [None]" "st_data s' [7] = Some [7]"
    "\<exists>s''. Store_restart [] (st_file s') = Inr s'' \<and> st_data s'' [7] = None"
    by (auto simp: acked_def replay_all_def)
  with s r show ?thesis by (auto simp del: kv_run.simps)
qed

end
