(* ===== verification/Store_Concurrent.thy ===== *)
theory Store_Concurrent
  imports Store
begin

text \<open>
  Concurrent callers of \<^verbatim>\<open>internal/store/store.go\<close>. \<^verbatim>\<open>Put\<close> and \<^verbatim>\<open>Delete\<close> take three locks one
  after the other (the log's in \<^verbatim>\<open>Append\<close> and in \<^verbatim>\<open>Sync\<close>, then the store's for the map), so the
  steps of several callers interleave at exactly those points. Thread \<open>i\<close> runs the \<open>i\<close>-th
  operation of a list; a step relation moves one thread past one lock.
\<close>

section \<open>Definitions\<close>

datatype thread =
    TStart kv_op
  | TAppended kv_op
  | TSynced kv_op
  | TDone kv_op "wal_error option"

record conc =
  c_data :: "bytes \<rightharpoonup> bytes"
  c_log :: WAL
  c_threads :: "thread list"

inductive conc_step :: "conc \<Rightarrow> conc \<Rightarrow> bool" where
  append_ok: "i < length (c_threads c) \<Longrightarrow> c_threads c ! i = TStart x \<Longrightarrow>
    WAL_Append (op_record x) (c_log c) = (None, w) \<Longrightarrow>
    conc_step c (c\<lparr>c_log := w, c_threads := (c_threads c)[i := TAppended x]\<rparr>)"
| append_err: "i < length (c_threads c) \<Longrightarrow> c_threads c ! i = TStart x \<Longrightarrow>
    WAL_Append (op_record x) (c_log c) = (Some e, w) \<Longrightarrow>
    conc_step c (c\<lparr>c_log := w, c_threads := (c_threads c)[i := TDone x (Some e)]\<rparr>)"
| sync_ok: "i < length (c_threads c) \<Longrightarrow> c_threads c ! i = TAppended x \<Longrightarrow>
    WAL_Sync (c_log c) = (None, w) \<Longrightarrow>
    conc_step c (c\<lparr>c_log := w, c_threads := (c_threads c)[i := TSynced x]\<rparr>)"
| sync_err: "i < length (c_threads c) \<Longrightarrow> c_threads c ! i = TAppended x \<Longrightarrow>
    WAL_Sync (c_log c) = (Some e, w) \<Longrightarrow>
    conc_step c (c\<lparr>c_log := w, c_threads := (c_threads c)[i := TDone x (Some e)]\<rparr>)"
| update: "i < length (c_threads c) \<Longrightarrow> c_threads c ! i = TSynced x \<Longrightarrow>
    conc_step c (c\<lparr>c_data := apply_op x (c_data c),
                    c_threads := (c_threads c)[i := TDone x None]\<rparr>)"

definition conc_init :: "Store \<Rightarrow> kv_op list \<Rightarrow> conc" where
  "conc_init s xs = \<lparr>c_data = st_data s, c_log = st_log s, c_threads = map TStart xs\<rparr>"

inductive conc_reach :: "Store \<Rightarrow> kv_op list \<Rightarrow> conc \<Rightarrow> bool" for s :: Store and xs :: "kv_op list" where
  init: "conc_reach s xs (conc_init s xs)"
| step: "conc_reach s xs c \<Longrightarrow> conc_step c c' \<Longrightarrow> conc_reach s xs c'"

fun thread_op :: "thread \<Rightarrow> kv_op" where
  "thread_op (TStart x) = x"
| "thread_op (TAppended x) = x"
| "thread_op (TSynced x) = x"
| "thread_op (TDone x e) = x"

text \<open>The call has returned without an error; the log sync of the call has succeeded.\<close>

fun thread_acked :: "thread \<Rightarrow> bool" where
  "thread_acked (TDone x None) = True"
| "thread_acked _ = False"

fun thread_durable :: "thread \<Rightarrow> bool" where
  "thread_durable (TSynced x) = True"
| "thread_durable (TDone x None) = True"
| "thread_durable _ = False"

fun thread_started :: "thread \<Rightarrow> bool" where
  "thread_started (TStart x) = False"
| "thread_started _ = True"

section \<open>Lemmas: the log under concurrency\<close>

text \<open>
  \<open>ord\<close> lists the threads in the order in which their records entered the log; the first \<open>a\<close>
  of them are durable.
\<close>

definition conc_inv :: "Record list \<Rightarrow> kv_op list \<Rightarrow> nat list \<Rightarrow> nat \<Rightarrow> conc \<Rightarrow> bool" where
  "conc_inv rs xs ord a c \<longleftrightarrow>
     map thread_op (c_threads c) = xs \<and>
     distinct ord \<and> set ord = {i. i < length xs \<and> thread_started (c_threads c ! i)} \<and>
     a \<le> length ord \<and>
     log_inv (rs @ map (\<lambda>i. op_record (xs ! i)) ord) (length rs + a) (c_log c) \<and>
     (\<forall>i < length xs. thread_durable (c_threads c ! i) \<longrightarrow> i \<in> set (take a ord))"

lemma conc_inv_init:
  assumes "log_inv rs (length rs) (st_log s)"
  shows "conc_inv rs xs [] 0 (conc_init s xs)"
  using assms by (simp add: conc_inv_def conc_init_def comp_def)

lemma map_update_same: "i < length ts \<Longrightarrow> f t = f (ts ! i) \<Longrightarrow> map f (ts[i := t]) = map f ts"
  by (metis list_update_id map_update)

lemma conc_inv_thread:
  assumes "conc_inv rs xs ord a c" and "i < length (c_threads c)"
    and "thread_op t = thread_op (c_threads c ! i)"
    and "thread_started t" and "thread_started (c_threads c ! i)"
    and "log_inv (rs @ map (\<lambda>i. op_record (xs ! i)) ord) (length rs + b) w" and "a \<le> b" "b \<le> length ord"
    and "thread_durable t \<longrightarrow> i \<in> set (take b ord)"
  shows "conc_inv rs xs ord b (c\<lparr>c_log := w, c_data := d, c_threads := (c_threads c)[i := t]\<rparr>)"
proof -
  have len: "length (c_threads c) = length xs" using assms(1) by (auto simp: conc_inv_def)
  have "set (take a ord) \<subseteq> set (take b ord)" using assms(7) by (rule set_take_subset_set_take)
  then have "\<forall>j < length xs. thread_durable ((c_threads c)[i := t] ! j) \<longrightarrow> j \<in> set (take b ord)"
    using assms(1,2,9) len by (auto simp: conc_inv_def nth_list_update split: if_splits)
  then show ?thesis
    using assms len by (auto simp: conc_inv_def map_update_same nth_list_update)
qed

lemma conc_inv_append:
  assumes "conc_inv rs xs ord a c" and "i < length (c_threads c)" and "c_threads c ! i = TStart x"
    and "WAL_Append (op_record x) (c_log c) = (e, w)"
    and "thread_op t = x" and "thread_started t" and "\<not> thread_durable t"
  shows "conc_inv rs xs (ord @ [i]) a (c\<lparr>c_log := w, c_threads := (c_threads c)[i := t]\<rparr>)"
proof -
  have len: "length (c_threads c) = length xs" and x: "xs ! i = x"
    using assms(1-3) by (auto simp: conc_inv_def)
  have "log_inv ((rs @ map (\<lambda>i. op_record (xs ! i)) ord) @ [op_record x]) (length rs + a) w"
    using assms(1,4) by (intro log_inv_append) (auto simp: conc_inv_def)
  moreover have "i \<notin> set ord" using assms(1,3) by (simp add: conc_inv_def)
  ultimately show ?thesis
    using assms len x by (auto simp: conc_inv_def map_update_same nth_list_update)
qed

lemma conc_inv_sync:
  assumes "conc_inv rs xs ord a c" and "WAL_Sync (c_log c) = (e, w)"
  shows "log_inv (rs @ map (\<lambda>i. op_record (xs ! i)) ord)
    (length rs + (if e = None then length ord else a)) w"
  using log_inv_sync [OF assms(2)] assms(1) by (fastforce simp: conc_inv_def)

lemma conc_step_inv:
  assumes "conc_step c c'" and "conc_inv rs xs ord a c"
  shows "\<exists>ord' b. conc_inv rs xs ord' b c' \<and> prefix ord ord'"
  using assms(1)
proof cases
  case (append_ok i x w)
  then show ?thesis using conc_inv_append [OF assms(2), of i x None w "TAppended x"] by auto
next
  case (append_err i x e w)
  then show ?thesis using conc_inv_append [OF assms(2), of i x "Some e" w "TDone x (Some e)"] by auto
next
  case (sync_ok i x w)
  have "i \<in> set ord" using sync_ok assms(2) by (auto simp: conc_inv_def)
  moreover have "a \<le> length ord" using assms(2) by (simp add: conc_inv_def)
  ultimately show ?thesis
    using conc_inv_thread [OF assms(2), of i "TSynced x" "length ord" w "c_data c"]
      conc_inv_sync [OF assms(2) sync_ok(4)] sync_ok by fastforce
next
  case (sync_err i x e w)
  have "a \<le> length ord" using assms(2) by (simp add: conc_inv_def)
  then show ?thesis
    using conc_inv_thread [OF assms(2), of i "TDone x (Some e)" a w "c_data c"]
      conc_inv_sync [OF assms(2) sync_err(4)] sync_err by fastforce
next
  case (update i x)
  have "i \<in> set (take a ord)" using update assms(2) by (auto simp: conc_inv_def)
  moreover have "log_inv (rs @ map (\<lambda>i. op_record (xs ! i)) ord) (length rs + a) (c_log c)"
    "a \<le> length ord" using assms(2) by (auto simp: conc_inv_def)
  ultimately show ?thesis
    using conc_inv_thread [OF assms(2), of i "TDone x None" a "c_log c" "apply_op x (c_data c)"]
      update by fastforce
qed

lemma conc_reach_inv:
  assumes "conc_reach s xs c" and "log_inv rs (length rs) (st_log s)"
  shows "\<exists>ord a. conc_inv rs xs ord a c"
  using assms(1)
proof (induction rule: conc_reach.induct)
  case init
  then show ?case using conc_inv_init [OF assms(2)] by blast
next
  case (step c c')
  then show ?case using conc_step_inv by blast
qed

section \<open>Lemmas: a key with a single writer\<close>

text \<open>
  While thread \<open>i\<close> is the only one that writes its key, the map holds the old value until the
  thread's update and the new one after it.
\<close>

definition sole_writer :: "kv_op list \<Rightarrow> nat \<Rightarrow> bool" where
  "sole_writer xs i \<longleftrightarrow> i < length xs \<and>
     (\<forall>j < length xs. op_key (xs ! j) = op_key (xs ! i) \<longrightarrow> j = i)"

lemma apply_op_key: "apply_op x m (op_key x) = apply_op x m' (op_key x)"
  by (cases x) simp_all

lemma apply_op_other: "k \<noteq> op_key x \<Longrightarrow> apply_op x m k = m k"
  by (cases x) auto

lemma sole_writer_neq:
  "sole_writer xs i \<Longrightarrow> j < length xs \<Longrightarrow> j \<noteq> i \<Longrightarrow> op_key (xs ! i) \<noteq> op_key (xs ! j)"
  unfolding sole_writer_def by metis

lemma fold_apply_op_sole:
  assumes "sole_writer xs i"
  shows "distinct ord \<Longrightarrow> set ord \<subseteq> {..<length xs} \<Longrightarrow>
    fold apply_op (map ((!) xs) ord) m (op_key (xs ! i)) =
    (if i \<in> set ord then apply_op (xs ! i) m (op_key (xs ! i)) else m (op_key (xs ! i)))"
proof (induction ord arbitrary: m)
  case (Cons j ord)
  let ?k = "op_key (xs ! i)"
  show ?case
  proof (cases "j = i")
    case True
    have "?k \<notin> op_key ` set (map ((!) xs) ord)"
    proof
      assume "?k \<in> op_key ` set (map ((!) xs) ord)"
      then obtain l where "l \<in> set ord" "?k = op_key (xs ! l)" by auto
      with sole_writer_neq [OF assms] Cons.prems True show False by auto
    qed
    then have "fold apply_op (map ((!) xs) ord) (apply_op (xs ! i) m) ?k = apply_op (xs ! i) m ?k"
      by (rule fold_apply_op_other)
    with True show ?thesis by simp
  next
    case False
    have "?k \<noteq> op_key (xs ! j)" using sole_writer_neq [OF assms] Cons.prems(2) False by simp
    then have "apply_op (xs ! j) m ?k = m ?k" by (rule apply_op_other)
    moreover have "apply_op (xs ! i) (apply_op (xs ! j) m) ?k = apply_op (xs ! i) m ?k"
      by (rule apply_op_key)
    moreover have "fold apply_op (map ((!) xs) ord) (apply_op (xs ! j) m) ?k =
        (if i \<in> set ord then apply_op (xs ! i) (apply_op (xs ! j) m) ?k else apply_op (xs ! j) m ?k)"
      using Cons by simp
    ultimately show ?thesis using False by simp
  qed
qed simp

lemma conc_step_sole:
  assumes "conc_step c c'" and "map thread_op (c_threads c) = xs" and "sole_writer xs i"
    and "c_data c (op_key (xs ! i)) =
      (if thread_acked (c_threads c ! i) then apply_op (xs ! i) m (op_key (xs ! i))
       else m (op_key (xs ! i)))"
  shows "map thread_op (c_threads c') = xs \<and> c_data c' (op_key (xs ! i)) =
      (if thread_acked (c_threads c' ! i) then apply_op (xs ! i) m (op_key (xs ! i))
       else m (op_key (xs ! i)))"
  using assms(1)
proof cases
  case (update j x)
  then have j: "j < length xs" "xs ! j = x" using assms(2) by auto
  show ?thesis
  proof (cases "j = i")
    case True
    with update j assms(2) show ?thesis
      using apply_op_key [of x "c_data c" m] by (simp add: map_update_same)
  next
    case False
    then have "op_key (xs ! i) \<noteq> op_key x" using assms(3) j by (auto simp: sole_writer_def)
    with False update j assms show ?thesis by (simp add: map_update_same apply_op_other)
  qed
qed (use assms in \<open>auto simp: map_update_same nth_list_update\<close>)

lemma conc_reach_sole:
  assumes "conc_reach s xs c" and "sole_writer xs i"
  shows "map thread_op (c_threads c) = xs \<and> c_data c (op_key (xs ! i)) =
      (if thread_acked (c_threads c ! i) then apply_op (xs ! i) (st_data s) (op_key (xs ! i))
       else st_data s (op_key (xs ! i)))"
  using assms(1)
proof (induction rule: conc_reach.induct)
  case init
  then show ?case using assms(2) by (simp add: conc_init_def sole_writer_def comp_def)
next
  case (step c c')
  then show ?case using conc_step_sole [OF step(2)] assms(2) by blast
qed

section \<open>Lemmas: recovery from any interleaving\<close>

lemma conc_recover:
  assumes "list_all rec_ok (rs @ map op_record xs)"
    and "content f = encode_all rs" and "synced f = length (content f)"
    and "Store_restart path f = Inr s" and "conc_reach s xs c"
  shows "\<exists>ord s''. distinct ord \<and> set ord \<subseteq> {..<length xs} \<and>
    (\<forall>i < length xs. thread_acked (c_threads c ! i) \<longrightarrow> i \<in> set ord) \<and>
    Store_restart path (crash_file (wal_file (c_log c)) n fl) = Inr s'' \<and>
    st_data s'' = fold apply_op (map ((!) xs) ord) (replay_all rs)"
proof -
  have "log_inv rs (length rs) (st_log s)"
    using Store_restart_clean [OF assms(4,2,3)] assms(1) by simp
  then obtain ord a where inv: "conc_inv rs xs ord a c"
    using conc_reach_inv [OF assms(5)] by blast
  let ?rs = "rs @ map (\<lambda>i. op_record (xs ! i)) ord"
  have sub: "set ord \<subseteq> {..<length xs}" using inv by (auto simp: conc_inv_def)
  then have "list_all rec_ok ?rs"
    using assms(1) by (fastforce simp: list_all_iff)
  moreover have "log_inv ?rs (length rs + a) (c_log c)" using inv by (simp add: conc_inv_def)
  ultimately obtain k where k: "length rs + a \<le> k" "k \<le> length ?rs"
    "Replay_loop (content (crash_file (wal_file (c_log c)) n fl)) = take k ?rs"
    using log_inv_crash by blast
  define ord' where "ord' = take (k - length rs) ord"
  have "take k ?rs = rs @ map op_record (map ((!) xs) ord')"
    using k(1) by (simp add: ord'_def take_map comp_def)
  then have "\<exists>s''. Store_restart path (crash_file (wal_file (c_log c)) n fl) = Inr s'' \<and>
      st_data s'' = fold apply_op (map ((!) xs) ord') (replay_all rs)"
    using k(3) by (simp add: Store_restart_eq replay_all_append del: map_map)
  moreover have "thread_acked t \<Longrightarrow> thread_durable t" for t
    by (cases t rule: thread_acked.cases) simp_all
  then have "i \<in> set ord'" if "i < length xs" "thread_acked (c_threads c ! i)" for i
  proof -
    have "i \<in> set (take a ord)"
      using that inv \<open>\<And>t. thread_acked t \<Longrightarrow> thread_durable t\<close> by (simp add: conc_inv_def)
    moreover have "set (take a ord) \<subseteq> set ord'"
      unfolding ord'_def using k(1) by (intro set_take_subset_set_take) simp
    ultimately show ?thesis by blast
  qed
  moreover have "distinct ord'" "set ord' \<subseteq> {..<length xs}"
    using inv sub set_take_subset [of _ ord] by (auto simp: ord'_def conc_inv_def)
  ultimately show ?thesis by blast
qed

text \<open>
  Two calls without failures: both append, both sync, and the maps are updated in the opposite
  order.
\<close>

lemma conc_two_calls:
  assumes "\<not> werr (wal_w (st_log s))" and "faults (st_file s) = []"
  shows "\<exists>c. conc_reach s [x, y] c \<and> c_threads c = [TDone x None, TDone y None] \<and>
    content (wal_file (c_log c)) =
      logical (wal_w (st_log s)) @ encode (op_record x) @ encode (op_record y) \<and>
    c_data c = apply_op x (apply_op y (st_data s))"
proof -
  define c0 where "c0 = conc_init s [x, y]"
  obtain w1 where w1: "WAL_Append (op_record x) (st_log s) = (None, w1)" "\<not> werr (wal_w w1)"
    "faults (wal_file w1) = []" "logical (wal_w w1) = logical (wal_w (st_log s)) @ encode (op_record x)"
    using WAL_Append_spec(5,7) assms by (metis prod.exhaust)
  obtain w2 where w2: "WAL_Append (op_record y) w1 = (None, w2)" "\<not> werr (wal_w w2)"
    "faults (wal_file w2) = []" "logical (wal_w w2) = logical (wal_w w1) @ encode (op_record y)"
    using WAL_Append_spec(5,7) w1(2,3) by (metis prod.exhaust)
  obtain w3 where w3: "WAL_Sync w2 = (None, w3)" "\<not> werr (wal_w w3)" "faults (wal_file w3) = []"
    "logical (wal_w w3) = logical (wal_w w2)"
    using WAL_Sync_any WAL_Sync_None w2(2,3) by (metis prod.exhaust)
  obtain w4 where w4: "WAL_Sync w3 = (None, w4)" "content (wal_file w4) = logical (wal_w w3)"
    using WAL_Sync_any WAL_Sync_None w3(2,3) by (metis prod.exhaust)
  have c0: "c_threads c0 = [TStart x, TStart y]" "c_log c0 = st_log s" "c_data c0 = st_data s"
    by (simp_all add: c0_def conc_init_def)
  define c1 where "c1 = c0\<lparr>c_log := w1, c_threads := [TAppended x, TStart y]\<rparr>"
  define c2 where "c2 = c1\<lparr>c_log := w2, c_threads := [TAppended x, TAppended y]\<rparr>"
  define c3 where "c3 = c2\<lparr>c_log := w3, c_threads := [TSynced x, TAppended y]\<rparr>"
  define c4 where "c4 = c3\<lparr>c_log := w4, c_threads := [TSynced x, TSynced y]\<rparr>"
  define c5 where "c5 = c4\<lparr>c_data := apply_op y (st_data s), c_threads := [TSynced x, TDone y None]\<rparr>"
  define c6 where "c6 = c5\<lparr>c_data := apply_op x (apply_op y (st_data s)),
    c_threads := [TDone x None, TDone y None]\<rparr>"
  have "conc_step c0 c1" "conc_step c1 c2" "conc_step c2 c3" "conc_step c3 c4" "conc_step c4 c5"
    "conc_step c5 c6"
    using conc_step.append_ok [of 0 c0 x w1] conc_step.append_ok [of 1 c1 y w2]
      conc_step.sync_ok [of 0 c2 x w3] conc_step.sync_ok [of 1 c3 y w4]
      conc_step.update [of 1 c4 y] conc_step.update [of 0 c5 x] w1(1) w2(1) w3(1) w4(1)
    by (simp_all add: c1_def c2_def c3_def c4_def c5_def c6_def c0)
  then have "conc_reach s [x, y] c6"
    using conc_reach.init [of s "[x, y]"] unfolding c0_def by (meson conc_reach.step)
  then show ?thesis
    using w1(4) w2(4) w3(4) w4(2)
    by (intro exI [of _ c6]) (simp add: c1_def c2_def c3_def c4_def c5_def c6_def c0)
qed

section \<open>Properties\<close>





text \<open>
  C22: Two concurrent puts to the same key can leave memory and log in disagreement: the calls
  append and sync in one order and update the map in the other, both return without an error,
  readers see the first value, and a restart brings back the second.
\<close>

theorem concurrent_same_key_diverges:
  assumes "list_all rec_ok rs" and "content f = encode_all rs" and "faults f = []"
    and "rec_ok (op_record (KPut k v1))" and "rec_ok (op_record (KPut k v2))"
    and "Store_restart path f = Inr s"
  shows "\<exists>c s''. conc_reach s [KPut k v1, KPut k v2] c \<and> list_all thread_acked (c_threads c) \<and>
    c_data c k = Some v1 \<and>
    Store_restart path (wal_file (c_log c)) = Inr s'' \<and> st_data s'' k = Some v2"
proof -
  let ?x = "KPut k v1" and ?y = "KPut k v2"
  have w: "wal_w (st_log s) = NewWriter f" using assms(6) by (auto simp: Store_restart_eq)
  obtain c where c: "conc_reach s [?x, ?y] c" "c_threads c = [TDone ?x None, TDone ?y None]"
    "content (wal_file (c_log c)) =
       logical (wal_w (st_log s)) @ encode (op_record ?x) @ encode (op_record ?y)"
    "c_data c = apply_op ?x (apply_op ?y (st_data s))"
    using conc_two_calls [of s ?x ?y] assms(3) w by auto
  have "content (wal_file (c_log c)) = encode_all (rs @ map op_record [?x, ?y])"
    using c(3) w assms(2) by simp
  moreover have "list_all rec_ok (rs @ map op_record [?x, ?y])" using assms by simp
  ultimately have "Replay_loop (content (wal_file (c_log c))) = rs @ map op_record [?x, ?y]"
    using Replay_loop_encode_all [of "rs @ map op_record [?x, ?y]" "[]"] by simp
  then have "\<exists>s''. Store_restart path (wal_file (c_log c)) = Inr s'' \<and> st_data s'' k = Some v2"
    by (simp add: Store_restart_eq replay_all_append del: list.map)
  with c show ?thesis by auto
qed

theorem concurrent_same_key_diverges_witness:
  "\<exists>s c s''. Store_restart [] \<lparr>content = [], synced = 0, faults = []\<rparr> = Inr s \<and>
    conc_reach s [KPut [1] [2], KPut [1] [3]] c \<and> c_data c [1] = Some [2] \<and>
    Store_restart [] (wal_file (c_log c)) = Inr s'' \<and> st_data s'' [1] = Some [3]"
proof -
  obtain s where s: "Store_restart [] \<lparr>content = [], synced = 0, faults = []\<rparr> = Inr s"
    by (simp add: Store_restart_eq)
  show ?thesis
    using concurrent_same_key_diverges [OF _ _ _ _ _ s, of "[]" "[1]" "[2]" "[3]"] s
    by (auto simp: rec_ok_def)
qed

end
