(* ===== verification/Linearcheck.thy ===== *)
theory Linearcheck
  imports KV_Prelude "HOL-Library.Multiset"
begin

text \<open>
  \<^verbatim>\<open>internal/linearcheck/linearcheck.go\<close>: the recorder of concurrent operations and the
  Wing-Gong search for a linearization. Times are numbers of nanoseconds; the clock reading at
  a call of \<^verbatim>\<open>time.Now\<close> is an argument.

  The specification is the definition of linearizability: some order of the operations is legal
  for a sequential map and never puts an operation after one that started only when it had
  already ended. \<open>check\<close> decides exactly that.
\<close>

section \<open>Definitions\<close>

definition OpPut :: byte where
  "OpPut = 0"

definition OpGet :: byte where
  "OpGet = 1"

definition OpDelete :: byte where
  "OpDelete = 2"

definition OpType_String :: "byte \<Rightarrow> bytes" where
  "OpType_String t =
     (if t = OpPut then str ''Put'' else if t = OpGet then str ''Get'' else str ''Del'')"

record Op =
  op_ID :: u64
  op_Type :: byte
  op_Key :: bytes
  op_Value :: bytes
  op_Found :: bool
  op_Start :: int
  op_End :: int

record Recorder =
  rc_ops :: "Op list"
  rc_seq :: u64

definition Recorder_Begin :: "int \<Rightarrow> Recorder \<Rightarrow> (u64 \<times> int) \<times> Recorder" where
  "Recorder_Begin now r = (let id = rc_seq r + 1 in ((id, now), r\<lparr>rc_seq := id\<rparr>))"

definition Recorder_RecordPut ::
    "int \<Rightarrow> u64 \<Rightarrow> int \<Rightarrow> bytes \<Rightarrow> bytes \<Rightarrow> Recorder \<Rightarrow> Recorder" where
  "Recorder_RecordPut now i start key value r =
     r\<lparr>rc_ops := rc_ops r @ [\<lparr>op_ID = i, op_Type = OpPut, op_Key = key, op_Value = value,
         op_Found = False, op_Start = start, op_End = now\<rparr>]\<rparr>"

definition Recorder_RecordGet ::
    "int \<Rightarrow> u64 \<Rightarrow> int \<Rightarrow> bytes \<Rightarrow> bytes \<Rightarrow> bool \<Rightarrow> Recorder \<Rightarrow> Recorder" where
  "Recorder_RecordGet now i start key value found r =
     r\<lparr>rc_ops := rc_ops r @ [\<lparr>op_ID = i, op_Type = OpGet, op_Key = key, op_Value = value,
         op_Found = found, op_Start = start, op_End = now\<rparr>]\<rparr>"

definition Recorder_RecordDelete :: "int \<Rightarrow> u64 \<Rightarrow> int \<Rightarrow> bytes \<Rightarrow> Recorder \<Rightarrow> Recorder" where
  "Recorder_RecordDelete now i start key r =
     r\<lparr>rc_ops := rc_ops r @ [\<lparr>op_ID = i, op_Type = OpDelete, op_Key = key, op_Value = [],
         op_Found = False, op_Start = start, op_End = now\<rparr>]\<rparr>"

definition Recorder_Ops :: "Recorder \<Rightarrow> Op list" where
  "Recorder_Ops r = rc_ops r"

text \<open>The reference state machine; \<^verbatim>\<open>clone\<close> is the identity on values.\<close>

type_synonym kvState = "bytes \<rightharpoonup> bytes"

definition newKVState :: kvState where
  "newKVState = Map.empty"

definition kvState_apply :: "kvState \<Rightarrow> Op \<Rightarrow> kvState option" where
  "kvState_apply s op =
     (if op_Type op = OpPut then Some (s(op_Key op \<mapsto> op_Value op))
      else if op_Type op = OpDelete then Some (s(op_Key op := None))
      else if op_Type op = OpGet then
        (case s (op_Key op) of
           None \<Rightarrow> (if op_Found op then None else Some s)
         | Some v \<Rightarrow>
             (if \<not> op_Found op then None else if v \<noteq> op_Value op then None else Some s))
      else None)"

text \<open>The earliest end of a nonempty list of operations, found as the loop does.\<close>

definition earliest_End :: "Op list \<Rightarrow> int" where
  "earliest_End ops =
     fold (\<lambda>op earliest. if op_End op < earliest then op_End op else earliest)
       (tl ops) (op_End (hd ops))"

text \<open>
  \<^verbatim>\<open>check\<close>: \<open>None\<close> is success, \<open>Some n\<close> the error with the number of operations left. The loop
  over the candidates stops at the first that leads to a linearization of the rest.
\<close>

function check :: "kvState \<Rightarrow> Op list \<Rightarrow> nat option" where
  "check state remaining =
     (if remaining = [] then None
      else
        (let earliest = earliest_End remaining
         in if list_ex (\<lambda>i.
                let op = remaining ! i
                in \<not> earliest < op_Start op \<and>
                   (case kvState_apply state op of
                      None \<Rightarrow> False
                    | Some nextState \<Rightarrow>
                        check nextState (take i remaining @ drop (Suc i) remaining) = None))
               [0..<length remaining]
            then None
            else Some (length remaining)))"
  by pat_completeness auto
termination
  by (relation "measure (\<lambda>(s, ops). length ops)") auto

declare check.simps [simp del]

definition Check :: "Op list \<Rightarrow> nat option" where
  "Check ops =
     (if ops = [] then None
      else case check newKVState ops of Some n \<Rightarrow> Some n | None \<Rightarrow> None)"

section \<open>Specification\<close>

fun legal :: "kvState \<Rightarrow> Op list \<Rightarrow> bool" where
  "legal s [] = True"
| "legal s (op # ops) =
     (case kvState_apply s op of None \<Rightarrow> False | Some s' \<Rightarrow> legal s' ops)"

text \<open>\<open>a\<close> may stand before \<open>b\<close> unless \<open>b\<close> had ended before \<open>a\<close> started.\<close>

definition real_time :: "Op list \<Rightarrow> bool" where
  "real_time ops = sorted_wrt (\<lambda>a b. \<not> op_End b < op_Start a) ops"

definition linearizable :: "kvState \<Rightarrow> Op list \<Rightarrow> bool" where
  "linearizable s ops \<longleftrightarrow> (\<exists>lin. mset lin = mset ops \<and> legal s lin \<and> real_time lin)"

definition times_ok :: "Op \<Rightarrow> bool" where
  "times_ok op \<longleftrightarrow> op_Start op \<le> op_End op"

section \<open>Lemmas\<close>

lemma fold_min_End:
  "fold (\<lambda>op e. if op_End op < e then op_End op else e) ops e \<le> e \<and>
   (\<forall>op \<in> set ops. fold (\<lambda>op e. if op_End op < e then op_End op else e) ops e \<le> op_End op) \<and>
   fold (\<lambda>op e. if op_End op < e then op_End op else e) ops e \<in> insert e (op_End ` set ops)"
proof (induction ops arbitrary: e)
  case (Cons op ops)
  show ?case using Cons [of "if op_End op < e then op_End op else e"] by (auto split: if_splits)
qed simp

lemma earliest_End_le: "op \<in> set ops \<Longrightarrow> earliest_End ops \<le> op_End op"
  using fold_min_End [of "tl ops" "op_End (hd ops)"]
  by (cases ops) (auto simp: earliest_End_def)

lemma earliest_End_in: "ops \<noteq> [] \<Longrightarrow> earliest_End ops \<in> op_End ` set ops"
  using fold_min_End [of "tl ops" "op_End (hd ops)"]
  by (cases ops) (auto simp: earliest_End_def)

lemma not_earliest_less_iff:
  "ops \<noteq> [] \<Longrightarrow> \<not> earliest_End ops < t \<longleftrightarrow> (\<forall>op \<in> set ops. t \<le> op_End op)"
  using earliest_End_le [of _ ops] earliest_End_in [of ops] by force

lemma mset_remove_nth: "i < length xs \<Longrightarrow> add_mset (xs ! i) (mset (take i xs @ drop (Suc i) xs)) = mset xs"
  by (metis id_take_nth_drop mset.simps(2) mset_append union_mset_add_mset_right)

lemma list_all_remove_nth: "list_all P xs \<Longrightarrow> list_all P (take i xs @ drop (Suc i) xs)"
  by (auto simp: list_all_iff dest: in_set_takeD in_set_dropD)

lemma check_unfold:
  assumes "remaining \<noteq> []"
  shows "check state remaining = None \<longleftrightarrow>
    (\<exists>i s'. i < length remaining \<and> (\<forall>op \<in> set remaining. op_Start (remaining ! i) \<le> op_End op) \<and>
       kvState_apply state (remaining ! i) = Some s' \<and>
       check s' (take i remaining @ drop (Suc i) remaining) = None)"
  using assms
  by (subst check.simps)
    (auto simp: list_ex_iff Let_def not_earliest_less_iff split: option.splits)

lemma check_sound: "check s ops = None \<Longrightarrow> linearizable s ops"
proof (induction "length ops" arbitrary: s ops)
  case 0
  then show ?case by (simp add: linearizable_def real_time_def)
next
  case (Suc n)
  then obtain i s' where i: "i < length ops" "\<forall>op \<in> set ops. op_Start (ops ! i) \<le> op_End op"
    "kvState_apply s (ops ! i) = Some s'" "check s' (take i ops @ drop (Suc i) ops) = None"
    using check_unfold [of ops s] by (metis list.size(3) nat.distinct(1))
  have "n = length (take i ops @ drop (Suc i) ops)" using Suc(2) i(1) by simp
  from Suc(1) [OF this i(4)] obtain lin where
    lin: "mset lin = mset (take i ops @ drop (Suc i) ops)" "legal s' lin" "real_time lin"
    unfolding linearizable_def by blast
  have "mset (ops ! i # lin) = mset ops" using mset_remove_nth [OF i(1)] lin(1) by simp
  moreover from this have "set lin \<subseteq> set ops" by (metis set_mset_mset set_subset_Cons)
  then have "real_time (ops ! i # lin)"
    using lin(3) i(2) by (auto simp: real_time_def not_less)
  ultimately show ?case
    using lin(2) i(3) unfolding linearizable_def by (intro exI [of _ "ops ! i # lin"]) simp
qed

lemma check_complete:
  assumes "list_all times_ok ops" and "linearizable s ops"
  shows "check s ops = None"
  using assms
proof (induction "length ops" arbitrary: s ops)
  case 0
  then show ?case by (subst check.simps) simp
next
  case (Suc n)
  then obtain lin where lin: "mset lin = mset ops" "legal s lin" "real_time lin"
    by (auto simp: linearizable_def)
  obtain x lin' where x: "lin = x # lin'" using lin(1) Suc(2) by (cases lin) auto
  obtain s' where s': "kvState_apply s x = Some s'" "legal s' lin'"
    using lin(2) x by (auto split: option.splits)
  have xin: "x \<in> set ops" using lin(1) x by (metis list.set_intros(1) set_mset_mset)
  then obtain i where i: "i < length ops" "ops ! i = x" by (auto simp: in_set_conv_nth)
  have "mset lin' = mset (take i ops @ drop (Suc i) ops)"
    using mset_remove_nth [OF i(1)] lin(1) x i(2) by (metis add_mset_add_mset_same_iff mset.simps(2))
  then have "linearizable s' (take i ops @ drop (Suc i) ops)"
    using s'(2) lin(3) x unfolding linearizable_def real_time_def by auto
  then have rest: "check s' (take i ops @ drop (Suc i) ops) = None"
    using Suc i(1) by (intro Suc(1)) (simp_all add: list_all_remove_nth del: list_all_append)
  have "op_Start x \<le> op_End op" if "op \<in> set ops" for op
  proof -
    have "op \<in> set lin" using that lin(1) by (metis set_mset_mset)
    then show ?thesis
      using lin(3) x xin Suc(3) by (auto simp: real_time_def list_all_iff times_ok_def not_less)
  qed
  moreover have "ops \<noteq> []" using i(1) by auto
  ultimately show ?case using i s'(1) rest by (subst check_unfold) blast+
qed

text \<open>
  A history recorded through the \<^verbatim>\<open>Record\<close> calls, each completed no earlier than it started,
  meets the precondition of the checker.
\<close>

lemma Recorder_times_ok:
  assumes "list_all times_ok (Recorder_Ops r)" and "start \<le> now"
  shows "list_all times_ok (Recorder_Ops (Recorder_RecordPut now i start k v r))"
    and "list_all times_ok (Recorder_Ops (Recorder_RecordGet now i start k v fd r))"
    and "list_all times_ok (Recorder_Ops (Recorder_RecordDelete now i start k r))"
  using assms
  by (auto simp: Recorder_Ops_def Recorder_RecordPut_def Recorder_RecordGet_def
      Recorder_RecordDelete_def times_ok_def)

section \<open>Properties\<close>



end
