(* ===== verification/LSM.thy ===== *)
theory LSM
  imports Go_IO "HOL-Library.AList"
begin

text \<open>
  \<^verbatim>\<open>internal/lsm/lsm.go\<close>: the memtable, the sorted tables on disk and the engine that flushes
  and compacts them. The engine runs under its own lock, so its operations are atomic.

  A Go map whose entries are later listed is an association list with distinct keys. Its order
  stands for Go's unspecified iteration order; both places that iterate sort the result, and
  \<open>sort_key_map_of\<close> shows that the order does not matter. Tables live in a file system with
  scripted failures, so a statement for all engines covers every failure of create, write, sync,
  open and remove.
\<close>

section \<open>MemTable\<close>

definition memTableSizeLimit :: nat where
  "memTableSizeLimit = 4 * 1024 * 1024"

definition maxL0Tables :: nat where
  "maxL0Tables = 4"

definition tombstone :: bytes where
  "tombstone = 0 # str ''tombstone''"

type_synonym entry = "bytes \<times> bytes"

record MemTable =
  mt_data :: "entry list"
  mt_size :: nat

definition newMemTable :: MemTable where
  "newMemTable = \<lparr>mt_data = [], mt_size = 0\<rparr>"

definition MemTable_put :: "bytes \<Rightarrow> bytes \<Rightarrow> MemTable \<Rightarrow> MemTable" where
  "MemTable_put key value m =
     m\<lparr>mt_size := mt_size m + (length key + length value), mt_data := AList.update key value (mt_data m)\<rparr>"

definition MemTable_delete :: "bytes \<Rightarrow> MemTable \<Rightarrow> MemTable" where
  "MemTable_delete key m =
     m\<lparr>mt_size := mt_size m + (length key + length tombstone),
       mt_data := AList.update key tombstone (mt_data m)\<rparr>"

definition MemTable_get :: "bytes \<Rightarrow> MemTable \<Rightarrow> bytes option" where
  "MemTable_get key m =
     (case map_of (mt_data m) key of
        None \<Rightarrow> None
      | Some v \<Rightarrow> (if v = tombstone then None else Some v))"

definition MemTable_bytesUsed :: "MemTable \<Rightarrow> nat" where
  "MemTable_bytesUsed m = mt_size m"

definition MemTable_sorted :: "MemTable \<Rightarrow> entry list" where
  "MemTable_sorted m = sort_key fst (mt_data m)"

section \<open>SSTable\<close>

record SSTable =
  sst_path :: bytes
  sst_minKey :: bytes
  sst_maxKey :: bytes

definition writeEntry :: "entry \<Rightarrow> bwriter \<Rightarrow> bool \<times> bwriter" where
  "writeEntry e w =
     (case e of (key, val) \<Rightarrow>
        (let hdr = PutUint32 (word_of_nat (length key)) @ PutUint32 (word_of_nat (length val))
         in case bufio_Write hdr w of
              (ok, w) \<Rightarrow>
                (if \<not> ok then (False, w)
                 else case bufio_Write key w of
                   (ok, w) \<Rightarrow> (if \<not> ok then (False, w) else bufio_Write val w))))"

fun writeEntries :: "entry list \<Rightarrow> bwriter \<Rightarrow> bool \<times> bwriter" where
  "writeEntries [] w = (True, w)"
| "writeEntries (e # es) w =
     (case writeEntry e w of (ok, w) \<Rightarrow> (if \<not> ok then (False, w) else writeEntries es w))"

text \<open>\<open>None\<close> is an error of create, write, flush or sync.\<close>

definition flushToSSTable :: "bytes \<Rightarrow> entry list \<Rightarrow> fsys \<Rightarrow> SSTable option \<times> fsys" where
  "flushToSSTable path entries fs =
     (case os_Create path fs of
        (None, fs) \<Rightarrow> (None, fs)
      | (Some f, fs) \<Rightarrow>
          (case writeEntries entries (NewWriter f) of
             (ok, w) \<Rightarrow>
               (if \<not> ok then (None, fs_store path (dst w) fs)
                else case bufio_Flush w of
                  (ok, w) \<Rightarrow>
                    (if \<not> ok then (None, fs_store path (dst w) fs)
                     else case File_Sync (dst w) of
                       (ok, f) \<Rightarrow>
                         (if \<not> ok then (None, fs_store path f fs)
                          else
                            (Some (if entries \<noteq> []
                                   then \<lparr>sst_path = path, sst_minKey = fst (hd entries),
                                         sst_maxKey = fst (last entries)\<rparr>
                                   else \<lparr>sst_path = path, sst_minKey = [], sst_maxKey = []\<rparr>),
                             fs_store path f fs))))))"

text \<open>The scan of \<^verbatim>\<open>get\<close>: an error, or the value unless the key is missing or deleted.\<close>

function sst_scan :: "bytes \<Rightarrow> bytes \<Rightarrow> io_error + bytes option" where
  "sst_scan key r =
     (case ReadFull 8 r of
        (Inl e, _) \<Rightarrow> (if e = EOF then Inr None else Inl e)
      | (Inr hdr, r1) \<Rightarrow>
          (case ReadFull (unat (Uint32 (take 4 hdr))) r1 of
             (Inl e, _) \<Rightarrow> Inl e
           | (Inr k, r2) \<Rightarrow>
               (case ReadFull (unat (Uint32 (drop 4 hdr))) r2 of
                  (Inl e, _) \<Rightarrow> Inl e
                | (Inr v, r3) \<Rightarrow>
                    (if k = key then (if v = tombstone then Inr None else Inr (Some v))
                     else sst_scan key r3))))"
  by pat_completeness auto
termination
  by (relation "measure (\<lambda>(key, r). length r)") (auto dest!: ReadFull_Inr [OF sym])

declare sst_scan.simps [simp del]

definition SSTable_get :: "bytes \<Rightarrow> fsys \<Rightarrow> SSTable \<Rightarrow> io_error + bytes option" where
  "SSTable_get key fs sst =
     (if sst_minKey sst \<noteq> [] \<and> (key < sst_minKey sst \<or> sst_maxKey sst < key) then Inr None
      else case os_Open (sst_path sst) fs of
        Opened bs \<Rightarrow> sst_scan key bs
      | _ \<Rightarrow> Inl ErrIO)"

text \<open>
  \<^verbatim>\<open>readAll\<close> ignores the errors of the two inner reads: a buffer that was not filled keeps its
  zero bytes.
\<close>

definition read_lossy :: "nat \<Rightarrow> bytes \<Rightarrow> bytes \<times> bytes" where
  "read_lossy n r = (take n r @ replicate (n - length r) 0, drop n r)"

function sst_readAll_loop :: "bytes \<Rightarrow> io_error + entry list" where
  "sst_readAll_loop r =
     (case ReadFull 8 r of
        (Inl e, _) \<Rightarrow> (if e = EOF then Inr [] else Inl e)
      | (Inr hdr, r1) \<Rightarrow>
          (case read_lossy (unat (Uint32 (take 4 hdr))) r1 of
             (k, r2) \<Rightarrow>
               (case read_lossy (unat (Uint32 (drop 4 hdr))) r2 of
                  (v, r3) \<Rightarrow>
                    (case sst_readAll_loop r3 of
                       Inl e \<Rightarrow> Inl e
                     | Inr es \<Rightarrow> Inr ((k, v) # es)))))"
  by pat_completeness auto
termination
  by (relation "measure length") (auto simp: read_lossy_def dest!: ReadFull_Inr [OF sym])

declare sst_readAll_loop.simps [simp del]

definition SSTable_readAll :: "fsys \<Rightarrow> SSTable \<Rightarrow> io_error + entry list" where
  "SSTable_readAll fs sst =
     (case os_Open (sst_path sst) fs of Opened bs \<Rightarrow> sst_readAll_loop bs | _ \<Rightarrow> Inl ErrIO)"

section \<open>Engine\<close>

record Engine =
  en_dir :: bytes
  en_memtable :: MemTable
  en_l0 :: "SSTable list"
  en_l1 :: "SSTable list"
  en_nextID :: nat
  en_fs :: fsys

datatype lsm_error = ErrMkdir | ErrFlushTable | ErrCompactReadL1 | ErrCompactReadL0 | ErrCompactWriteL1

text \<open>\<open>mkdir_ok\<close>: whether \<^verbatim>\<open>os.MkdirAll\<close> succeeded.\<close>

definition Engine_Open :: "bytes \<Rightarrow> bool \<Rightarrow> fsys \<Rightarrow> lsm_error + Engine" where
  "Engine_Open dir mkdir_ok fs =
     (if \<not> mkdir_ok then Inl ErrMkdir
      else Inr \<lparr>en_dir = dir, en_memtable = newMemTable, en_l0 = [], en_l1 = [], en_nextID = 0,
                en_fs = fs\<rparr>)"

text \<open>\<^verbatim>\<open>filepath.Join\<close> of a directory in cleaned form and a file name.\<close>

definition path_join :: "bytes \<Rightarrow> bytes \<Rightarrow> bytes" where
  "path_join dir name = (if dir = [] then name else dir @ [47] @ name)"

definition l0_path :: "bytes \<Rightarrow> nat \<Rightarrow> bytes" where
  "l0_path dir n = path_join dir (str ''l0-'' @ fmt_06d n @ str ''.sst'')"

definition l1_path :: "bytes \<Rightarrow> nat \<Rightarrow> bytes" where
  "l1_path dir n = path_join dir (str ''l1-'' @ fmt_06d n @ str ''.sst'')"

text \<open>The merge loops of \<^verbatim>\<open>compact\<close>; the flag of a read error.\<close>

definition merge_entries :: "entry list \<Rightarrow> entry list \<Rightarrow> entry list" where
  "merge_entries es m = fold (\<lambda>(k, v) m. AList.update k v m) es m"

fun merge_tables :: "fsys \<Rightarrow> SSTable list \<Rightarrow> entry list \<Rightarrow> entry list option" where
  "merge_tables fs [] m = Some m"
| "merge_tables fs (sst # ssts) m =
     (case SSTable_readAll fs sst of
        Inl e \<Rightarrow> None
      | Inr es \<Rightarrow> merge_tables fs ssts (merge_entries es m))"

definition remove_tables :: "SSTable list \<Rightarrow> fsys \<Rightarrow> fsys" where
  "remove_tables ssts fs = fold (\<lambda>sst fs. snd (os_Remove (sst_path sst) fs)) ssts fs"

definition compact :: "Engine \<Rightarrow> lsm_error option \<times> Engine" where
  "compact e =
     (case merge_tables (en_fs e) (en_l1 e) [] of
        None \<Rightarrow> (Some ErrCompactReadL1, e)
      | Some m1 \<Rightarrow>
          (case merge_tables (en_fs e) (en_l0 e) m1 of
             None \<Rightarrow> (Some ErrCompactReadL0, e)
           | Some merged \<Rightarrow>
               (let entries = sort_key fst (filter (\<lambda>(k, v). v \<noteq> tombstone) merged);
                    finish = (\<lambda>newL1 e.
                      (None, e\<lparr>en_fs := remove_tables (en_l1 e) (remove_tables (en_l0 e) (en_fs e)),
                               en_l0 := [], en_l1 := newL1\<rparr>))
                in if entries \<noteq> [] then
                     (let e = e\<lparr>en_nextID := en_nextID e + 1\<rparr>
                      in case flushToSSTable (l1_path (en_dir e) (en_nextID e)) entries (en_fs e) of
                           (None, fs) \<Rightarrow> (Some ErrCompactWriteL1, e\<lparr>en_fs := fs\<rparr>)
                         | (Some sst, fs) \<Rightarrow> finish [sst] (e\<lparr>en_fs := fs\<rparr>))
                   else finish [] e)))"

definition flush_memtable :: "Engine \<Rightarrow> lsm_error option \<times> Engine" where
  "flush_memtable e =
     (let entries = MemTable_sorted (en_memtable e);
          e = e\<lparr>en_nextID := en_nextID e + 1\<rparr>
      in case flushToSSTable (l0_path (en_dir e) (en_nextID e)) entries (en_fs e) of
           (None, fs) \<Rightarrow> (Some ErrFlushTable, e\<lparr>en_fs := fs\<rparr>)
         | (Some sst, fs) \<Rightarrow>
             (None, e\<lparr>en_fs := fs, en_l0 := en_l0 e @ [sst], en_memtable := newMemTable\<rparr>))"

definition maybeFlush :: "Engine \<Rightarrow> lsm_error option \<times> Engine" where
  "maybeFlush e =
     (if MemTable_bytesUsed (en_memtable e) < memTableSizeLimit then (None, e)
      else case flush_memtable e of
        (Some err, e) \<Rightarrow> (Some err, e)
      | (None, e) \<Rightarrow> (if length (en_l0 e) \<ge> maxL0Tables then compact e else (None, e)))"

definition Engine_Put :: "bytes \<Rightarrow> bytes \<Rightarrow> Engine \<Rightarrow> lsm_error option \<times> Engine" where
  "Engine_Put key value e =
     maybeFlush (e\<lparr>en_memtable := MemTable_put key value (en_memtable e)\<rparr>)"

definition Engine_Delete :: "bytes \<Rightarrow> Engine \<Rightarrow> lsm_error option \<times> Engine" where
  "Engine_Delete key e =
     maybeFlush (e\<lparr>en_memtable := MemTable_delete key (en_memtable e)\<rparr>)"

definition Engine_Flush :: "Engine \<Rightarrow> lsm_error option \<times> Engine" where
  "Engine_Flush e =
     (if MemTable_bytesUsed (en_memtable e) = 0 then (None, e) else flush_memtable e)"

text \<open>The two search loops of \<^verbatim>\<open>Get\<close>: the first table that yields a value without an error.\<close>

fun search_tables :: "bytes \<Rightarrow> fsys \<Rightarrow> SSTable list \<Rightarrow> bytes option" where
  "search_tables k fs [] = None"
| "search_tables k fs (sst # ssts) =
     (case SSTable_get k fs sst of
        Inr (Some v) \<Rightarrow> Some v
      | _ \<Rightarrow> search_tables k fs ssts)"

definition Engine_Get :: "bytes \<Rightarrow> Engine \<Rightarrow> bytes option" where
  "Engine_Get k e =
     (case map_of (mt_data (en_memtable e)) k of
        Some raw \<Rightarrow> (if raw = tombstone then None else Some raw)
      | None \<Rightarrow>
          (case search_tables k (en_fs e) (rev (en_l0 e)) of
             Some v \<Rightarrow> Some v
           | None \<Rightarrow> search_tables k (en_fs e) (en_l1 e)))"

text \<open>\<^verbatim>\<open>memtable_bytes\<close>, \<^verbatim>\<open>l0_files\<close>, \<^verbatim>\<open>l1_files\<close>.\<close>

definition Engine_Stats :: "Engine \<Rightarrow> nat \<times> nat \<times> nat" where
  "Engine_Stats e =
     (MemTable_bytesUsed (en_memtable e), length (en_l0 e), length (en_l1 e))"

end
