(* ===== verification/LSM_Correct.thy ===== *)
theory LSM_Correct
  imports LSM "HOL-Library.Multiset"
begin

text \<open>
  Correctness of the storage engine of \<^theory_text>\<open>LSM\<close>: the table format round trip, the invariant
  of the engine (tables on disk hold exactly their sorted entries, under paths that are never
  reused), the map an engine stands for, and that every operation refines an operation on that
  map whatever failures the disk has. The last section has the properties.
\<close>

section \<open>Specification\<close>

text \<open>What a stored value means to a reader.\<close>

definition live :: "bytes option \<Rightarrow> bytes option" where
  "live x = (case x of None \<Rightarrow> None | Some v \<Rightarrow> (if v = tombstone then None else Some v))"

definition entry_bytes :: "entry \<Rightarrow> bytes" where
  "entry_bytes e =
     PutUint32 (word_of_nat (length (fst e))) @ PutUint32 (word_of_nat (length (snd e))) @ fst e @ snd e"

definition table_bytes :: "entry list \<Rightarrow> bytes" where
  "table_bytes es = concat (map entry_bytes es)"

definition entry_ok :: "entry \<Rightarrow> bool" where
  "entry_ok e \<longleftrightarrow> length (fst e) < 2 ^ 32 \<and> length (snd e) < 2 ^ 32"

definition entries_ok :: "entry list \<Rightarrow> bool" where
  "entries_ok es \<longleftrightarrow> (\<forall>e \<in> set es. entry_ok e) \<and> sorted (map fst es) \<and> distinct (map fst es)"

definition table_of :: "bytes \<Rightarrow> entry list \<Rightarrow> SSTable" where
  "table_of path es =
     (if es \<noteq> [] then \<lparr>sst_path = path, sst_minKey = fst (hd es), sst_maxKey = fst (last es)\<rparr>
      else \<lparr>sst_path = path, sst_minKey = [], sst_maxKey = []\<rparr>)"

definition table_ok :: "fsys \<Rightarrow> SSTable \<Rightarrow> bool" where
  "table_ok fs sst \<longleftrightarrow>
     (\<exists>es. entries_ok es \<and> fs_files fs (sst_path sst) = Some (table_bytes es) \<and>
           sst = table_of (sst_path sst) es)"

definition table_entries :: "fsys \<Rightarrow> SSTable \<Rightarrow> entry list" where
  "table_entries fs sst =
     (case fs_files fs (sst_path sst) of
        None \<Rightarrow> []
      | Some bs \<Rightarrow> (case sst_readAll_loop bs of Inl _ \<Rightarrow> [] | Inr es \<Rightarrow> es))"

text \<open>The map a list of tables stands for, oldest first: newer entries override older ones.\<close>

definition level_map :: "fsys \<Rightarrow> SSTable list \<Rightarrow> (bytes \<rightharpoonup> bytes)" where
  "level_map fs ssts = fold (\<lambda>sst m. m ++ map_of (table_entries fs sst)) ssts Map.empty"

definition engine_raw :: "Engine \<Rightarrow> (bytes \<rightharpoonup> bytes)" where
  "engine_raw e = level_map (en_fs e) (en_l1 e @ en_l0 e) ++ map_of (mt_data (en_memtable e))"

definition engine_abs :: "Engine \<Rightarrow> (bytes \<rightharpoonup> bytes)" where
  "engine_abs e = (\<lambda>k. live (engine_raw e k))"

definition mem_ok :: "MemTable \<Rightarrow> bool" where
  "mem_ok m \<longleftrightarrow> distinct (map fst (mt_data m)) \<and> (\<forall>e \<in> set (mt_data m). entry_ok e)"

definition path_old :: "Engine \<Rightarrow> bytes \<Rightarrow> bool" where
  "path_old e p \<longleftrightarrow> (\<exists>n \<le> en_nextID e. p = l0_path (en_dir e) n \<or> p = l1_path (en_dir e) n)"

definition l1_ok :: "Engine \<Rightarrow> bool" where
  "l1_ok e \<longleftrightarrow>
     length (en_l1 e) \<le> 1 \<and>
     (\<forall>sst \<in> set (en_l1 e). \<forall>k. map_of (table_entries (en_fs e) sst) k \<noteq> Some tombstone)"

definition engine_inv :: "Engine \<Rightarrow> bool" where
  "engine_inv e \<longleftrightarrow>
     mem_ok (en_memtable e) \<and> l1_ok e \<and>
     (\<forall>sst \<in> set (en_l1 e @ en_l0 e). table_ok (en_fs e) sst \<and> path_old e (sst_path sst))"

section \<open>Lemmas: order of map iteration\<close>

text \<open>Whatever order Go iterates a map in, sorting by key gives the same list.\<close>

lemma sort_key_map_of:
  fixes xs ys :: "entry list"
  assumes "distinct (map fst xs)" and "distinct (map fst ys)" and "map_of xs = map_of ys"
  shows "sort_key fst xs = sort_key fst ys"
proof -
  have "set xs = set ys" using assms by (metis map_of_inject_set)
  then have "mset xs = mset ys"
    using assms(1,2) by (metis distinct_map set_eq_iff_mset_eq_distinct)
  moreover have "inj_on fst (set xs)" using assms(1) by (simp add: distinct_map)
  ultimately show ?thesis
    by (intro sort_key_inj_key_eq) simp_all
qed

lemma entries_ok_sort:
  assumes "distinct (map fst xs)" and "\<forall>e \<in> set xs. entry_ok e"
  shows "entries_ok (sort_key fst xs)" and "map_of (sort_key fst xs) = map_of xs"
proof -
  have m: "mset (map fst (sort_key fst xs)) = mset (map fst xs)" by simp
  then have d: "distinct (map fst (sort_key fst xs))"
    using assms(1) by (metis mset_eq_imp_distinct_iff)
  then show "entries_ok (sort_key fst xs)"
    using assms(2) by (simp add: entries_ok_def)
  show "map_of (sort_key fst xs) = map_of xs"
    using d assms(1) by (metis map_of_inject_set set_sort)
qed

section \<open>Lemmas: the table format\<close>

lemma table_bytes_simps [simp]:
  "table_bytes [] = []" "table_bytes (e # es) = entry_bytes e @ table_bytes es"
  by (simp_all add: table_bytes_def)

lemma unat_len32: "n < 2 ^ 32 \<Longrightarrow> unat (word_of_nat n :: u32) = n"
  by (simp add: unat_of_nat take_bit_nat_eq_self)

lemma entry_header:
  "ReadFull 8 (entry_bytes (k, v) @ r) =
     (Inr (PutUint32 (word_of_nat (length k)) @ PutUint32 (word_of_nat (length v))), k @ v @ r)"
proof -
  let ?h = "PutUint32 (word_of_nat (length k)) @ PutUint32 (word_of_nat (length v))"
  have "length ?h = 8" by (simp add: wire_len)
  then show ?thesis
    using ReadFull_append [of ?h 8 "k @ v @ r"] by (simp add: entry_bytes_def)
qed

lemma ReadFull_Nil8: "ReadFull 8 [] = (Inl EOF, [])"
  by (simp add: ReadFull_def)

lemma hdr_fields [simp]:
  "take 4 (PutUint32 a @ PutUint32 b) = PutUint32 a" "drop 4 (PutUint32 a @ PutUint32 b) = PutUint32 b"
  by (simp_all add: PutUint32_def)

lemma sst_scan_table:
  assumes "\<forall>e \<in> set es. entry_ok e"
  shows "sst_scan key (table_bytes es) = Inr (live (map_of es key))"
  using assms
proof (induction es)
  case Nil
  then show ?case by (simp add: sst_scan.simps [of key "[]"] ReadFull_Nil8 live_def)
next
  case (Cons e es)
  obtain k v where e: "e = (k, v)" by (cases e)
  have len: "length k < 2 ^ 32" "length v < 2 ^ 32" using Cons.prems e by (simp_all add: entry_ok_def)
  show ?case
    using Cons e len
    by (simp add: sst_scan.simps [of key "entry_bytes (k, v) @ table_bytes es"] entry_header
        unat_len32 ReadFull_append live_def)
qed

lemma readAll_table:
  assumes "\<forall>e \<in> set es. entry_ok e"
  shows "sst_readAll_loop (table_bytes es) = Inr es"
  using assms
proof (induction es)
  case Nil
  then show ?case by (simp add: sst_readAll_loop.simps [of "[]"] ReadFull_Nil8)
next
  case (Cons e es)
  obtain k v where e: "e = (k, v)" by (cases e)
  have len: "length k < 2 ^ 32" "length v < 2 ^ 32" using Cons.prems e by (simp_all add: entry_ok_def)
  show ?case
    using Cons e len
    by (simp add: sst_readAll_loop.simps [of "entry_bytes (k, v) @ table_bytes es"] entry_header
        unat_len32 read_lossy_def)
qed

section \<open>Lemmas: writing a table\<close>

lemma writeEntry_spec:
  assumes "writeEntry e w = (ok, w')"
  shows "ok \<Longrightarrow> \<not> werr w \<and> \<not> werr w' \<and> logical w' = logical w @ entry_bytes e"
    and "\<not> werr w \<Longrightarrow> faults (dst w) = [] \<Longrightarrow> ok \<and> faults (dst w') = []"
proof -
  obtain k v where e: "e = (k, v)" by (cases e)
  let ?h = "PutUint32 (word_of_nat (length k)) @ PutUint32 (word_of_nat (length v))"
  obtain o1 w1 where 1: "bufio_Write ?h w = (o1, w1)" by (metis prod.exhaust)
  obtain o2 w2 where 2: "bufio_Write k w1 = (o2, w2)" by (metis prod.exhaust)
  obtain o3 w3 where 3: "bufio_Write v w2 = (o3, w3)" by (metis prod.exhaust)
  note spec = bufio_Write_spec [OF 1] bufio_Write_spec [OF 2] bufio_Write_spec [OF 3]
  have run: "(ok, w') = (if \<not> o1 then (False, w1) else if \<not> o2 then (False, w2) else (o3, w3))"
    using assms e 1 2 3 by (cases o1; cases o2) (simp_all add: writeEntry_def Let_def)
  show "ok \<Longrightarrow> \<not> werr w \<and> \<not> werr w' \<and> logical w' = logical w @ entry_bytes e"
    using run spec e by (auto simp: entry_bytes_def split: if_splits)
  show "\<not> werr w \<Longrightarrow> faults (dst w) = [] \<Longrightarrow> ok \<and> faults (dst w') = []"
    using run spec by (auto split: if_splits)
qed

lemma writeEntries_spec:
  assumes "writeEntries es w = (ok, w')"
  shows "ok \<Longrightarrow> \<not> werr w \<Longrightarrow> \<not> werr w' \<and> logical w' = logical w @ table_bytes es"
    and "\<not> werr w \<Longrightarrow> faults (dst w) = [] \<Longrightarrow> ok \<and> faults (dst w') = []"
proof -
  have "(ok \<longrightarrow> \<not> werr w \<longrightarrow> \<not> werr w' \<and> logical w' = logical w @ table_bytes es) \<and>
        (\<not> werr w \<longrightarrow> faults (dst w) = [] \<longrightarrow> ok \<and> faults (dst w') = [])"
    using assms
  proof (induction es arbitrary: w)
    case (Cons e es)
    obtain o1 w1 where 1: "writeEntry e w = (o1, w1)" by (metis prod.exhaust)
    show ?case
      using Cons.prems Cons.IH [of w1] 1 writeEntry_spec [OF 1] by (auto split: if_splits)
  qed simp
  then show "ok \<Longrightarrow> \<not> werr w \<Longrightarrow> \<not> werr w' \<and> logical w' = logical w @ table_bytes es"
    and "\<not> werr w \<Longrightarrow> faults (dst w) = [] \<Longrightarrow> ok \<and> faults (dst w') = []" by blast+
qed

text \<open>
  Writing a table either produces the table with exactly the bytes of its entries, or fails; in
  both cases no other path changes.
\<close>

lemma flushToSSTable_spec:
  assumes "flushToSSTable path es fs = (r, fs')"
  shows "\<And>p. p \<noteq> path \<Longrightarrow> fs_files fs' p = fs_files fs p"
    and "fs_unreadable fs' = fs_unreadable fs"
    and "\<And>sst. r = Some sst \<Longrightarrow> sst = table_of path es \<and> fs_files fs' path = Some (table_bytes es)"
    and "fs_faults fs = [] \<Longrightarrow> r \<noteq> None \<and> fs_faults fs' = []"
proof -
  obtain ok0 fs0 where 0: "fs_pop fs = (ok0, fs0)" by (metis prod.exhaust)
  note p0 = fs_pop_cases [OF 0]
  let ?f = "\<lparr>content = [], synced = 0, faults = fs_faults fs0\<rparr>"
  let ?fs = "fs0\<lparr>fs_files := (fs_files fs0)(path \<mapsto> [])\<rparr>"
  obtain o1 w1 where 1: "writeEntries es (NewWriter ?f) = (o1, w1)" by (metis prod.exhaust)
  obtain o2 w2 where 2: "bufio_Flush w1 = (o2, w2)" by (metis prod.exhaust)
  obtain o3 f3 where 3: "File_Sync (dst w2) = (o3, f3)" by (metis prod.exhaust)
  have run: "(r, fs') =
      (if \<not> ok0 then (None, fs0) else if \<not> o1 then (None, fs_store path (dst w1) ?fs)
       else if \<not> o2 then (None, fs_store path (dst w2) ?fs)
       else if \<not> o3 then (None, fs_store path f3 ?fs)
       else (Some (table_of path es), fs_store path f3 ?fs))"
    using assms 0 1 2 3
    by (cases ok0; cases o1; cases o2; cases o3)
      (simp_all add: flushToSSTable_def os_Create_def table_of_def)
  note s1 = writeEntries_spec [OF 1] and s2 = bufio_Flush_cases [OF 2] and s3 = File_Sync_cases [OF 3]
  show "\<And>p. p \<noteq> path \<Longrightarrow> fs_files fs' p = fs_files fs p" "fs_unreadable fs' = fs_unreadable fs"
    using run p0 by (auto split: if_splits)
  have all: "r = Some sst \<Longrightarrow> ok0 \<and> o1 \<and> o2 \<and> o3 \<and> sst = table_of path es \<and> fs' = fs_store path f3 ?fs"
    for sst
    using run by (auto split: if_splits)
  show "r = Some sst \<Longrightarrow> sst = table_of path es \<and> fs_files fs' path = Some (table_bytes es)" for sst
    using all [of sst] s1(1) s2(4) s3(1) by simp
  show "r \<noteq> None \<and> fs_faults fs' = []" if "fs_faults fs = []"
  proof -
    have a: "ok0" "fs0 = fs" using p0(3) that by simp_all
    have b: "o1" "faults (dst w1) = []" using s1(2) a that by simp_all
    have c: "o2" "faults (dst w2) = []" using s1(1) b s2(7) by simp_all
    show ?thesis using run a b c s3(4) by simp
  qed
qed

section \<open>Lemmas: reading a table\<close>

lemma table_of_path [simp]: "sst_path (table_of p es) = p"
  by (simp add: table_of_def)

lemma table_okE:
  assumes "table_ok fs sst"
  obtains es where "entries_ok es" "fs_files fs (sst_path sst) = Some (table_bytes es)"
    "sst = table_of (sst_path sst) es" "table_entries fs sst = es"
  using assms by (auto simp: table_ok_def table_entries_def entries_ok_def readAll_table)

lemma table_ok_cong:
  assumes "fs_files fs' (sst_path sst) = fs_files fs (sst_path sst)"
  shows "table_ok fs' sst = table_ok fs sst" and "table_entries fs' sst = table_entries fs sst"
  using assms by (simp_all add: table_ok_def table_entries_def)

lemma table_ok_entries:
  "table_ok fs sst \<Longrightarrow> entries_ok (table_entries fs sst)"
  by (metis table_okE)

lemma table_ok_written:
  assumes "entries_ok es" and "fs_files fs p = Some (table_bytes es)"
  shows "table_ok fs (table_of p es)" and "table_entries fs (table_of p es) = es"
  using assms by (auto simp: table_ok_def table_entries_def entries_ok_def readAll_table)

lemma key_outside_range:
  assumes "sorted (map fst es)" and "es \<noteq> []" and "key < fst (hd es) \<or> fst (last es) < key"
  shows "map_of es key = None"
proof -
  have "\<forall>i < length es. fst (es ! 0) \<le> fst (es ! i) \<and> fst (es ! i) \<le> fst (es ! (length es - 1))"
    using assms(1,2) by (auto simp: sorted_iff_nth_mono)
  then have "key \<notin> fst ` set es"
    using assms(2,3) by (auto simp: in_set_conv_nth hd_conv_nth last_conv_nth image_iff)
      (metis fst_conv leD)+
  then show ?thesis by (simp add: map_of_eq_None_iff)
qed

text \<open>A lookup in a readable table, its range check included, is a lookup in its entries.\<close>

lemma SSTable_get_ok:
  assumes "table_ok fs sst" and "\<not> fs_unreadable fs (sst_path sst)"
  shows "SSTable_get key fs sst = Inr (live (map_of (table_entries fs sst) key))"
proof -
  obtain es where es: "entries_ok es" "fs_files fs (sst_path sst) = Some (table_bytes es)"
    "sst = table_of (sst_path sst) es" "table_entries fs sst = es"
    using table_okE [OF assms(1)] by metis
  show ?thesis
  proof (cases "sst_minKey sst \<noteq> [] \<and> (key < sst_minKey sst \<or> sst_maxKey sst < key)")
    case True
    have "es \<noteq> []"
    proof
      assume "es = []"
      then have "sst_minKey sst = []" using es(3) by (metis SSTable.select_convs(2) table_of_def)
      with True show False by simp
    qed
    moreover have "sst_minKey sst = fst (hd es)" "sst_maxKey sst = fst (last es)"
      using es(3) \<open>es \<noteq> []\<close> by (metis SSTable.select_convs(2) table_of_def)
        (metis SSTable.select_convs(3) es(3) \<open>es \<noteq> []\<close> table_of_def)
    ultimately have "map_of es key = None"
      using True es(1) key_outside_range [of es key] by (simp add: entries_ok_def)
    then show ?thesis using True es(4) by (simp add: SSTable_get_def live_def)
  next
    case False
    then show ?thesis
      using es(1,2,4) assms(2) by (auto simp: SSTable_get_def os_Open_def sst_scan_table entries_ok_def)
  qed
qed

lemma SSTable_readAll_ok:
  assumes "table_ok fs sst" and "SSTable_readAll fs sst = Inr es"
  shows "es = table_entries fs sst"
  using assms
  by (auto simp: SSTable_readAll_def os_Open_def table_entries_def split: option.splits if_splits)

section \<open>Lemmas: levels and paths\<close>

lemma level_map_simps [simp]:
  "level_map fs [] = Map.empty"
  "level_map fs (xs @ [sst]) = level_map fs xs ++ map_of (table_entries fs sst)"
  by (simp_all add: level_map_def)

lemma level_map_cong:
  assumes "\<And>sst. sst \<in> set xs \<Longrightarrow> fs_files fs' (sst_path sst) = fs_files fs (sst_path sst)"
  shows "level_map fs' xs = level_map fs xs"
  using assms
proof (induction xs rule: rev_induct)
  case (snoc x xs)
  then have "level_map fs' xs = level_map fs xs" "table_entries fs' x = table_entries fs x"
    using table_ok_cong(2) [of fs' x fs] by simp_all
  then show ?case by simp
qed simp

lemma path_join_inject [simp]: "path_join d a = path_join d b \<longleftrightarrow> a = b"
  by (simp add: path_join_def)

lemma level_prefix:
  "str ''l0-'' = [108, 48, 45]" "str ''l1-'' = [108, 49, 45]"
  by (simp_all add: str_def)

lemma table_path_inject [simp]:
  "l0_path d m = l0_path d n \<longleftrightarrow> m = n" "l1_path d m = l1_path d n \<longleftrightarrow> m = n"
  "l0_path d m \<noteq> l1_path d n" "l1_path d m \<noteq> l0_path d n"
  unfolding l0_path_def l1_path_def path_join_inject level_prefix by simp_all

lemma path_old_fresh:
  assumes "path_old e p" and "en_nextID e < n"
  shows "p \<noteq> l0_path (en_dir e) n" and "p \<noteq> l1_path (en_dir e) n"
  using assms by (auto simp: path_old_def)

lemma path_old_mono:
  "path_old e p \<Longrightarrow> en_dir e' = en_dir e \<Longrightarrow> en_nextID e \<le> en_nextID e' \<Longrightarrow> path_old e' p"
  unfolding path_old_def by (metis le_trans)

section \<open>Lemmas: merging\<close>

lemma merge_entries_ok:
  assumes "distinct (map fst m)" and "\<forall>e \<in> set m. entry_ok e" and "entries_ok es"
  shows "distinct (map fst (merge_entries es m)) \<and> (\<forall>e \<in> set (merge_entries es m). entry_ok e) \<and>
         map_of (merge_entries es m) = map_of m ++ map_of es"
  using assms
proof (induction es arbitrary: m)
  case (Cons e es)
  obtain k v where e: "e = (k, v)" by (cases e)
  have "set (AList.update k v m) \<subseteq> insert (k, v) (set m)"
    by (induction m) auto
  then have "distinct (map fst (AList.update k v m))" "\<forall>e \<in> set (AList.update k v m). entry_ok e"
    "entries_ok es" "map_of es k = None"
    using Cons.prems e by (auto simp: distinct_update entries_ok_def map_of_eq_None_iff)
  moreover have "map_of (AList.update k v m) ++ map_of es = map_of m ++ map_of (e # es)"
    using calculation(4) e by (auto simp: fun_eq_iff map_add_def update_conv split: option.splits)
  moreover have "merge_entries (e # es) m = merge_entries es (AList.update k v m)"
    using e by (simp add: merge_entries_def)
  ultimately show ?case using Cons.IH [of "AList.update k v m"] by metis
qed (simp add: merge_entries_def)

lemma merge_tables_ok:
  assumes "merge_tables fs ssts m = Some m'" and "\<forall>sst \<in> set ssts. table_ok fs sst"
    and "distinct (map fst m)" and "\<forall>e \<in> set m. entry_ok e"
  shows "distinct (map fst m') \<and> (\<forall>e \<in> set m'. entry_ok e) \<and>
         map_of m' = fold (\<lambda>sst m. m ++ map_of (table_entries fs sst)) ssts (map_of m)"
  using assms
proof (induction ssts arbitrary: m)
  case (Cons sst ssts)
  obtain es where es: "SSTable_readAll fs sst = Inr es" "merge_tables fs ssts (merge_entries es m) = Some m'"
    using Cons.prems(1) by (auto split: sum.splits)
  have eq: "es = table_entries fs sst" "entries_ok es"
    using es(1) Cons.prems(2) SSTable_readAll_ok [of fs sst es] table_ok_entries [of fs sst] by simp_all
  show ?case
    using Cons.IH [OF es(2)] merge_entries_ok [OF Cons.prems(3,4) eq(2)] Cons.prems(2) eq by simp
qed simp

text \<open>Dropping the tombstones of a merged map is what reading through them would give.\<close>

lemma map_of_filter_live:
  assumes "distinct (map fst m)"
  shows "map_of (filter (\<lambda>(k, v). v \<noteq> tombstone) m) = (\<lambda>k. live (map_of m k))"
  using assms
proof (induction m)
  case (Cons e m)
  obtain k v where e: "e = (k, v)" by (cases e)
  have "map_of m k = None" using Cons.prems e by (simp add: map_of_eq_None_iff)
  then show ?case using Cons e by (auto simp: live_def fun_eq_iff)
qed (simp add: live_def fun_eq_iff)

lemma remove_tables_files:
  "fs_unreadable (remove_tables ssts fs) = fs_unreadable fs \<and>
   (p \<notin> sst_path ` set ssts \<longrightarrow> fs_files (remove_tables ssts fs) p = fs_files fs p)"
proof (induction ssts arbitrary: fs)
  case (Cons sst ssts)
  obtain ok fs1 where 1: "fs_pop fs = (ok, fs1)" by (metis prod.exhaust)
  show ?case
    using Cons.IH [of "snd (os_Remove (sst_path sst) fs)"] fs_pop_cases [OF 1] 1
    by (cases ok) (auto simp: remove_tables_def os_Remove_def)
qed (simp add: remove_tables_def)

section \<open>Lemmas: the engine\<close>

text \<open>
  The lemmas below hold for every script of failures, so a failing flush or compaction loses
  nothing. A table is always written to a path that no live table has.
\<close>

lemma fresh_table_keeps:
  assumes "engine_inv e" and "flushToSSTable p es (en_fs e) = (r, fs)"
    and "p = l0_path (en_dir e) (Suc (en_nextID e)) \<or> p = l1_path (en_dir e) (Suc (en_nextID e))"
    and "sst \<in> set (en_l1 e @ en_l0 e)"
  shows "fs_files fs (sst_path sst) = fs_files (en_fs e) (sst_path sst)"
    and "table_ok fs sst" and "table_entries fs sst = table_entries (en_fs e) sst"
    and "sst_path sst \<noteq> p"
proof -
  have ok: "table_ok (en_fs e) sst" "path_old e (sst_path sst)"
    using assms(1,4) by (auto simp: engine_inv_def)
  then show np: "sst_path sst \<noteq> p" using assms(3) path_old_fresh [of e _ "Suc (en_nextID e)"] by auto
  then show f: "fs_files fs (sst_path sst) = fs_files (en_fs e) (sst_path sst)"
    using flushToSSTable_spec(1) [OF assms(2)] by simp
  show "table_ok fs sst" "table_entries fs sst = table_entries (en_fs e) sst"
    using ok(1) table_ok_cong [of fs sst "en_fs e"] f by simp_all
qed

lemma flush_memtable_cases:
  assumes "flush_memtable e = (err, e')"
  obtains (fail) fs where
      "flushToSSTable (l0_path (en_dir e) (Suc (en_nextID e))) (MemTable_sorted (en_memtable e)) (en_fs e) = (None, fs)"
      "err = Some ErrFlushTable" "e' = e\<lparr>en_nextID := Suc (en_nextID e), en_fs := fs\<rparr>"
    | (flushed) sst fs where
      "flushToSSTable (l0_path (en_dir e) (Suc (en_nextID e))) (MemTable_sorted (en_memtable e)) (en_fs e) = (Some sst, fs)"
      "err = None"
      "e' = e\<lparr>en_nextID := Suc (en_nextID e), en_fs := fs, en_l0 := en_l0 e @ [sst], en_memtable := newMemTable\<rparr>"
  using assms by (auto simp: flush_memtable_def Let_def split: option.splits prod.splits)

lemma mem_sorted_ok:
  assumes "engine_inv e"
  shows "entries_ok (MemTable_sorted (en_memtable e))"
    and "map_of (MemTable_sorted (en_memtable e)) = map_of (mt_data (en_memtable e))"
  using assms entries_ok_sort by (simp_all add: engine_inv_def mem_ok_def MemTable_sorted_def)

lemma engine_invI:
  assumes "mem_ok (en_memtable e')" and "en_dir e' = en_dir e" and "en_nextID e' = Suc (en_nextID e)"
    and "l1_ok e'"
    and "\<And>sst. sst \<in> set (en_l1 e' @ en_l0 e') \<Longrightarrow> table_ok (en_fs e') sst \<and>
           (path_old e (sst_path sst) \<or> sst_path sst = l0_path (en_dir e) (Suc (en_nextID e)) \<or>
            sst_path sst = l1_path (en_dir e) (Suc (en_nextID e)))"
  shows "engine_inv e'"
  unfolding engine_inv_def
proof (intro conjI ballI)
  fix sst assume sst: "sst \<in> set (en_l1 e' @ en_l0 e')"
  show "path_old e' (sst_path sst)"
    using assms(2,3) assms(5) [OF sst] path_old_mono [of e "sst_path sst" e'] by (auto simp: path_old_def)
qed (use assms in auto)

lemma l1_ok_cong:
  assumes "l1_ok e" and "en_l1 e' = en_l1 e"
    and "\<And>sst. sst \<in> set (en_l1 e) \<Longrightarrow> table_entries (en_fs e') sst = table_entries (en_fs e) sst"
  shows "l1_ok e'"
  using assms by (simp add: l1_ok_def)

lemma flush_memtable_inv:
  assumes inv: "engine_inv e" and run: "flush_memtable e = (err, e')"
  shows "engine_inv e'" and "engine_raw e' = engine_raw e"
    and "fs_unreadable (en_fs e') = fs_unreadable (en_fs e)"
proof -
  note old = fresh_table_keeps [OF inv _ disjI1 [OF refl]]
  have po: "path_old e (sst_path sst)" if "sst \<in> set (en_l1 e @ en_l0 e)" for sst
    using inv that by (auto simp: engine_inv_def)
  have l1: "l1_ok e" using inv by (simp add: engine_inv_def)
  have "engine_inv e' \<and> engine_raw e' = engine_raw e \<and> fs_unreadable (en_fs e') = fs_unreadable (en_fs e)"
    using run
  proof (cases rule: flush_memtable_cases)
    case (fail fs)
    have "l1_ok e'" by (rule l1_ok_cong [OF l1]) (use fail old(3) [OF fail(1)] in auto)
    then have "engine_inv e'"
      by (intro engine_invI [of e' e]) (use fail old(2) [OF fail(1)] po inv in \<open>auto simp: engine_inv_def\<close>)
    moreover have "level_map fs (en_l1 e @ en_l0 e) = level_map (en_fs e) (en_l1 e @ en_l0 e)"
      using old(1) [OF fail(1)] by (intro level_map_cong) simp
    ultimately show ?thesis
      using fail flushToSSTable_spec(2) [OF fail(1)] by (simp add: engine_raw_def)
  next
    case (flushed sst fs)
    have new: "table_ok fs sst" "table_entries fs sst = MemTable_sorted (en_memtable e)"
      "sst_path sst = l0_path (en_dir e) (Suc (en_nextID e))"
      using flushToSSTable_spec(3) [OF flushed(1) refl] table_ok_written mem_sorted_ok(1) [OF inv] by auto
    have "l1_ok e'" by (rule l1_ok_cong [OF l1]) (use flushed old(3) [OF flushed(1)] in auto)
    then have "engine_inv e'"
      by (intro engine_invI [of e' e])
        (use flushed old(2) [OF flushed(1)] po new in \<open>auto simp: mem_ok_def newMemTable_def\<close>)
    moreover have "level_map fs (en_l1 e @ en_l0 e) = level_map (en_fs e) (en_l1 e @ en_l0 e)"
      using old(1) [OF flushed(1)] by (intro level_map_cong) simp
    ultimately show ?thesis
      using flushed flushToSSTable_spec(2) [OF flushed(1)] new(2) mem_sorted_ok(2) [OF inv]
        level_map_simps(2) [of fs "en_l1 e @ en_l0 e" sst]
      by (simp add: engine_raw_def newMemTable_def)
  qed
  then show "engine_inv e'" "engine_raw e' = engine_raw e"
    "fs_unreadable (en_fs e') = fs_unreadable (en_fs e)" by blast+
qed

text \<open>What a compaction writes: the merge of all tables without the deleted keys.\<close>

definition compact_entries :: "Engine \<Rightarrow> entry list option" where
  "compact_entries e =
     (case merge_tables (en_fs e) (en_l1 e) [] of
        None \<Rightarrow> None
      | Some m1 \<Rightarrow>
          map_option (\<lambda>m. sort_key fst (filter (\<lambda>(k, v). v \<noteq> tombstone) m))
            (merge_tables (en_fs e) (en_l0 e) m1))"

lemma compact_entries_ok:
  assumes inv: "engine_inv e" and c: "compact_entries e = Some es"
  shows "entries_ok es" and "map_of es = (\<lambda>k. live (level_map (en_fs e) (en_l1 e @ en_l0 e) k))"
proof -
  have ok: "\<forall>sst \<in> set (en_l1 e). table_ok (en_fs e) sst" "\<forall>sst \<in> set (en_l0 e). table_ok (en_fs e) sst"
    using inv by (auto simp: engine_inv_def)
  obtain m1 m where m: "merge_tables (en_fs e) (en_l1 e) [] = Some m1"
    "merge_tables (en_fs e) (en_l0 e) m1 = Some m" "es = sort_key fst (filter (\<lambda>(k, v). v \<noteq> tombstone) m)"
    using c by (auto simp: compact_entries_def split: option.splits)
  note m1 = merge_tables_ok [OF m(1) ok(1), simplified]
  note m2 = merge_tables_ok [OF m(2) ok(2) m1 [THEN conjunct1] m1 [THEN conjunct2, THEN conjunct1]]
  let ?f = "filter (\<lambda>(k, v). v \<noteq> tombstone) m"
  have f: "distinct (map fst ?f)" "\<forall>e \<in> set ?f. entry_ok e"
    using m2 by (simp_all add: distinct_map_filter)
  have "map_of m = level_map (en_fs e) (en_l1 e @ en_l0 e)"
    using m1 m2 by (simp add: level_map_def)
  then show "map_of es = (\<lambda>k. live (level_map (en_fs e) (en_l1 e @ en_l0 e) k))"
    using entries_ok_sort(2) [OF f] map_of_filter_live [of m] m2 m(3) by simp
  show "entries_ok es" using entries_ok_sort(1) [OF f] m(3) by simp
qed

lemma compact_cases:
  assumes "compact e = (err, e')"
  obtains (read) "err \<noteq> None" "e' = e"
    | (empty_table) "compact_entries e = Some []" "err = None"
        "e' = e\<lparr>en_fs := remove_tables (en_l1 e) (remove_tables (en_l0 e) (en_fs e)), en_l0 := [], en_l1 := []\<rparr>"
    | (failed) es fs where "compact_entries e = Some es" "err \<noteq> None"
        "flushToSSTable (l1_path (en_dir e) (Suc (en_nextID e))) es (en_fs e) = (None, fs)"
        "e' = e\<lparr>en_nextID := Suc (en_nextID e), en_fs := fs\<rparr>"
    | (table) es sst fs where "compact_entries e = Some es" "err = None"
        "flushToSSTable (l1_path (en_dir e) (Suc (en_nextID e))) es (en_fs e) = (Some sst, fs)"
        "e' = e\<lparr>en_nextID := Suc (en_nextID e), en_fs := remove_tables (en_l1 e) (remove_tables (en_l0 e) fs),
                en_l0 := [], en_l1 := [sst]\<rparr>"
proof -
  let ?p = "l1_path (en_dir e) (Suc (en_nextID e))"
  consider "compact_entries e = None" | es where "compact_entries e = Some es" by (cases "compact_entries e")
  then show thesis
  proof cases
    case 1
    then show thesis
      using assms read by (auto simp: compact_def compact_entries_def split: option.splits)
  next
    case (2 es)
    obtain r fs where r: "flushToSSTable ?p es (en_fs e) = (r, fs)" by (metis prod.exhaust)
    obtain m1 m where m: "merge_tables (en_fs e) (en_l1 e) [] = Some m1"
      "merge_tables (en_fs e) (en_l0 e) m1 = Some m" "es = sort_key fst (filter (\<lambda>(k, v). v \<noteq> tombstone) m)"
      using 2 by (auto simp: compact_entries_def split: option.splits)
    show thesis
    proof (cases "es = []")
      case True
      then show thesis using assms m(1,2) m(3) [symmetric] 2 empty_table by (simp add: compact_def)
    next
      case False
      then show thesis
        using assms m(1,2) m(3) [symmetric] 2 r failed [of es fs] table [of es _ fs]
        by (cases r) (auto simp: compact_def)
    qed
  qed
qed

lemma live_live [simp]: "live (live x) = live x"
  by (simp add: live_def split: option.splits)

lemma live_not_tombstone [simp]: "live x \<noteq> Some tombstone"
  by (simp add: live_def split: option.splits)

lemma live_add: "live (((\<lambda>k. live (f k)) ++ m) k) = live ((f ++ m) k)"
  by (simp add: map_add_def split: option.splits)

text \<open>
  Compaction keeps the abstract map; when it succeeds there is at most one table left and it
  holds no tombstone.
\<close>

lemma compact_spec:
  assumes inv: "engine_inv e" and run: "compact e = (err, e')"
  shows "engine_inv e'" and "engine_abs e' = engine_abs e" and "en_memtable e' = en_memtable e"
    and "fs_unreadable (en_fs e') = fs_unreadable (en_fs e)"
    and "err = None \<Longrightarrow> en_l0 e' = [] \<and> length (en_l1 e') \<le> 1 \<and>
           level_map (en_fs e') (en_l1 e') = (\<lambda>k. live (level_map (en_fs e) (en_l1 e @ en_l0 e) k))"
    and "err \<noteq> None \<Longrightarrow> en_l0 e' = en_l0 e \<and> en_l1 e' = en_l1 e \<and>
           (\<forall>sst \<in> set (en_l1 e @ en_l0 e). table_entries (en_fs e') sst = table_entries (en_fs e) sst)"
proof -
  let ?L = "level_map (en_fs e) (en_l1 e @ en_l0 e)"
  have po: "path_old e (sst_path sst)" if "sst \<in> set (en_l1 e @ en_l0 e)" for sst
    using inv that by (auto simp: engine_inv_def)
  have mem: "mem_ok (en_memtable e)" "l1_ok e" using inv by (simp_all add: engine_inv_def)
  note old = fresh_table_keeps [OF inv _ disjI2 [OF refl]]
  have "engine_inv e' \<and> engine_abs e' = engine_abs e \<and> en_memtable e' = en_memtable e \<and>
    fs_unreadable (en_fs e') = fs_unreadable (en_fs e) \<and>
    (err = None \<longrightarrow> en_l0 e' = [] \<and> length (en_l1 e') \<le> 1 \<and>
       level_map (en_fs e') (en_l1 e') = (\<lambda>k. live (?L k))) \<and>
    (err \<noteq> None \<longrightarrow> en_l0 e' = en_l0 e \<and> en_l1 e' = en_l1 e \<and>
       (\<forall>sst \<in> set (en_l1 e @ en_l0 e). table_entries (en_fs e') sst = table_entries (en_fs e) sst))"
    using run
  proof (cases rule: compact_cases)
    case read then show ?thesis using inv by auto
  next
    case empty_table
    have L: "Map.empty = (\<lambda>k. live (?L k))" using compact_entries_ok(2) [OF inv empty_table(1)] by simp
    have "engine_abs e' = engine_abs e"
      using empty_table live_add [of ?L] L by (simp add: engine_abs_def engine_raw_def fun_eq_iff)
    then show ?thesis
      using empty_table L mem remove_tables_files by (simp add: engine_inv_def l1_ok_def)
  next
    case (failed es fs)
    have "l1_ok e'" by (rule l1_ok_cong [OF mem(2)]) (use failed(4) old(3) [OF failed(3)] in auto)
    then have inv': "engine_inv e'"
      by (intro engine_invI [of e' e]) (use failed(4) old(2) [OF failed(3)] po mem in auto)
    have "level_map fs (en_l1 e @ en_l0 e) = ?L"
      using old(1) [OF failed(3)] by (intro level_map_cong) simp
    then have "engine_abs e' = engine_abs e" using failed(4) by (simp add: engine_abs_def engine_raw_def)
    then show ?thesis
      using inv' failed old(3) [OF failed(3)] flushToSSTable_spec(2) [OF failed(3)] by auto
  next
    case (table es sst fs)
    let ?fs = "remove_tables (en_l1 e) (remove_tables (en_l0 e) fs)"
    let ?p = "l1_path (en_dir e) (Suc (en_nextID e))"
    note es = compact_entries_ok [OF inv table(1)]
    have sst: "sst = table_of ?p es" "fs_files fs ?p = Some (table_bytes es)"
      using flushToSSTable_spec(3) [OF table(3) refl] by simp_all
    have "?p \<notin> sst_path ` set (en_l0 e)" "?p \<notin> sst_path ` set (en_l1 e)"
      using old(4) [OF table(3)] by (metis (no_types) UnCI imageE set_append)+
    then have "fs_files ?fs ?p = Some (table_bytes es)"
      using sst(2) remove_tables_files [of _ _ ?p] by simp
    then have new: "table_ok ?fs sst" "table_entries ?fs sst = es"
      using table_ok_written [OF es(1)] sst(1) by simp_all
    have "l1_ok e'" using table(4) new(2) es(2) by (simp add: l1_ok_def live_not_tombstone)
    then have inv': "engine_inv e'"
      by (intro engine_invI [of e' e]) (use table(4) new mem sst in auto)
    have "level_map ?fs [sst] = (\<lambda>k. live (?L k))"
      using new(2) es(2) level_map_simps(2) [of ?fs "[]" sst] by simp
    moreover from this have "engine_abs e' = engine_abs e"
      using table(4) by (simp add: engine_abs_def engine_raw_def live_add)
    ultimately show ?thesis
      using inv' table flushToSSTable_spec(2) [OF table(3)] remove_tables_files by simp
  qed
  then show "engine_inv e'" "engine_abs e' = engine_abs e" "en_memtable e' = en_memtable e"
    "fs_unreadable (en_fs e') = fs_unreadable (en_fs e)"
    "err = None \<Longrightarrow> en_l0 e' = [] \<and> length (en_l1 e') \<le> 1 \<and> level_map (en_fs e') (en_l1 e') = (\<lambda>k. live (?L k))"
    "err \<noteq> None \<Longrightarrow> en_l0 e' = en_l0 e \<and> en_l1 e' = en_l1 e \<and>
       (\<forall>sst \<in> set (en_l1 e @ en_l0 e). table_entries (en_fs e') sst = table_entries (en_fs e) sst)"
    by blast+
qed

lemma maybeFlush_cases:
  assumes "maybeFlush e = (err, e')"
  obtains (small) "err = None" "e' = e" "mt_size (en_memtable e) < memTableSizeLimit"
    | (flush) "flush_memtable e = (err, e')" "err = None \<longrightarrow> length (en_l0 e') < maxL0Tables"
    | (compact) e1 where "flush_memtable e = (None, e1)" "compact e1 = (err, e')"
proof -
  obtain err1 e1 where f: "flush_memtable e = (err1, e1)" by (metis prod.exhaust)
  show thesis
  proof (cases "mt_size (en_memtable e) < memTableSizeLimit")
    case True
    then show thesis using assms small by (simp add: maybeFlush_def MemTable_bytesUsed_def)
  next
    case False
    note run = assms [unfolded maybeFlush_def MemTable_bytesUsed_def f if_not_P [OF False] prod.case]
    show thesis
    proof (cases "err1 = None \<and> maxL0Tables \<le> length (en_l0 e1)")
      case True
      then show thesis using run f by (intro compact [of e1]) simp_all
    next
      case False
      then show thesis using run f by (intro flush) (auto split: option.splits)
    qed
  qed
qed

lemma maybeFlush_inv:
  assumes "engine_inv e" and "maybeFlush e = (err, e')"
  shows "engine_inv e'" and "engine_abs e' = engine_abs e"
    and "fs_unreadable (en_fs e') = fs_unreadable (en_fs e)"
proof -
  have "engine_inv e' \<and> engine_abs e' = engine_abs e \<and> fs_unreadable (en_fs e') = fs_unreadable (en_fs e)"
    using assms(2)
  proof (cases rule: maybeFlush_cases)
    case small then show ?thesis using assms(1) by simp
  next
    case flush
    then show ?thesis using flush_memtable_inv [OF assms(1) flush(1)] by (simp add: engine_abs_def)
  next
    case (compact e1)
    note f = flush_memtable_inv [OF assms(1) compact(1)]
    show ?thesis using f compact_spec [OF f(1) compact(2)] by (simp add: engine_abs_def)
  qed
  then show "engine_inv e'" "engine_abs e' = engine_abs e"
    "fs_unreadable (en_fs e') = fs_unreadable (en_fs e)" by blast+
qed

section \<open>Sequences of operations\<close>

datatype lsm_op = LPut bytes bytes | LDel bytes | LFlush

fun lsm_exec :: "lsm_op \<Rightarrow> Engine \<Rightarrow> lsm_error option \<times> Engine" where
  "lsm_exec (LPut k v) e = Engine_Put k v e"
| "lsm_exec (LDel k) e = Engine_Delete k e"
| "lsm_exec LFlush e = Engine_Flush e"

fun lsm_run :: "lsm_op list \<Rightarrow> Engine \<Rightarrow> lsm_error option list \<times> Engine" where
  "lsm_run [] e = ([], e)"
| "lsm_run (x # xs) e =
     (case lsm_exec x e of (err, e) \<Rightarrow> (case lsm_run xs e of (errs, e) \<Rightarrow> (err # errs, e)))"

fun lsm_apply :: "lsm_op \<Rightarrow> (bytes \<rightharpoonup> bytes) \<Rightarrow> (bytes \<rightharpoonup> bytes)" where
  "lsm_apply (LPut k v) m = m(k \<mapsto> v)"
| "lsm_apply (LDel k) m = m(k := None)"
| "lsm_apply LFlush m = m"

fun lsm_op_ok :: "lsm_op \<Rightarrow> bool" where
  "lsm_op_ok (LPut k v) \<longleftrightarrow> length k < 2 ^ 32 \<and> length v < 2 ^ 32 \<and> v \<noteq> tombstone"
| "lsm_op_ok (LDel k) \<longleftrightarrow> length k < 2 ^ 32"
| "lsm_op_ok LFlush \<longleftrightarrow> True"

lemma update_subset: "set (AList.update k v m) \<subseteq> insert (k, v) (set m)"
  by (induction m) auto

lemma length_tombstone: "length tombstone = 10"
  by (simp add: tombstone_def str_def)

lemma mem_update_inv:
  assumes "engine_inv e" and "mt_data m = AList.update k v (mt_data (en_memtable e))"
    and "length k < 2 ^ 32" and "length v < 2 ^ 32"
  shows "engine_inv (e\<lparr>en_memtable := m\<rparr>)"
    and "engine_abs (e\<lparr>en_memtable := m\<rparr>) = (engine_abs e)(k := live (Some v))"
proof -
  have "mem_ok m"
    using assms update_subset [of k v "mt_data (en_memtable e)"]
    by (auto simp: engine_inv_def mem_ok_def distinct_update entry_ok_def)
  then show "engine_inv (e\<lparr>en_memtable := m\<rparr>)"
    using assms(1) by (simp add: engine_inv_def path_old_def l1_ok_def)
  show "engine_abs (e\<lparr>en_memtable := m\<rparr>) = (engine_abs e)(k := live (Some v))"
    using assms(2) by (simp add: engine_abs_def engine_raw_def update_conv' fun_eq_iff)
qed

lemma lsm_exec_inv:
  assumes "engine_inv e" and "lsm_op_ok x" and "lsm_exec x e = (err, e')"
  shows "engine_inv e'" and "engine_abs e' = lsm_apply x (engine_abs e)"
    and "fs_unreadable (en_fs e') = fs_unreadable (en_fs e)"
proof -
  have "engine_inv e' \<and> engine_abs e' = lsm_apply x (engine_abs e) \<and>
    fs_unreadable (en_fs e') = fs_unreadable (en_fs e)"
  proof (cases x)
    case (LPut k v)
    let ?e = "e\<lparr>en_memtable := MemTable_put k v (en_memtable e)\<rparr>"
    have "engine_inv ?e" "engine_abs ?e = (engine_abs e)(k := live (Some v))"
      using assms LPut mem_update_inv [OF assms(1), of "MemTable_put k v (en_memtable e)" k v]
      by (simp_all add: MemTable_put_def)
    then show ?thesis
      using maybeFlush_inv [of ?e err e'] assms LPut by (simp add: Engine_Put_def live_def)
  next
    case (LDel k)
    let ?e = "e\<lparr>en_memtable := MemTable_delete k (en_memtable e)\<rparr>"
    have "engine_inv ?e" "engine_abs ?e = (engine_abs e)(k := live (Some tombstone))"
      using assms LDel mem_update_inv [OF assms(1), of "MemTable_delete k (en_memtable e)" k tombstone]
      by (simp_all add: MemTable_delete_def length_tombstone)
    then show ?thesis
      using maybeFlush_inv [of ?e err e'] assms LDel by (simp add: Engine_Delete_def live_def)
  next
    case LFlush
    then show ?thesis
      using assms flush_memtable_inv [OF assms(1), of err e']
      by (auto simp: Engine_Flush_def engine_abs_def split: if_splits)
  qed
  then show "engine_inv e'" "engine_abs e' = lsm_apply x (engine_abs e)"
    "fs_unreadable (en_fs e') = fs_unreadable (en_fs e)" by blast+
qed

lemma lsm_run_inv:
  assumes "engine_inv e" and "\<forall>x \<in> set xs. lsm_op_ok x" and "lsm_run xs e = (errs, e')"
  shows "engine_inv e' \<and> engine_abs e' = fold lsm_apply xs (engine_abs e) \<and>
         fs_unreadable (en_fs e') = fs_unreadable (en_fs e)"
  using assms
proof (induction xs arbitrary: e errs)
  case (Cons x xs)
  obtain err e1 where x: "lsm_exec x e = (err, e1)" by (metis prod.exhaust)
  obtain errs1 where r: "lsm_run xs e1 = (errs1, e')" using Cons.prems(3) x by (auto split: prod.splits)
  have "lsm_op_ok x" using Cons.prems(2) by simp
  note step = lsm_exec_inv [OF Cons.prems(1) this x]
  show ?case using Cons.IH [OF step(1) _ r] Cons.prems(2) step by simp
qed simp

lemma Engine_Open_inv:
  assumes "Engine_Open dir ok fs = Inr e"
  shows "engine_inv e" and "engine_abs e = Map.empty" and "en_fs e = fs" and "en_l0 e = []" and "en_l1 e = []"
  using assms
  by (auto simp: Engine_Open_def engine_inv_def mem_ok_def l1_ok_def newMemTable_def engine_abs_def
      engine_raw_def live_def split: if_splits)

section \<open>Lemmas: reads\<close>

lemma search_level:
  assumes "\<forall>sst \<in> set xs. table_ok fs sst \<and> \<not> fs_unreadable fs (sst_path sst) \<and>
             map_of (table_entries fs sst) k \<noteq> Some tombstone"
  shows "search_tables k fs (rev xs) = level_map fs xs k"
  using assms
proof (induction xs rule: rev_induct)
  case (snoc x xs)
  then show ?case
    by (simp add: SSTable_get_ok live_def map_add_def split: option.splits)
qed simp

lemma level_map_none_tomb:
  assumes "\<forall>sst \<in> set xs. map_of (table_entries fs sst) k \<noteq> Some tombstone"
  shows "level_map fs xs k \<noteq> Some tombstone"
  using assms by (induction xs rule: rev_induct) (auto simp: map_add_Some_iff)

lemma level_map_append: "level_map fs (xs @ ys) = level_map fs xs ++ level_map fs ys"
proof (induction ys rule: rev_induct)
  case (snoc y ys)
  then show ?case using level_map_simps(2) [of fs "xs @ ys" y] by simp
qed simp

text \<open>
  A read is a read of the abstract map when no table of level 0 holds a tombstone for the key.
\<close>

lemma Engine_Get_abs:
  assumes inv: "engine_inv e" and rd: "\<forall>p. \<not> fs_unreadable (en_fs e) p"
    and nt: "\<forall>sst \<in> set (en_l0 e). map_of (table_entries (en_fs e) sst) k \<noteq> Some tombstone"
  shows "Engine_Get k e = engine_abs e k"
proof -
  have l0: "search_tables k (en_fs e) (rev (en_l0 e)) = level_map (en_fs e) (en_l0 e) k"
    using inv rd nt by (intro search_level) (auto simp: engine_inv_def)
  have "rev (en_l1 e) = en_l1 e"
    using inv by (cases "en_l1 e") (auto simp: engine_inv_def l1_ok_def)
  then have l1: "search_tables k (en_fs e) (en_l1 e) = level_map (en_fs e) (en_l1 e) k"
    using search_level [of "en_l1 e" "en_fs e" k] inv rd by (auto simp: engine_inv_def l1_ok_def)
  have "level_map (en_fs e) (en_l0 e) k \<noteq> Some tombstone" "level_map (en_fs e) (en_l1 e) k \<noteq> Some tombstone"
    using inv nt level_map_none_tomb by (auto simp: engine_inv_def l1_ok_def)
  then show ?thesis
    using l0 l1
    by (auto simp: Engine_Get_def engine_abs_def engine_raw_def level_map_append map_add_def live_def
        split: option.splits)
qed

text \<open>A key that is never deleted has a tombstone nowhere.\<close>

definition no_tombstone :: "bytes \<Rightarrow> Engine \<Rightarrow> bool" where
  "no_tombstone k e \<longleftrightarrow>
     map_of (mt_data (en_memtable e)) k \<noteq> Some tombstone \<and>
     (\<forall>sst \<in> set (en_l0 e). map_of (table_entries (en_fs e) sst) k \<noteq> Some tombstone)"

text \<open>The tables after a flush: the old ones, and the memtable's entries when it succeeded.\<close>

lemma flush_memtable_tables:
  assumes inv: "engine_inv e" and run: "flush_memtable e = (err, e')"
  shows "err = None \<Longrightarrow> \<exists>sst. en_l0 e' = en_l0 e @ [sst] \<and> en_memtable e' = newMemTable \<and>
           table_entries (en_fs e') sst = MemTable_sorted (en_memtable e)"
    and "err \<noteq> None \<Longrightarrow> en_l0 e' = en_l0 e \<and> en_memtable e' = en_memtable e"
    and "en_l1 e' = en_l1 e"
    and "\<And>sst. sst \<in> set (en_l0 e) \<Longrightarrow> table_entries (en_fs e') sst = table_entries (en_fs e) sst"
    and "fs_faults (en_fs e) = [] \<Longrightarrow> err = None \<and> fs_faults (en_fs e') = []"
proof -
  note old = fresh_table_keeps(3) [OF inv _ disjI1 [OF refl]]
  have "(err = None \<longrightarrow> (\<exists>sst. en_l0 e' = en_l0 e @ [sst] \<and> en_memtable e' = newMemTable \<and>
           table_entries (en_fs e') sst = MemTable_sorted (en_memtable e))) \<and>
        (err \<noteq> None \<longrightarrow> en_l0 e' = en_l0 e \<and> en_memtable e' = en_memtable e) \<and> en_l1 e' = en_l1 e \<and>
        (\<forall>sst \<in> set (en_l0 e). table_entries (en_fs e') sst = table_entries (en_fs e) sst) \<and>
        (fs_faults (en_fs e) = [] \<longrightarrow> err = None \<and> fs_faults (en_fs e') = [])"
    using run
  proof (cases rule: flush_memtable_cases)
    case (fail fs)
    then show ?thesis using old [OF fail(1)] flushToSSTable_spec(4) [OF fail(1)] by auto
  next
    case (flushed sst fs)
    then show ?thesis
      using old [OF flushed(1)] flushToSSTable_spec(3,4) [OF flushed(1)] mem_sorted_ok(1) [OF inv]
        table_ok_written(2)
      by simp
  qed
  then show "err = None \<Longrightarrow> \<exists>sst. en_l0 e' = en_l0 e @ [sst] \<and> en_memtable e' = newMemTable \<and>
           table_entries (en_fs e') sst = MemTable_sorted (en_memtable e)"
    "err \<noteq> None \<Longrightarrow> en_l0 e' = en_l0 e \<and> en_memtable e' = en_memtable e"
    "en_l1 e' = en_l1 e"
    "\<And>sst. sst \<in> set (en_l0 e) \<Longrightarrow> table_entries (en_fs e') sst = table_entries (en_fs e) sst"
    "fs_faults (en_fs e) = [] \<Longrightarrow> err = None \<and> fs_faults (en_fs e') = []" by blast+
qed

lemma flush_no_tombstone:
  assumes "engine_inv e" and "flush_memtable e = (err, e')" and "no_tombstone k e"
  shows "no_tombstone k e'"
proof (cases "err = None")
  case True
  then obtain sst where sst: "en_l0 e' = en_l0 e @ [sst]" "en_memtable e' = newMemTable"
      "table_entries (en_fs e') sst = MemTable_sorted (en_memtable e)"
    using flush_memtable_tables(1) [OF assms(1,2)] by auto
  have "map_of (table_entries (en_fs e') sst) k \<noteq> Some tombstone"
    using assms(3) sst(3) mem_sorted_ok(2) [OF assms(1)] by (simp add: no_tombstone_def)
  then show ?thesis
    using assms(3) sst(1,2) flush_memtable_tables(4) [OF assms(1,2)]
    by (auto simp: no_tombstone_def newMemTable_def)
next
  case False
  then show ?thesis
    using assms(3) flush_memtable_tables(2,4) [OF assms(1,2)] by (simp add: no_tombstone_def)
qed

lemma maybeFlush_no_tombstone:
  assumes "engine_inv e" and "maybeFlush e = (err, e')" and "no_tombstone k e"
  shows "no_tombstone k e'"
  using assms(2)
proof (cases rule: maybeFlush_cases)
  case (compact e1)
  have e1: "engine_inv e1" "no_tombstone k e1"
    using flush_memtable_inv(1) [OF assms(1) compact(1)] flush_no_tombstone [OF assms(1) compact(1) assms(3)]
    by simp_all
  show ?thesis
    using e1(2) compact_spec(3,5,6) [OF e1(1) compact(2)] by (cases "err = None") (auto simp: no_tombstone_def)
qed (use assms flush_no_tombstone in auto)

lemma lsm_run_no_tombstone:
  assumes "engine_inv e" and "\<forall>x \<in> set xs. lsm_op_ok x \<and> x \<noteq> LDel k" and "lsm_run xs e = (errs, e')"
    and "no_tombstone k e"
  shows "no_tombstone k e'"
  using assms
proof (induction xs arbitrary: e errs)
  case (Cons x xs)
  obtain err e1 where x: "lsm_exec x e = (err, e1)" by (metis prod.exhaust)
  obtain errs1 where r: "lsm_run xs e1 = (errs1, e')" using Cons.prems(3) x by (auto split: prod.splits)
  have ok: "lsm_op_ok x" "x \<noteq> LDel k" using Cons.prems(2) by simp_all
  have "no_tombstone k e1"
  proof (cases x)
    case (LPut j v)
    let ?m = "MemTable_put j v (en_memtable e)"
    have "engine_inv (e\<lparr>en_memtable := ?m\<rparr>)" "no_tombstone k (e\<lparr>en_memtable := ?m\<rparr>)"
      using mem_update_inv(1) [OF Cons.prems(1), of ?m j v] ok Cons.prems(4) LPut
      by (simp_all add: MemTable_put_def no_tombstone_def update_conv')
    then show ?thesis using maybeFlush_no_tombstone x LPut by (simp add: Engine_Put_def)
  next
    case (LDel j)
    let ?m = "MemTable_delete j (en_memtable e)"
    have "engine_inv (e\<lparr>en_memtable := ?m\<rparr>)" "no_tombstone k (e\<lparr>en_memtable := ?m\<rparr>)"
      using mem_update_inv(1) [OF Cons.prems(1), of ?m j tombstone] ok Cons.prems(4) LDel
      by (simp_all add: MemTable_delete_def no_tombstone_def update_conv' length_tombstone)
    then show ?thesis using maybeFlush_no_tombstone x LDel by (simp add: Engine_Delete_def)
  next
    case LFlush
    then show ?thesis
      using x flush_no_tombstone [OF Cons.prems(1)] Cons.prems(4) by (auto simp: Engine_Flush_def split: if_splits)
  qed
  then show ?case
    using Cons.IH [OF lsm_exec_inv(1) [OF Cons.prems(1) ok(1) x] _ r] Cons.prems(2) by simp
qed simp

section \<open>Lemmas: no failures\<close>

lemma merge_tables_readable:
  assumes "\<forall>sst \<in> set ssts. table_ok fs sst" and "\<forall>p. \<not> fs_unreadable fs p"
  shows "\<exists>m'. merge_tables fs ssts m = Some m'"
  using assms(1)
proof (induction ssts arbitrary: m)
  case (Cons sst ssts)
  then obtain es where "entries_ok es" "fs_files fs (sst_path sst) = Some (table_bytes es)"
    by (metis list.set_intros(1) table_okE)
  then have "SSTable_readAll fs sst = Inr es"
    using assms(2) by (simp add: SSTable_readAll_def os_Open_def entries_ok_def readAll_table)
  then show ?case using Cons by simp
qed simp

lemma compact_succeeds:
  assumes "engine_inv e" and "fs_faults (en_fs e) = []" and "\<forall>p. \<not> fs_unreadable (en_fs e) p"
  shows "fst (compact e) = None"
proof -
  have ok: "\<forall>sst \<in> set (en_l1 e). table_ok (en_fs e) sst" "\<forall>sst \<in> set (en_l0 e). table_ok (en_fs e) sst"
    using assms(1) by (auto simp: engine_inv_def)
  obtain m1 m where m: "merge_tables (en_fs e) (en_l1 e) [] = Some m1" "merge_tables (en_fs e) (en_l0 e) m1 = Some m"
    using merge_tables_readable [OF ok(1) assms(3)] merge_tables_readable [OF ok(2) assms(3)] by metis
  have "\<exists>sst fs. flushToSSTable p es (en_fs e) = (Some sst, fs)" for p es
    using flushToSSTable_spec(4) assms(2) by (metis option.exhaust prod.exhaust)
  then obtain sst fs where "flushToSSTable (l1_path (en_dir e) (Suc (en_nextID e)))
      (sort_key fst (filter (\<lambda>(k, v). v \<noteq> tombstone) m)) (en_fs e) = (Some sst, fs)"
    by blast
  then show ?thesis using m by (simp add: compact_def Let_def)
qed

lemma remove_tables_no_faults:
  "fs_faults fs = [] \<Longrightarrow> fs_faults (remove_tables ssts fs) = []"
  by (induction ssts arbitrary: fs) (simp_all add: remove_tables_def os_Remove_def fs_pop_def)

lemma compact_no_faults:
  assumes "compact e = (err, e')" and "fs_faults (en_fs e) = []"
  shows "fs_faults (en_fs e') = []"
  using assms(1)
proof (cases rule: compact_cases)
  case (failed es fs)
  then show ?thesis using assms(2) flushToSSTable_spec(4) [OF failed(3)] by simp
next
  case (table es sst fs)
  then show ?thesis using assms(2) flushToSSTable_spec(4) [OF table(3)] by (simp add: remove_tables_no_faults)
qed (use assms(2) in \<open>simp_all add: remove_tables_no_faults\<close>)

lemma maybeFlush_succeeds:
  assumes "engine_inv e" and "maybeFlush e = (err, e')" and "fs_faults (en_fs e) = []"
    and "\<forall>p. \<not> fs_unreadable (en_fs e) p"
  shows "err = None" and "fs_faults (en_fs e') = []"
proof -
  have "err = None \<and> fs_faults (en_fs e') = []"
    using assms(2)
  proof (cases rule: maybeFlush_cases)
    case flush then show ?thesis using flush_memtable_tables(5) [OF assms(1) flush(1)] assms(3) by simp
  next
    case (compact e1)
    have "engine_inv e1" "fs_faults (en_fs e1) = []" "\<forall>p. \<not> fs_unreadable (en_fs e1) p"
      using flush_memtable_inv [OF assms(1) compact(1)] flush_memtable_tables(5) [OF assms(1) compact(1)] assms(3,4)
      by simp_all
    then show ?thesis using compact_succeeds [of e1] compact_no_faults [OF compact(2)] compact(2) by simp
  qed (use assms in simp)
  then show "err = None" "fs_faults (en_fs e') = []" by blast+
qed

lemma lsm_exec_succeeds:
  assumes "engine_inv e" and "lsm_op_ok x" and "lsm_exec x e = (err, e')" and "fs_faults (en_fs e) = []"
    and "\<forall>p. \<not> fs_unreadable (en_fs e) p"
  shows "err = None \<and> fs_faults (en_fs e') = []"
proof (cases x)
  case (LPut k v)
  let ?m = "MemTable_put k v (en_memtable e)"
  have "engine_inv (e\<lparr>en_memtable := ?m\<rparr>)"
    using mem_update_inv(1) [of e ?m k v] assms LPut by (simp add: MemTable_put_def)
  then show ?thesis
    using maybeFlush_succeeds [of "e\<lparr>en_memtable := ?m\<rparr>" err e'] assms LPut by (simp add: Engine_Put_def)
next
  case (LDel k)
  let ?m = "MemTable_delete k (en_memtable e)"
  have "engine_inv (e\<lparr>en_memtable := ?m\<rparr>)"
    using mem_update_inv(1) [of e ?m k tombstone] assms LDel by (simp add: MemTable_delete_def length_tombstone)
  then show ?thesis
    using maybeFlush_succeeds [of "e\<lparr>en_memtable := ?m\<rparr>" err e'] assms LDel by (simp add: Engine_Delete_def)
next
  case LFlush
  then show ?thesis
    using assms flush_memtable_tables(5) [OF assms(1), of err e'] by (auto simp: Engine_Flush_def split: if_splits)
qed

lemma lsm_run_succeeds:
  assumes "engine_inv e" and "\<forall>x \<in> set xs. lsm_op_ok x" and "lsm_run xs e = (errs, e')"
    and "fs_faults (en_fs e) = []" and "\<forall>p. \<not> fs_unreadable (en_fs e) p"
  shows "set errs \<subseteq> {None} \<and> fs_faults (en_fs e') = []"
  using assms
proof (induction xs arbitrary: e errs)
  case (Cons x xs)
  obtain err e1 where x: "lsm_exec x e = (err, e1)" by (metis prod.exhaust)
  obtain errs1 where r: "lsm_run xs e1 = (errs1, e')" "errs = err # errs1"
    using Cons.prems(3) x by (auto split: prod.splits)
  have ok: "lsm_op_ok x" using Cons.prems(2) by simp
  show ?case
    using Cons.IH [OF _ _ r(1)] lsm_exec_inv [OF Cons.prems(1) ok x]
      lsm_exec_succeeds [OF Cons.prems(1) ok x Cons.prems(4,5)] Cons.prems r(2) by simp
qed simp

section \<open>Lemmas: bounds\<close>

definition levels_bounded :: "Engine \<Rightarrow> bool" where
  "levels_bounded e \<longleftrightarrow>
     engine_inv e \<and> mt_size (en_memtable e) < memTableSizeLimit \<and> length (en_l0 e) < maxL0Tables"

lemma maybeFlush_bounded:
  assumes inv: "engine_inv e" and run: "maybeFlush e = (None, e')" and "length (en_l0 e) < maxL0Tables"
  shows "levels_bounded e'"
proof -
  have pos: "0 < memTableSizeLimit" "0 < maxL0Tables" by (simp_all add: memTableSizeLimit_def maxL0Tables_def)
  have "mt_size (en_memtable e') < memTableSizeLimit \<and> length (en_l0 e') < maxL0Tables"
    using run
  proof (cases rule: maybeFlush_cases)
    case small then show ?thesis using assms by simp
  next
    case flush
    then show ?thesis using flush_memtable_tables(1) [OF inv flush(1)] pos by (auto simp: newMemTable_def)
  next
    case (compact e1)
    show ?thesis
      using flush_memtable_tables(1) [OF inv compact(1)] pos
        compact_spec(3,5) [OF flush_memtable_inv(1) [OF inv compact(1)] compact(2)]
      by (auto simp: newMemTable_def)
  qed
  then show ?thesis using maybeFlush_inv(1) [OF inv run] by (simp add: levels_bounded_def)
qed

lemma lsm_exec_bounded:
  assumes "levels_bounded e" and "lsm_op_ok x" and "x \<noteq> LFlush" and "lsm_exec x e = (None, e')"
  shows "levels_bounded e'"
proof (cases x)
  case (LPut k v)
  let ?m = "MemTable_put k v (en_memtable e)"
  have "engine_inv (e\<lparr>en_memtable := ?m\<rparr>)"
    using mem_update_inv(1) [of e ?m k v] assms LPut by (simp add: MemTable_put_def levels_bounded_def)
  then show ?thesis
    using maybeFlush_bounded [of "e\<lparr>en_memtable := ?m\<rparr>" e'] assms LPut
    by (simp add: Engine_Put_def levels_bounded_def)
next
  case (LDel k)
  let ?m = "MemTable_delete k (en_memtable e)"
  have "engine_inv (e\<lparr>en_memtable := ?m\<rparr>)"
    using mem_update_inv(1) [of e ?m k tombstone] assms LDel
    by (simp add: MemTable_delete_def levels_bounded_def length_tombstone)
  then show ?thesis
    using maybeFlush_bounded [of "e\<lparr>en_memtable := ?m\<rparr>" e'] assms LDel
    by (simp add: Engine_Delete_def levels_bounded_def)
qed (use assms in simp)

lemma lsm_run_bounded:
  assumes "levels_bounded e" and "\<forall>x \<in> set xs. lsm_op_ok x \<and> x \<noteq> LFlush"
    and "lsm_run xs e = (errs, e')" and "\<forall>err \<in> set errs. err = None"
  shows "levels_bounded e'"
  using assms
proof (induction xs arbitrary: e errs)
  case (Cons x xs)
  obtain e1 errs1 where "lsm_exec x e = (None, e1)" "lsm_run xs e1 = (errs1, e')" "errs = None # errs1"
    using Cons.prems(3,4) by (auto split: prod.splits)
  then show ?case using Cons.IH [of e1 errs1] lsm_exec_bounded [of e x e1] Cons.prems by simp
qed simp

section \<open>Properties\<close>

text \<open>The engine on an empty disk whose next system calls have the given outcomes.\<close>

definition fresh_engine :: "io_outcome list \<Rightarrow> Engine" where
  "fresh_engine fl =
     \<lparr>en_dir = [], en_memtable = newMemTable, en_l0 = [], en_l1 = [], en_nextID = 0,
      en_fs = \<lparr>fs_files = Map.empty, fs_unreadable = (\<lambda>_. False), fs_faults = fl\<rparr>\<rparr>"

lemma fresh_engine_Open: "Engine_Open [] True (en_fs (fresh_engine fl)) = Inr (fresh_engine fl)"
  by (simp add: fresh_engine_def Engine_Open_def)



text \<open>
  A key that was never deleted always reads as the last value put for it, through any
  number of flushes and compactions and whatever failures they meet.
\<close>

theorem lsm_undeleted_key_reads_last_put:
  assumes "Engine_Open dir True fs = Inr e0" and "\<forall>p. \<not> fs_unreadable fs p"
    and "\<forall>x \<in> set xs. lsm_op_ok x" and "LDel k \<notin> set xs" and "lsm_run xs e0 = (errs, e)"
  shows "Engine_Get k e = fold lsm_apply xs Map.empty k"
proof -
  note o = Engine_Open_inv [OF assms(1)]
  note r = lsm_run_inv [OF o(1) assms(3,5)]
  have "no_tombstone k e0"
    using assms(1) by (auto simp: Engine_Open_def no_tombstone_def newMemTable_def)
  then have "no_tombstone k e"
    using lsm_run_no_tombstone [OF o(1) _ assms(5)] assms(3,4) by blast
  then have "Engine_Get k e = engine_abs e k"
    using Engine_Get_abs [of e k] r o(3) assms(2) by (simp add: no_tombstone_def)
  then show ?thesis using r o(2) by simp
qed

theorem lsm_undeleted_key_reads_last_put_witness:
  "Engine_Get [107] (snd (lsm_run [LPut [107] [118], LFlush, LDel [106], LPut [107] [119], LFlush] (fresh_engine [])))
     = Some [119]"
proof -
  let ?xs = "[LPut [107] [118], LFlush, LDel [106], LPut [107] [119], LFlush]"
  have "Engine_Get [107] (snd (lsm_run ?xs (fresh_engine []))) = fold lsm_apply ?xs Map.empty [107]"
    by (rule lsm_undeleted_key_reads_last_put [OF fresh_engine_Open _ _ _ prod.collapse [symmetric]])
      (simp_all add: fresh_engine_def tombstone_def)
  then show ?thesis by simp
qed

text \<open>
  Compaction restores exact reads: after any run, once a compaction has succeeded every
  read, of deleted keys too, returns what a map would.
\<close>

theorem lsm_compaction_restores_reads:
  assumes "Engine_Open dir True fs = Inr e0" and "\<forall>p. \<not> fs_unreadable fs p"
    and "\<forall>x \<in> set xs. lsm_op_ok x" and "lsm_run xs e0 = (errs, e)" and "compact e = (None, e')"
  shows "Engine_Get k e' = fold lsm_apply xs Map.empty k"
proof -
  note o = Engine_Open_inv [OF assms(1)]
  note r = lsm_run_inv [OF o(1) assms(3,4)]
  have inv: "engine_inv e" using r by blast
  note c = compact_spec [OF inv assms(5)]
  have "Engine_Get k e' = engine_abs e' k"
    using Engine_Get_abs [of e' k] c r o(3) assms(2) by simp
  then show ?thesis using c(2) r o(2) by simp
qed

theorem lsm_compaction_restores_reads_witness:
  "Engine_Get [107] (snd (compact (snd (lsm_run [LPut [107] [118], LFlush, LDel [107], LFlush] (fresh_engine []))))) = None"
proof -
  let ?init = "fresh_engine []"
  let ?xs = "[LPut [107] [118], LFlush, LDel [107], LFlush]"
  let ?e = "snd (lsm_run ?xs ?init)"
  note run = prod.collapse [of "lsm_run ?xs ?init", symmetric]
  have ok: "\<forall>x \<in> set ?xs. lsm_op_ok x" by (simp add: tombstone_def)
  have rd: "\<forall>p. \<not> fs_unreadable (en_fs ?init) p" "fs_faults (en_fs ?init) = []" by (simp_all add: fresh_engine_def)
  note inv = Engine_Open_inv(1) [OF fresh_engine_Open]
  have "fst (compact ?e) = None"
    using lsm_run_inv [OF inv ok run] lsm_run_succeeds [OF inv ok run rd(2,1)] rd(1)
    by (intro compact_succeeds) (simp_all del: lsm_run.simps)
  then have c: "compact ?e = (None, snd (compact ?e))" by (metis prod.collapse)
  have "Engine_Get [107] (snd (compact ?e)) = fold lsm_apply ?xs Map.empty [107]"
    by (rule lsm_compaction_restores_reads [OF fresh_engine_Open rd(1) ok run c])
  then show ?thesis by simp
qed

text \<open>
  \<^bold>\<open>C24\<close>. A deletion that is flushed brings the old value back. On a disk without failures, put
  a value, flush, delete the key, flush: every call succeeds, a map would have no such key, and
  \<^verbatim>\<open>Get\<close> returns the deleted value, because the table that holds the tombstone reports the key
  as absent and the search goes on to the older table.
\<close>

theorem lsm_flushed_delete_resurrects:
  assumes "Engine_Open dir True fs = Inr e0" and "\<forall>p. \<not> fs_unreadable fs p" and "fs_faults fs = []"
    and "k \<noteq> []" and "v \<noteq> tombstone" and "length k + length v + 10 < memTableSizeLimit"
    and "lsm_run [LPut k v, LFlush, LDel k, LFlush] e0 = (errs, e)"
  shows "errs = [None, None, None, None] \<and> Engine_Get k e = Some v \<and>
         fold lsm_apply [LPut k v, LFlush, LDel k, LFlush] Map.empty k = None"
proof -
  have lim: "length k < 2 ^ 32" "length v < 2 ^ 32" using assms(6) by (simp_all add: memTableSizeLimit_def)
  have e0: "en_memtable e0 = newMemTable" "en_l0 e0 = []" "en_fs e0 = fs"
    using assms(1) by (auto simp: Engine_Open_def)
  obtain e1 where e1: "Engine_Put k v e0 = (None, e1)" "mt_data (en_memtable e1) = [(k, v)]"
      "mt_size (en_memtable e1) = length k + length v" "en_l0 e1 = []" "en_fs e1 = fs"
    using assms(6) e0
    by (simp add: Engine_Put_def maybeFlush_def MemTable_bytesUsed_def MemTable_put_def newMemTable_def)
  have i1: "engine_inv e1"
    using lsm_exec_inv(1) [of e0 "LPut k v"] Engine_Open_inv(1) [OF assms(1)] lim assms(5) e1(1) by simp
  obtain r2 e2 where f2: "flush_memtable e1 = (r2, e2)" by (metis prod.exhaust)
  note t2 = flush_memtable_tables [OF i1 f2] and i2 = flush_memtable_inv(1,3) [OF i1 f2]
  have r2: "r2 = None" "fs_faults (en_fs e2) = []" using t2(5) e1(5) assms(3) by simp_all
  obtain a where a: "en_l0 e2 = [a]" "en_memtable e2 = newMemTable" "table_entries (en_fs e2) a = [(k, v)]"
    using t2(1) [OF r2(1)] e1(2,4) by (auto simp: MemTable_sorted_def)
  obtain e3 where e3: "Engine_Delete k e2 = (None, e3)" "mt_data (en_memtable e3) = [(k, tombstone)]"
      "mt_size (en_memtable e3) = length k + 10" "en_l0 e3 = [a]" "en_fs e3 = en_fs e2"
    using assms(6) a(1,2)
    by (simp add: Engine_Delete_def maybeFlush_def MemTable_bytesUsed_def MemTable_delete_def newMemTable_def
        length_tombstone)
  have i3: "engine_inv e3" using lsm_exec_inv(1) [of e2 "LDel k"] i2(1) lim e3(1) by simp
  obtain r4 e4 where f4: "flush_memtable e3 = (r4, e4)" by (metis prod.exhaust)
  note t4 = flush_memtable_tables [OF i3 f4] and i4 = flush_memtable_inv(1,3) [OF i3 f4]
  have r4: "r4 = None" using t4(5) e3(5) r2(2) by simp
  obtain b where b: "en_l0 e4 = [a, b]" "en_memtable e4 = newMemTable" "table_entries (en_fs e4) b = [(k, tombstone)]"
    using t4(1) [OF r4] e3(2,4) by (auto simp: MemTable_sorted_def)
  have run: "errs = [None, None, None, None]" "e = e4"
    using assms(4,7) e1 e3 f2 f4 r2(1) r4 by (simp_all add: Engine_Flush_def MemTable_bytesUsed_def)
  have ok: "table_ok (en_fs e4) a" "table_ok (en_fs e4) b" "\<forall>p. \<not> fs_unreadable (en_fs e4) p"
    using i4 i2(2) b(1) e3(5) e1(5) assms(2) by (simp_all add: engine_inv_def)
  have "table_entries (en_fs e4) a = [(k, v)]" using t4(4) [of a] e3(4,5) a(3) by simp
  then have "Engine_Get k e4 = Some v"
    using ok b assms(5) by (simp add: Engine_Get_def newMemTable_def SSTable_get_ok live_def)
  then show ?thesis using run by simp
qed

theorem lsm_flushed_delete_resurrects_witness:
  "Engine_Get [107] (snd (lsm_run [LPut [107] [118], LFlush, LDel [107], LFlush] (fresh_engine []))) = Some [118]"
proof -
  have "[118] \<noteq> tombstone" "length [107 :: byte] + length [118 :: byte] + 10 < memTableSizeLimit"
    by (simp_all add: tombstone_def memTableSizeLimit_def)
  then show ?thesis
    using lsm_flushed_delete_resurrects [OF fresh_engine_Open [of "[]"] _ _ _ _ _ prod.collapse [symmetric],
        of "[107]" "[118]"]
    by (simp del: lsm_run.simps add: fresh_engine_def)
qed



end
