(* ===== verification/Go_Text.thy ===== *)
theory Go_Text
  imports KV_Prelude
begin

text \<open>
  Text as the server and the JSON encoder handle it: UTF-8 decoding (package \<^verbatim>\<open>unicode/utf8\<close>),
  \<^verbatim>\<open>strings.Fields\<close>, \<^verbatim>\<open>strings.ToUpper\<close>, \<^verbatim>\<open>strings.ReplaceAll\<close> and \<^verbatim>\<open>strconv.Quote\<close> (fmt's
  \<^verbatim>\<open>%q\<close>).

  A rune is its code point. An invalid byte decodes to \<open>RuneError\<close> with width 1. The case and
  printability tables of package \<^verbatim>\<open>unicode\<close> for code points above Latin-1 are data of the Go
  distribution; they are the record \<open>unicode_tables\<close>, an argument of the functions that use them.
\<close>

section \<open>UTF-8\<close>

definition RuneError :: nat where
  "RuneError = 65533"

definition is_cont :: "byte \<Rightarrow> bool" where
  "is_cont b \<longleftrightarrow> 128 \<le> unat b \<and> unat b \<le> 191"

text \<open>The rune at the head of a non-empty string and its width.\<close>

definition DecodeRune :: "bytes \<Rightarrow> nat \<times> nat" where
  "DecodeRune s =
     (case s of
        [] \<Rightarrow> (RuneError, 0)
      | a # r \<Rightarrow>
          (let x = unat a
           in if x < 128 then (x, 1)
              else if 194 \<le> x \<and> x \<le> 223 then
                (case r of
                   b # _ \<Rightarrow> (if is_cont b then ((x - 192) * 64 + (unat b - 128), 2) else (RuneError, 1))
                 | _ \<Rightarrow> (RuneError, 1))
              else if 224 \<le> x \<and> x \<le> 239 then
                (case r of
                   b # c # _ \<Rightarrow>
                     (if is_cont b \<and> (x = 224 \<longrightarrow> 160 \<le> unat b) \<and> (x = 237 \<longrightarrow> unat b \<le> 159) \<and> is_cont c
                      then ((x - 224) * 4096 + (unat b - 128) * 64 + (unat c - 128), 3)
                      else (RuneError, 1))
                 | _ \<Rightarrow> (RuneError, 1))
              else if 240 \<le> x \<and> x \<le> 244 then
                (case r of
                   b # c # d # _ \<Rightarrow>
                     (if is_cont b \<and> (x = 240 \<longrightarrow> 144 \<le> unat b) \<and> (x = 244 \<longrightarrow> unat b \<le> 143) \<and>
                         is_cont c \<and> is_cont d
                      then ((x - 240) * 262144 + (unat b - 128) * 4096 + (unat c - 128) * 64 + (unat d - 128), 4)
                      else (RuneError, 1))
                 | _ \<Rightarrow> (RuneError, 1))
              else (RuneError, 1)))"

definition EncodeRune :: "nat \<Rightarrow> bytes" where
  "EncodeRune r =
     (let r = (if r \<le> 1114111 \<and> \<not> (55296 \<le> r \<and> r \<le> 57343) then r else RuneError)
      in if r < 128 then [word_of_nat r]
         else if r < 2048 then [word_of_nat (192 + r div 64), word_of_nat (128 + r mod 64)]
         else if r < 65536 then
           [word_of_nat (224 + r div 4096), word_of_nat (128 + r div 64 mod 64), word_of_nat (128 + r mod 64)]
         else
           [word_of_nat (240 + r div 262144), word_of_nat (128 + r div 4096 mod 64),
            word_of_nat (128 + r div 64 mod 64), word_of_nat (128 + r mod 64)])"

text \<open>The loop \<^verbatim>\<open>for i, r := range s\<close>: each rune with the bytes it was decoded from.\<close>

lemma DecodeRune_width:
  "s \<noteq> [] \<Longrightarrow> 1 \<le> snd (DecodeRune s) \<and> snd (DecodeRune s) \<le> length s"
  by (cases s) (auto simp: DecodeRune_def Let_def split: list.splits)

function runes :: "bytes \<Rightarrow> (nat \<times> bytes) list" where
  "runes s =
     (if s = [] then []
      else case DecodeRune s of (r, n) \<Rightarrow> (r, take n s) # runes (drop n s))"
  by pat_completeness auto
termination
proof (relation "measure length", goal_cases)
  case (2 s x n)
  then have "n = snd (DecodeRune s)" by (metis snd_conv)
  with 2 show ?case using DecodeRune_width [of s] by (cases s) auto
qed simp

declare runes.simps [simp del]

section \<open>strings.Fields\<close>

text \<open>\<^verbatim>\<open>unicode.IsSpace\<close>: the White_Space property.\<close>

definition IsSpace :: "nat \<Rightarrow> bool" where
  "IsSpace r \<longleftrightarrow>
     (9 \<le> r \<and> r \<le> 13) \<or> r \<in> {32, 133, 160, 5760, 8232, 8233, 8239, 8287, 12288} \<or>
     (8192 \<le> r \<and> r \<le> 8202)"

text \<open>The maximal runs of runes that are no space; \<open>cur\<close> is the run being read.\<close>

fun fields_runes :: "bytes \<Rightarrow> (nat \<times> bytes) list \<Rightarrow> bytes list" where
  "fields_runes cur [] = (if cur = [] then [] else [cur])"
| "fields_runes cur ((r, raw) # rs) =
     (if IsSpace r then (if cur = [] then fields_runes [] rs else cur # fields_runes [] rs)
      else fields_runes (cur @ raw) rs)"

definition Fields :: "bytes \<Rightarrow> bytes list" where
  "Fields s = fields_runes [] (runes s)"

section \<open>Case, replacement, quoting\<close>

record unicode_tables =
  uni_upper :: "nat \<Rightarrow> nat"
  uni_print :: "nat \<Rightarrow> bool"

definition ToUpper_rune :: "unicode_tables \<Rightarrow> nat \<Rightarrow> nat" where
  "ToUpper_rune U r =
     (if r < 128 then (if 97 \<le> r \<and> r \<le> 122 then r - 32 else r) else uni_upper U r)"

definition ToUpper :: "unicode_tables \<Rightarrow> bytes \<Rightarrow> bytes" where
  "ToUpper U s = concat (map (\<lambda>(r, raw). EncodeRune (ToUpper_rune U r)) (runes s))"

text \<open>\<^verbatim>\<open>strings.ReplaceAll(s, "\r\n", " ")\<close>.\<close>

fun replace_crlf :: "bytes \<Rightarrow> bytes" where
  "replace_crlf (a # b # s) = (if a = 13 \<and> b = 10 then 32 # replace_crlf s else a # replace_crlf (b # s))"
| "replace_crlf s = s"

definition hex_digit :: "nat \<Rightarrow> byte" where
  "hex_digit d = (if d < 10 then word_of_nat (48 + d) else word_of_nat (87 + d))"

fun hex :: "nat \<Rightarrow> nat \<Rightarrow> bytes" where
  "hex 0 n = []"
| "hex (Suc w) n = hex w (n div 16) @ [hex_digit (n mod 16)]"

definition IsPrint :: "unicode_tables \<Rightarrow> nat \<Rightarrow> bool" where
  "IsPrint U r =
     (if r \<le> 255 then (32 \<le> r \<and> r < 127) \<or> (161 \<le> r \<and> r \<noteq> 173) else uni_print U r)"

definition quote_rune :: "unicode_tables \<Rightarrow> nat \<Rightarrow> bytes" where
  "quote_rune U r =
     (if r = 34 \<or> r = 92 then [92, word_of_nat r]
      else if IsPrint U r then EncodeRune r
      else if r = 7 then str [CHR 0x5C, CHR ''a'']
      else if r = 8 then str [CHR 0x5C, CHR ''b'']
      else if r = 12 then str [CHR 0x5C, CHR ''f'']
      else if r = 10 then str [CHR 0x5C, CHR ''n'']
      else if r = 13 then str [CHR 0x5C, CHR ''r'']
      else if r = 9 then str [CHR 0x5C, CHR ''t'']
      else if r = 11 then str [CHR 0x5C, CHR ''v'']
      else if r < 32 \<or> r = 127 then str [CHR 0x5C, CHR ''x''] @ hex 2 r
      else if r < 65536 then str [CHR 0x5C, CHR ''u''] @ hex 4 r
      else str [CHR 0x5C, CHR ''U''] @ hex 8 r)"

definition Quote :: "unicode_tables \<Rightarrow> bytes \<Rightarrow> bytes" where
  "Quote U s =
     [34] @
     concat (map (\<lambda>(r, raw).
       if r = RuneError \<and> length raw = 1 then str [CHR 0x5C, CHR ''x''] @ hex 2 (unat (hd raw))
       else quote_rune U r) (runes s))
     @ [34]"

section \<open>Lemmas\<close>

lemma runes_Nil [simp]: "runes [] = []"
  by (simp add: runes.simps)

text \<open>Decoding splits the string: no byte is lost.\<close>

lemma concat_runes: "concat (map snd (runes s)) = s"
proof (induction s rule: runes.induct)
  case (1 s)
  then show ?case by (cases "DecodeRune s") (simp add: runes.simps [of s])
qed

text \<open>An ASCII byte is never part of a longer rune, so it separates what is around it.\<close>

lemma DecodeRune_ascii_after:
  assumes "unat b < 128" and "s \<noteq> []"
  shows "DecodeRune (s @ b # t) = DecodeRune s"
proof -
  have "\<not> is_cont b" using assms(1) by (simp add: is_cont_def)
  then show ?thesis
    using assms(2) by (cases s) (auto simp: DecodeRune_def Let_def split: list.splits)
qed

lemma runes_ascii [simp]:
  "unat b < 128 \<Longrightarrow> runes (b # t) = (unat b, [b]) # runes t"
  by (simp add: runes.simps [of "b # t"] DecodeRune_def)

lemma runes_append_ascii:
  assumes "unat b < 128"
  shows "runes (s @ b # t) = runes s @ runes (b # t)"
proof (induction s rule: runes.induct)
  case (1 s)
  show ?case
  proof (cases "s = []")
    case False
    obtain r n where d: "DecodeRune s = (r, n)" by (metis prod.exhaust)
    then have d': "DecodeRune (s @ b # t) = (r, n)" using DecodeRune_ascii_after assms False by simp
    have n: "n \<le> length s" using DecodeRune_width [OF False] d by simp
    have "runes (s @ b # t) = (r, take n s) # runes (drop n s @ b # t)"
      using d' n by (simp add: runes.simps [of "s @ b # t"])
    also have "runes (drop n s @ b # t) = runes (drop n s) @ runes (b # t)"
      using 1 [OF False d [symmetric]] .
    finally show ?thesis using d False by (simp add: runes.simps [of s])
  qed simp
qed

lemma list_all_ascii_runes:
  "list_all (\<lambda>b. unat b < 128) s \<Longrightarrow> runes s = map (\<lambda>b. (unat b, [b])) s"
  by (induction s) simp_all

text \<open>A word: a non-empty string without a space in it.\<close>

definition is_word :: "bytes \<Rightarrow> bool" where
  "is_word s \<longleftrightarrow> s \<noteq> [] \<and> list_all (\<lambda>(r, raw). \<not> IsSpace r) (runes s)"

lemma fields_runes_word:
  "list_all (\<lambda>(r, raw). \<not> IsSpace r) rs \<Longrightarrow>
     fields_runes cur (rs @ rest) = fields_runes (cur @ concat (map snd rs)) rest"
  by (induction rs arbitrary: cur) auto

lemma Fields_word_space:
  assumes "is_word w" and "unat b < 128" and "IsSpace (unat b)"
  shows "Fields (w @ b # t) = w # Fields t"
  using assms by (simp add: Fields_def runes_append_ascii is_word_def fields_runes_word concat_runes)

lemma Fields_word:
  assumes "is_word w" shows "Fields w = [w]"
  using fields_runes_word [of "runes w" "[]" "[]"] assms by (simp add: Fields_def is_word_def concat_runes)

lemma Fields_Nil [simp]: "Fields [] = []"
  by (simp add: Fields_def)

lemma is_word_ascii:
  assumes "s \<noteq> []" and "list_all (\<lambda>b. 33 \<le> unat b \<and> unat b < 127) s"
  shows "is_word s"
proof -
  have "list_all (\<lambda>b. unat b < 128) s" using assms(2) by (rule list.pred_mono_strong) simp
  then have "runes s = map (\<lambda>b. (unat b, [b])) s" by (rule list_all_ascii_runes)
  then show ?thesis using assms by (auto simp: is_word_def list_all_iff IsSpace_def)
qed

text \<open>A word holds no ASCII space, in particular no line break.\<close>

lemma is_word_no_ascii_space:
  assumes "is_word w" and "unat b < 128" and "IsSpace (unat b)"
  shows "b \<notin> set w"
proof
  assume "b \<in> set w"
  then obtain u v where "w = u @ b # v" by (meson split_list)
  then show False using assms by (simp add: is_word_def runes_append_ascii)
qed

lemma fmt_d_is_word: "is_word (fmt_d n)"
proof (rule is_word_ascii)
  show "list_all (\<lambda>b. 33 \<le> unat b \<and> unat b < 127) (fmt_d n)"
    using fmt_d_digits [of n] by (auto simp: list_all_iff is_digit_def word_le_nat_alt)
qed simp

lemma ToUpper_ascii:
  assumes "list_all (\<lambda>b. unat b < 128) s"
  shows "ToUpper U s = map (\<lambda>b. if 97 \<le> unat b \<and> unat b \<le> 122 then b - 32 else b) s"
  using assms
proof (induction s)
  case (Cons b s)
  have "EncodeRune r = [word_of_nat r]" if "r < 128" for r using that by (simp add: EncodeRune_def)
  moreover have "word_of_nat (unat b - 32) = b - 32" if "97 \<le> unat b"
    using that by (simp add: of_nat_diff)
  ultimately show ?case using Cons by (auto simp: ToUpper_def ToUpper_rune_def of_nat_diff)
qed (simp add: ToUpper_def)

text \<open>After the replacement no line terminator is left inside a message.\<close>

lemma replace_crlf_hd: "s \<noteq> [] \<Longrightarrow> hd s \<noteq> 10 \<Longrightarrow> replace_crlf s \<noteq> [] \<and> hd (replace_crlf s) \<noteq> 10"
  by (cases s rule: replace_crlf.cases) auto

lemma replace_crlf_no_crlf: "replace_crlf s \<noteq> u @ 13 # 10 # v"
proof (induction s arbitrary: u v rule: replace_crlf.induct)
  case (1 a b s)
  show ?case
  proof (cases "a = 13 \<and> b = 10")
    case True
    then show ?thesis using 1(1) by (cases u) auto
  next
    case False
    have "hd (replace_crlf (b # s)) = b \<or> hd (replace_crlf (b # s)) = 32"
      by (cases s) auto
    then show ?thesis
      using False 1(2) [OF False] by (cases u) (auto dest: sym)
  qed
qed auto

end
