(* ===== verification/Server.thy ===== *)
theory Server
  imports KV_Interface Go_IO Go_Text
begin

text \<open>
  \<^verbatim>\<open>internal/server/server.go\<close>: the line protocol over one connection, for any store behind the
  interface of \<^theory_text>\<open>KV_Interface\<close>.

  A connection is the bytes that will still arrive (a disconnect or a read deadline that fires
  ends them: every read error closes the connection), the outcomes of the next
  \<^verbatim>\<open>SetReadDeadline\<close> calls (none listed: they succeed), and the buffered writer to the client,
  whose script of outcomes covers every failure to send. \<open>errtext\<close> is the text of an error of the
  store.
\<close>

section \<open>Constants and the server object\<close>

definition defaultIdleTimeout :: int where
  "defaultIdleTimeout = 30 * 1000000000"

definition maxLineSize :: nat where
  "maxLineSize = 64 * 1024"

definition maxValueSize :: nat where
  "maxValueSize = 16 * 1024 * 1024"

record ('s, 'e) Server =
  srv_store :: "('s, 'e) KVStore"
  srv_listener :: "listener option"
  srv_IdleTimeout :: int

definition Server_New :: "('s, 'e) KVStore \<Rightarrow> ('s, 'e) Server" where
  "Server_New kv = \<lparr>srv_store = kv, srv_listener = None, srv_IdleTimeout = 0\<rparr>"

definition Server_idleTimeout :: "('s, 'e) Server \<Rightarrow> int" where
  "Server_idleTimeout srv = (if srv_IdleTimeout srv > 0 then srv_IdleTimeout srv else defaultIdleTimeout)"

definition Server_Serve ::
  "listener \<Rightarrow> 'c option list \<Rightarrow> ('s, 'e) Server \<Rightarrow> ('c list \<times> bool) \<times> ('s, 'e) Server" where
  "Server_Serve ln accepts srv = (accept_loop accepts, srv\<lparr>srv_listener := Some ln\<rparr>)"

text \<open>\<open>listen\<close>: what \<^verbatim>\<open>net.Listen\<close> returned.\<close>

definition Server_ListenAndServe ::
  "listener option \<Rightarrow> 'c option list \<Rightarrow> ('s, 'e) Server \<Rightarrow> ('c list \<times> bool) \<times> ('s, 'e) Server" where
  "Server_ListenAndServe listen accepts srv =
     (case listen of None \<Rightarrow> (([], True), srv) | Some ln \<Rightarrow> Server_Serve ln accepts srv)"

definition Server_Addr :: "('s, 'e) Server \<Rightarrow> bytes option" where
  "Server_Addr srv = map_option ln_addr (srv_listener srv)"

definition Server_Close :: "('s, 'e) Server \<Rightarrow> bool \<times> ('s, 'e) Server" where
  "Server_Close srv =
     (case srv_listener srv of
        None \<Rightarrow> (True, srv)
      | Some ln \<Rightarrow> (\<not> ln_closed ln, srv\<lparr>srv_listener := Some (ln\<lparr>ln_closed := True\<rparr>)\<rparr>))"

section \<open>One connection\<close>

record conn_io =
  io_in :: bytes
  io_deadlines :: "bool list"
  io_w :: bwriter

definition SetReadDeadline :: "conn_io \<Rightarrow> bool \<times> conn_io" where
  "SetReadDeadline io =
     (case io_deadlines io of [] \<Rightarrow> (True, io) | b # bs \<Rightarrow> (b, io\<lparr>io_deadlines := bs\<rparr>))"

text \<open>\<^verbatim>\<open>fmt.Fprint(w, p)\<close> and \<^verbatim>\<open>w.Write(p)\<close>, their results ignored.\<close>

definition out :: "bytes \<Rightarrow> conn_io \<Rightarrow> conn_io" where
  "out p io = io\<lparr>io_w := snd (bufio_Write p (io_w io))\<rparr>"

definition CRLF :: bytes where
  "CRLF = [13, 10]"

fun readLine_loop :: "nat \<Rightarrow> bytes \<Rightarrow> bytes \<Rightarrow> bytes option \<times> bytes" where
  "readLine_loop maxSize line [] = (None, [])"
| "readLine_loop maxSize line (b # r) =
     (if b = 10 then (Some line, r)
      else if length (line @ [b]) > maxSize then (None, r)
      else readLine_loop maxSize (line @ [b]) r)"

definition readLine :: "nat \<Rightarrow> bytes \<Rightarrow> bytes option \<times> bytes" where
  "readLine maxSize r =
     (case readLine_loop maxSize [] r of
        (None, r) \<Rightarrow> (None, r)
      | (Some line, r) \<Rightarrow> (Some (if line \<noteq> [] \<and> last line = 13 then butlast line else line), r))"

definition writeErr :: "bytes \<Rightarrow> conn_io \<Rightarrow> conn_io" where
  "writeErr msg io = out (str ''-ERR '' @ replace_crlf msg @ CRLF) io"

definition handlePut ::
  "unicode_tables \<Rightarrow> ('s, 'e) KVStore \<Rightarrow> ('e \<Rightarrow> bytes) \<Rightarrow> bytes list \<Rightarrow> 's \<Rightarrow> conn_io \<Rightarrow> bool \<times> 's \<times> conn_io" where
  "handlePut U kv errtext args s io =
     (if length args \<noteq> 3 then
        (False, s, writeErr (str ''PUT requires <key> <valueLen>, got '' @ fmt_d (length args - 1) @ str '' args'') io)
      else
        (case Atoi (args ! 2) of
           None \<Rightarrow> (False, s, writeErr (str ''invalid value length '' @ Quote U (args ! 2)) io)
         | Some n \<Rightarrow>
             (if n < 0 then (False, s, writeErr (str ''invalid value length '' @ Quote U (args ! 2)) io)
              else if n > int maxValueSize then
                (True, s, writeErr (str ''value length '' @ fmt_d (nat n) @ str '' exceeds max '' @ fmt_d maxValueSize) io)
              else case SetReadDeadline io of
                (False, io) \<Rightarrow> (True, s, io)
              | (True, io) \<Rightarrow>
                  (case ReadFull (nat n) (io_in io) of
                     (Inl _, r) \<Rightarrow> (True, s, io\<lparr>io_in := r\<rparr>)
                   | (Inr value, r) \<Rightarrow>
                       (case ReadFull 2 r of
                          (term, r) \<Rightarrow>
                            (if term \<noteq> Inr CRLF then
                               (True, s, writeErr (str ''malformed PUT terminator'') (io\<lparr>io_in := r\<rparr>))
                             else case kv_Put kv (args ! 1) value s of
                               (Some e, s) \<Rightarrow> (False, s, writeErr (str ''put failed: '' @ errtext e) (io\<lparr>io_in := r\<rparr>))
                             | (None, s) \<Rightarrow> (False, s, out (str ''+OK'' @ CRLF) (io\<lparr>io_in := r\<rparr>))))))))"

definition handleGet :: "('s, 'e) KVStore \<Rightarrow> bytes list \<Rightarrow> 's \<Rightarrow> conn_io \<Rightarrow> conn_io" where
  "handleGet kv args s io =
     (if length args \<noteq> 2 then
        writeErr (str ''GET requires exactly 1 arg, got '' @ fmt_d (length args - 1)) io
      else
        (case kv_Get kv (args ! 1) s of
           None \<Rightarrow> out (str ''$-1'' @ CRLF) io
         | Some v \<Rightarrow> out CRLF (out v (out (str ''$'' @ fmt_d (length v) @ CRLF) io))))"

definition handleDel ::
  "('s, 'e) KVStore \<Rightarrow> ('e \<Rightarrow> bytes) \<Rightarrow> bytes list \<Rightarrow> 's \<Rightarrow> conn_io \<Rightarrow> 's \<times> conn_io" where
  "handleDel kv errtext args s io =
     (if length args \<noteq> 2 then
        (s, writeErr (str ''DEL requires exactly 1 arg, got '' @ fmt_d (length args - 1)) io)
      else
        (case kv_Delete kv (args ! 1) s of
           (Some e, s) \<Rightarrow> (s, writeErr (str ''delete failed: '' @ errtext e) io)
         | (None, s) \<Rightarrow> (s, out (str ''+OK'' @ CRLF) io)))"

text \<open>The \<^verbatim>\<open>switch\<close> of \<^verbatim>\<open>handleConn\<close>; the flag is \<^verbatim>\<open>fatal\<close>.\<close>

definition handleCommand ::
  "unicode_tables \<Rightarrow> ('s, 'e) KVStore \<Rightarrow> ('e \<Rightarrow> bytes) \<Rightarrow> bytes list \<Rightarrow> 's \<Rightarrow> conn_io \<Rightarrow> bool \<times> 's \<times> conn_io" where
  "handleCommand U kv errtext args s io =
     (let cmd = ToUpper U (hd args)
      in if cmd = str ''PUT'' then handlePut U kv errtext args s io
         else if cmd = str ''GET'' then (False, s, handleGet kv args s io)
         else if cmd = str ''DEL'' then
           (case handleDel kv errtext args s io of (s, io) \<Rightarrow> (False, s, io))
         else (False, s, writeErr (str ''unknown command '' @ Quote U cmd) io))"

subsection \<open>Progress of the reader\<close>

lemma readLine_loop_shrinks:
  "readLine_loop m line r = (Some l, r') \<Longrightarrow> length r' < length r"
  by (induction m line r rule: readLine_loop.induct) (auto split: if_splits)

lemma readLine_shrinks: "readLine m r = (Some l, r') \<Longrightarrow> length r' < length r"
  by (auto simp: readLine_def split: option.splits prod.splits dest: readLine_loop_shrinks)

lemma out_simps [simp]:
  "io_in (out p io) = io_in io" "io_deadlines (out p io) = io_deadlines io"
  "io_in (writeErr msg io) = io_in io" "io_deadlines (writeErr msg io) = io_deadlines io"
  by (simp_all add: out_def writeErr_def)

lemma SetReadDeadline_in: "SetReadDeadline io = (b, io') \<Longrightarrow> io_in io' = io_in io \<and> io_w io' = io_w io"
  by (auto simp: SetReadDeadline_def split: list.splits)

lemma ReadFull_length: "ReadFull n r = (x, r') \<Longrightarrow> length r' \<le> length r"
  by (auto simp: ReadFull_def split: if_splits)

lemma handlePut_in:
  "handlePut U kv errtext args s io = (f, s', io') \<Longrightarrow> length (io_in io') \<le> length (io_in io)"
  by (auto simp: handlePut_def split: if_splits option.splits bool.splits sum.splits prod.splits
      dest!: SetReadDeadline_in ReadFull_length)

lemma handleGet_in: "io_in (handleGet kv args s io) = io_in io"
  by (simp add: handleGet_def split: option.splits)

lemma handleDel_in: "handleDel kv errtext args s io = (s', io') \<Longrightarrow> io_in io' = io_in io"
  by (auto simp: handleDel_def split: if_splits option.splits prod.splits)

lemma handleCommand_in:
  "handleCommand U kv errtext args s io = (f, s', io') \<Longrightarrow> length (io_in io') \<le> length (io_in io)"
  by (auto simp: handleCommand_def Let_def handleGet_in split: if_splits prod.splits
      dest: handlePut_in handleDel_in)

text \<open>Every turn of the loop reads at least a line break, so it ends with its input.\<close>

function handleConn ::
  "unicode_tables \<Rightarrow> ('s, 'e) KVStore \<Rightarrow> ('e \<Rightarrow> bytes) \<Rightarrow> 's \<Rightarrow> conn_io \<Rightarrow> 's \<times> conn_io" where
  "handleConn U kv errtext s io =
     (case SetReadDeadline io of
        (False, io) \<Rightarrow> (s, io)
      | (True, io) \<Rightarrow>
          (case readLine maxLineSize (io_in io) of
             (None, r) \<Rightarrow> (s, io\<lparr>io_in := r\<rparr>)
           | (Some line, r) \<Rightarrow>
               (if Fields line = [] then handleConn U kv errtext s (io\<lparr>io_in := r\<rparr>)
                else case handleCommand U kv errtext (Fields line) s (io\<lparr>io_in := r\<rparr>) of
                  (fatal, s, io) \<Rightarrow>
                    (case bufio_Flush (io_w io) of
                       (ok, w) \<Rightarrow>
                         (if \<not> ok \<or> fatal then (s, io\<lparr>io_w := w\<rparr>)
                          else handleConn U kv errtext s (io\<lparr>io_w := w\<rparr>))))))"
  by pat_completeness auto
termination
proof (relation "measure (\<lambda>(U, kv, errtext, s, io). length (io_in io))", goal_cases)
  case (2 U kv errtext s io a io1 b r line)
  then show ?case
    using readLine_shrinks [of maxLineSize "io_in io1" line r] SetReadDeadline_in [of io True io1] by simp
next
  case (3 U kv errtext s io a io1 b r line fatal c s1 io2 ok w)
  then show ?case
    using readLine_shrinks [of maxLineSize "io_in io1" line r] SetReadDeadline_in [of io True io1]
      handleCommand_in [of U kv errtext "Fields line" s "io1\<lparr>io_in := r\<rparr>" fatal s1 io2] by simp
qed simp

declare handleConn.simps [simp del]

end
