(* ===== verification/Server_Correct.thy ===== *)
theory Server_Correct
  imports Server
begin

text \<open>
  Correctness of the connection loop of \<^theory_text>\<open>Server\<close>: requests and replies as a specification,
  what a well-formed request does, and the properties of whole connections: pipelining, clients
  that disappear in the middle of a request, arbitrary bytes.
\<close>

section \<open>Specification\<close>

datatype request = ReqPut bytes bytes | ReqGet bytes | ReqDel bytes

fun request_line :: "request \<Rightarrow> bytes" where
  "request_line (ReqPut k v) = str ''PUT'' @ 32 # k @ 32 # fmt_d (length v)"
| "request_line (ReqGet k) = str ''GET'' @ 32 # k"
| "request_line (ReqDel k) = str ''DEL'' @ 32 # k"

fun request_body :: "request \<Rightarrow> bytes" where
  "request_body (ReqPut k v) = v @ CRLF"
| "request_body _ = []"

definition encode_request :: "request \<Rightarrow> bytes" where
  "encode_request q = request_line q @ 13 # 10 # request_body q"

definition encode_requests :: "request list \<Rightarrow> bytes" where
  "encode_requests qs = concat (map encode_request qs)"

fun request_key :: "request \<Rightarrow> bytes" where
  "request_key (ReqPut k v) = k"
| "request_key (ReqGet k) = k"
| "request_key (ReqDel k) = k"

text \<open>A request the protocol can carry: its key is a word, its line and its value are in bounds.\<close>

definition request_ok :: "request \<Rightarrow> bool" where
  "request_ok q \<longleftrightarrow>
     is_word (request_key q) \<and> length (request_line q) < maxLineSize \<and>
     (case q of ReqPut k v \<Rightarrow> length v \<le> maxValueSize | _ \<Rightarrow> True)"

definition err_reply :: "bytes \<Rightarrow> bytes" where
  "err_reply msg = str ''-ERR '' @ replace_crlf msg @ CRLF"

definition value_reply :: "bytes option \<Rightarrow> bytes" where
  "value_reply x =
     (case x of None \<Rightarrow> str ''$-1'' @ CRLF | Some v \<Rightarrow> str ''$'' @ fmt_d (length v) @ CRLF @ v @ CRLF)"

definition ack_reply :: "('e \<Rightarrow> bytes) \<Rightarrow> string \<Rightarrow> 'e option \<Rightarrow> bytes" where
  "ack_reply errtext what r =
     (case r of None \<Rightarrow> str ''+OK'' @ CRLF | Some e \<Rightarrow> err_reply (str what @ errtext e))"

text \<open>One request executed on the store directly: its reply and the store after it.\<close>

fun serve_one :: "('s, 'e) KVStore \<Rightarrow> ('e \<Rightarrow> bytes) \<Rightarrow> request \<Rightarrow> 's \<Rightarrow> bytes \<times> 's" where
  "serve_one kv errtext (ReqPut k v) s =
     (case kv_Put kv k v s of (r, s) \<Rightarrow> (ack_reply errtext ''put failed: '' r, s))"
| "serve_one kv errtext (ReqGet k) s = (value_reply (kv_Get kv k s), s)"
| "serve_one kv errtext (ReqDel k) s =
     (case kv_Delete kv k s of (r, s) \<Rightarrow> (ack_reply errtext ''delete failed: '' r, s))"

fun serve_spec :: "('s, 'e) KVStore \<Rightarrow> ('e \<Rightarrow> bytes) \<Rightarrow> request list \<Rightarrow> 's \<Rightarrow> bytes \<times> 's" where
  "serve_spec kv errtext [] s = ([], s)"
| "serve_spec kv errtext (q # qs) s =
     (case serve_one kv errtext q s of
        (p, s) \<Rightarrow> (case serve_spec kv errtext qs s of (ps, s) \<Rightarrow> (p @ ps, s)))"

section \<open>Lemmas: lines\<close>

lemma readLine_loop_line:
  "10 \<notin> set l \<Longrightarrow> length acc + length l \<le> m \<Longrightarrow> readLine_loop m acc (l @ 10 # r) = (Some (acc @ l), r)"
  by (induction l arbitrary: acc) auto

lemma readLine_loop_partial:
  "10 \<notin> set l \<Longrightarrow> \<exists>r. readLine_loop m acc l = (None, r)"
  by (induction l arbitrary: acc) auto

lemma readLine_line:
  assumes "10 \<notin> set l" and "length l < m"
  shows "readLine m (l @ 13 # 10 # r) = (Some l, r)"
  using readLine_loop_line [of "l @ [13]" "[]" m r] assms by (simp add: readLine_def)

lemma readLine_partial:
  assumes "10 \<notin> set l"
  shows "\<exists>r. readLine m l = (None, r)"
  using readLine_loop_partial [OF assms, of m "[]"] by (auto simp: readLine_def)

lemma readLine_loop_bound:
  "readLine_loop m acc r = (Some l, r') \<Longrightarrow> length acc \<le> m \<Longrightarrow> length l \<le> m"
  by (induction m acc r rule: readLine_loop.induct) (auto split: if_splits)

lemma readLine_bound: "readLine m r = (Some l, r') \<Longrightarrow> length l \<le> m"
  by (auto simp: readLine_def split: option.splits prod.splits dest!: readLine_loop_bound)

lemma command_words:
  "is_word (str ''PUT'')" "is_word (str ''GET'')" "is_word (str ''DEL'')"
  by (rule is_word_ascii; simp add: str_def)+

lemma command_upper:
  "ToUpper U (str ''PUT'') = str ''PUT''" "ToUpper U (str ''GET'') = str ''GET''"
  "ToUpper U (str ''DEL'') = str ''DEL''"
  by (subst ToUpper_ascii; simp add: str_def)+

lemma command_distinct:
  "str ''GET'' \<noteq> str ''PUT''" "str ''DEL'' \<noteq> str ''PUT''" "str ''DEL'' \<noteq> str ''GET''"
  by (simp_all add: str_def)

lemma space32: "unat (32 :: byte) < 128" "IsSpace (unat (32 :: byte))"
  "unat (10 :: byte) < 128" "IsSpace (unat (10 :: byte))"
  by (simp_all add: IsSpace_def)

fun request_args :: "request \<Rightarrow> bytes list" where
  "request_args (ReqPut k v) = [str ''PUT'', k, fmt_d (length v)]"
| "request_args (ReqGet k) = [str ''GET'', k]"
| "request_args (ReqDel k) = [str ''DEL'', k]"

lemma Fields_request: "is_word (request_key q) \<Longrightarrow> Fields (request_line q) = request_args q"
  by (cases q)
    (simp_all add: Fields_word_space [OF _ space32(1,2)] Fields_word command_words fmt_d_is_word)

lemma request_line_no_lf:
  assumes "is_word (request_key q)" shows "10 \<notin> set (request_line q)"
proof -
  have "10 \<notin> set w" if "is_word w" for w using is_word_no_ascii_space [OF that space32(3,4)] .
  then show ?thesis using assms command_words fmt_d_is_word by (cases q) simp_all
qed

section \<open>Lemmas: one request\<close>

text \<open>The connection after \<open>p\<close> was printed, as the writer's contract has it.\<close>

lemma ReadFull_CRLF [simp]: "ReadFull 2 (CRLF @ r) = (Inr CRLF, r)"
  by (simp add: CRLF_def ReadFull_def)

definition sends :: "conn_io \<Rightarrow> bytes \<Rightarrow> conn_io \<Rightarrow> bool" where
  "sends io p io' \<longleftrightarrow>
     io_in io' = io_in io \<and> io_deadlines io' = io_deadlines io \<and>
     (\<not> werr (io_w io) \<longrightarrow> faults (dst (io_w io)) = [] \<longrightarrow>
        \<not> werr (io_w io') \<and> faults (dst (io_w io')) = [] \<and> logical (io_w io') = logical (io_w io) @ p)"

lemma sends_out: "sends io p (out p io)"
proof -
  obtain ok w where w: "bufio_Write p (io_w io) = (ok, w)" by (metis prod.exhaust)
  show ?thesis using bufio_Write_spec [OF w] w by (simp add: sends_def out_def)
qed

lemma sends_trans: "sends io p io1 \<Longrightarrow> sends io1 q io2 \<Longrightarrow> sends io (p @ q) io2"
  by (simp add: sends_def)

lemma sends_writeErr: "sends io (err_reply msg) (writeErr msg io)"
  by (simp add: err_reply_def writeErr_def sends_out)

lemma sends_out3: "sends io (p @ q @ r) (out r (out q (out p io)))"
  using sends_trans [OF sends_out sends_trans [OF sends_out sends_out]] by blast

lemma sends_value:
  assumes "length args = 2"
  shows "sends io (value_reply (kv_Get kv (args ! 1) s)) (handleGet kv args s io)"
proof (cases "kv_Get kv (args ! 1) s")
  case None
  then show ?thesis using assms sends_out by (simp add: handleGet_def value_reply_def)
next
  case (Some v)
  then show ?thesis
    using assms sends_out3 [of io "str ''$'' @ fmt_d (length v) @ CRLF" v CRLF]
    by (simp add: handleGet_def value_reply_def)
qed

text \<open>
  What a request that arrived completely does: the store's operation is executed and its reply
  printed, unless arming the read deadline for the value failed.
\<close>

lemma handleCommand_request:
  assumes ok: "request_ok q" and inp: "io_in io = request_body q @ rest"
    and run: "handleCommand U kv errtext (request_args q) s io = (fatal, s', io')"
  shows "(fatal \<and> s' = s \<and> io_deadlines io \<noteq> []) \<or>
    (\<not> fatal \<and> s' = snd (serve_one kv errtext q s) \<and> io_in io' = rest \<and>
     length (io_deadlines io') \<le> length (io_deadlines io) \<and>
     sends (io\<lparr>io_in := rest, io_deadlines := io_deadlines io'\<rparr>) (fst (serve_one kv errtext q s)) io')"
proof (cases q)
  case (ReqPut k v)
  have v: "length v \<le> maxValueSize" using ok ReqPut by (simp add: request_ok_def)
  have n: "Atoi (fmt_d (length v)) = Some (int (length v))"
    using v by (simp add: Atoi_fmt_d maxValueSize_def)
  obtain d io1 where d: "SetReadDeadline io = (d, io1)" by (metis prod.exhaust)
  obtain r t where p: "kv_Put kv k v s = (r, t)" by (metis prod.exhaust)
  note io1 = SetReadDeadline_in [OF d]
  have put: "(fatal, s', io') =
      (if \<not> d then (True, s, io1)
       else (False, t, case r of
          Some e \<Rightarrow> writeErr (str ''put failed: '' @ errtext e) (io1\<lparr>io_in := rest\<rparr>)
        | None \<Rightarrow> out (str ''+OK'' @ CRLF) (io1\<lparr>io_in := rest\<rparr>)))"
    using run ReqPut n v d io1 inp p
    by (cases d; cases r) (simp_all add: handleCommand_def command_upper handlePut_def Let_def)
  show ?thesis
  proof (cases d)
    case False
    then show ?thesis using put d by (auto simp: SetReadDeadline_def split: list.splits)
  next
    case True
    have dl: "length (io_deadlines io1) \<le> length (io_deadlines io)"
      using d by (auto simp: SetReadDeadline_def split: list.splits)
    have eq: "io\<lparr>io_in := rest, io_deadlines := io_deadlines io1\<rparr> = io1\<lparr>io_in := rest\<rparr>"
      using io1 by (cases io; cases io1) simp
    show ?thesis
      using put True dl eq ReqPut p sends_out [of "io1\<lparr>io_in := rest\<rparr>"] sends_writeErr [of "io1\<lparr>io_in := rest\<rparr>"]
      by (cases r) (simp_all add: ack_reply_def err_reply_def)
  qed
next
  case (ReqGet k)
  have "handleGet kv [str ''GET'', k] s io = io'" "\<not> fatal" "s' = s"
    using run ReqGet by (auto simp: handleCommand_def command_upper command_distinct Let_def)
  moreover have "sends io (value_reply (kv_Get kv k s)) (handleGet kv [str ''GET'', k] s io)"
    using sends_value [of "[str ''GET'', k]" io kv s] by simp
  moreover have "io\<lparr>io_in := rest, io_deadlines := io_deadlines io\<rparr> = io" using inp ReqGet by simp
  ultimately show ?thesis using inp ReqGet by (auto simp: sends_def)
next
  case (ReqDel k)
  obtain r t where p: "kv_Delete kv k s = (r, t)" by (metis prod.exhaust)
  have "\<not> fatal" "s' = t" "io' = (case r of
          Some e \<Rightarrow> writeErr (str ''delete failed: '' @ errtext e) io
        | None \<Rightarrow> out (str ''+OK'' @ CRLF) io)"
    using run ReqDel p
    by (cases r; simp add: handleCommand_def command_upper command_distinct handleDel_def Let_def)+
  moreover have "io\<lparr>io_in := rest, io_deadlines := io_deadlines io\<rparr> = io" using inp ReqDel by simp
  ultimately show ?thesis
    using inp ReqDel p sends_out [of io] sends_writeErr [of io]
    by (cases r) (auto simp: ack_reply_def err_reply_def sends_def)
qed

lemma handlePut_torn:
  assumes run: "handlePut U kv errtext (request_args q) s io = (fatal, s', io')" and q: "q = ReqPut k v"
    and v: "length v \<le> maxValueSize" and short: "length (io_in io) < length v + 2"
  shows "fatal \<and> s' = s"
proof -
  have n: "Atoi (fmt_d (length v)) = Some (int (length v))"
    using v by (simp add: Atoi_fmt_d maxValueSize_def)
  obtain d io1 where d: "SetReadDeadline io = (d, io1)" by (metis prod.exhaust)
  have in1: "io_in io1 = io_in io" using SetReadDeadline_in [OF d] by simp
  obtain x r where x: "ReadFull (length v) (io_in io1) = (x, r)" by (metis prod.exhaust)
  have "\<exists>e r'. ReadFull 2 r = (Inl e, r')" if "x = Inr value" for "value"
    using x that short in1 ReadFull_Inr [of "length v" "io_in io1" "value" r] ReadFull_short [of r 2] by auto
  then show ?thesis
    using run q n v d in1 x by (cases d; cases x) (auto simp: handlePut_def)
qed

section \<open>Lemmas: connections\<close>

text \<open>A connection at a request boundary on which nothing will fail.\<close>

definition healthy :: "conn_io \<Rightarrow> bool" where
  "healthy io \<longleftrightarrow>
     io_deadlines io = [] \<and> \<not> werr (io_w io) \<and> wbuf (io_w io) = [] \<and> faults (dst (io_w io)) = []"

lemma healthy_logical: "healthy io \<Longrightarrow> logical (io_w io) = content (dst (io_w io))"
  by (simp add: healthy_def logical_def)

lemma handleConn_request:
  assumes ok: "request_ok q" and inp: "io_in io = encode_request q @ rest"
  obtains (deadline) "fst (handleConn U kv errtext s io) = s" "\<not> healthy io"
    | (broken) "fst (handleConn U kv errtext s io) = snd (serve_one kv errtext q s)" "\<not> healthy io"
    | (served) io' where
        "handleConn U kv errtext s io = handleConn U kv errtext (snd (serve_one kv errtext q s)) io'"
        "io_in io' = rest"
        "healthy io \<longrightarrow> healthy io' \<and>
           content (dst (io_w io')) = content (dst (io_w io)) @ fst (serve_one kv errtext q s)"
proof -
  have wd: "is_word (request_key q)" "length (request_line q) < maxLineSize" using ok by (simp_all add: request_ok_def)
  obtain d io1 where d: "SetReadDeadline io = (d, io1)" by (metis prod.exhaust)
  note io1 = SetReadDeadline_in [OF d]
  show thesis
  proof (cases d)
    case False
    have "fst (handleConn U kv errtext s io) = s" using d False by (simp add: handleConn.simps [of U kv errtext s io])
    moreover have "\<not> healthy io"
      using d False by (auto simp: SetReadDeadline_def healthy_def split: list.splits)
    ultimately show thesis by (rule deadline)
  next
    case True
    define io2 where "io2 = io1\<lparr>io_in := request_body q @ rest\<rparr>"
    have line: "readLine maxLineSize (io_in io1) = (Some (request_line q), request_body q @ rest)"
      using readLine_line [OF request_line_no_lf [OF wd(1)] wd(2)] io1 inp by (simp add: encode_request_def)
    have ne: "request_args q \<noteq> []" by (cases q) simp_all
    obtain fatal s' io3 where c: "handleCommand U kv errtext (request_args q) s io2 = (fatal, s', io3)"
      by (metis prod_cases3)
    obtain fl w where f: "bufio_Flush (io_w io3) = (fl, w)" by (metis prod.exhaust)
    have run: "handleConn U kv errtext s io =
        (if \<not> fl \<or> fatal then (s', io3\<lparr>io_w := w\<rparr>) else handleConn U kv errtext s' (io3\<lparr>io_w := w\<rparr>))"
      using d True line ne c f
      by (simp add: handleConn.simps [of U kv errtext s io] Fields_request [OF wd(1)] io2_def)
    have in2: "io_in io2 = request_body q @ rest" by (simp add: io2_def)
    have dl: "healthy io \<Longrightarrow> io_deadlines io2 = []"
      using d by (auto simp: SetReadDeadline_def healthy_def io2_def split: list.splits)
    consider "fatal" "s' = s" "io_deadlines io2 \<noteq> []" | "\<not> fatal" "s' = snd (serve_one kv errtext q s)" "io_in io3 = rest"
        "length (io_deadlines io3) \<le> length (io_deadlines io2)"
        "sends (io2\<lparr>io_in := rest, io_deadlines := io_deadlines io3\<rparr>) (fst (serve_one kv errtext q s)) io3"
      using handleCommand_request [OF ok in2 c] by blast
    then show thesis
    proof cases
      case 1 then show thesis using run dl deadline by auto
    next
      case 2
      have w3: "\<not> werr (io_w io3) \<and> faults (dst (io_w io3)) = [] \<and>
          logical (io_w io3) = content (dst (io_w io)) @ fst (serve_one kv errtext q s)" if "healthy io"
        using 2(5) that io1 healthy_logical [OF that] by (simp add: sends_def io2_def healthy_def)
      note fc = bufio_Flush_cases [OF f]
      show thesis
      proof (cases fl)
        case False
        then have "\<not> healthy io" using w3 fc(7) by blast
        then show thesis using broken run False 2(2) by simp
      next
        case True
        have "healthy (io3\<lparr>io_w := w\<rparr>) \<and>
            content (dst w) = content (dst (io_w io)) @ fst (serve_one kv errtext q s)" if h: "healthy io"
          using w3 [OF h] dl [OF h] 2(4) fc(4) [OF True] fc(7) by (simp add: healthy_def)
        then show thesis using served [of "io3\<lparr>io_w := w\<rparr>"] run True 2(1,2,3) by simp
      qed
    qed
  qed
qed

lemma handleConn_end:
  assumes "10 \<notin> set (io_in io)"
  shows "fst (handleConn U kv errtext s io) = s"
    and "io_w (snd (handleConn U kv errtext s io)) = io_w io"
proof -
  obtain d io1 where d: "SetReadDeadline io = (d, io1)" by (metis prod.exhaust)
  note io1 = SetReadDeadline_in [OF d]
  obtain r where "readLine maxLineSize (io_in io1) = (None, r)"
    using readLine_partial [of "io_in io1"] assms io1 by auto
  then show "fst (handleConn U kv errtext s io) = s"
    and "io_w (snd (handleConn U kv errtext s io)) = io_w io"
    using d io1 by (cases d; simp add: handleConn.simps [of U kv errtext s io])+
qed

text \<open>A request that has not arrived completely does nothing to the store.\<close>

lemma handleConn_torn:
  assumes ok: "request_ok q" and inp: "io_in io = take n (encode_request q)" and n: "n < length (encode_request q)"
  shows "fst (handleConn U kv errtext s io) = s"
proof (cases "n \<le> length (request_line q) + 1")
  case True
  have "10 \<notin> set (io_in io)"
    using True inp request_line_no_lf [of q] ok set_take_subset [of n "request_line q @ [13]"]
    by (auto simp: encode_request_def request_ok_def take_Cons' split: if_splits dest: in_set_takeD)
  then show ?thesis by (rule handleConn_end)
next
  case False
  define b where "b = take (n - (length (request_line q) + 2)) (request_body q)"
  have wd: "is_word (request_key q)" "length (request_line q) < maxLineSize" using ok by (simp_all add: request_ok_def)
  obtain k v where q: "q = ReqPut k v" using False n by (cases q) (auto simp: encode_request_def)
  have v: "length v \<le> maxValueSize" using ok q by (simp add: request_ok_def)
  have short: "length b < length v + 2" using n q by (simp add: b_def encode_request_def CRLF_def)
  have i: "io_in io = request_line q @ 13 # 10 # b"
    using False inp by (simp add: b_def encode_request_def take_Cons' numeral_2_eq_2)
  obtain d io1 where d: "SetReadDeadline io = (d, io1)" by (metis prod.exhaust)
  note io1 = SetReadDeadline_in [OF d]
  show ?thesis
  proof (cases d)
    case True
    let ?io = "io1\<lparr>io_in := b\<rparr>"
    have line: "readLine maxLineSize (io_in io1) = (Some (request_line q), b)"
      using readLine_line [OF request_line_no_lf [OF wd(1)] wd(2)] io1 i by simp
    obtain fatal s' io3 where c: "handlePut U kv errtext (request_args q) s ?io = (fatal, s', io3)"
      by (metis prod_cases3)
    have torn: "fatal \<and> s' = s" by (rule handlePut_torn [OF c q v]) (use short in simp)
    have "handleCommand U kv errtext (request_args q) s ?io = (True, s, io3)" "request_args q \<noteq> []"
      using c torn q by (simp_all add: handleCommand_def command_upper Let_def)
    then show ?thesis
      using d True line
      by (simp add: handleConn.simps [of U kv errtext s io] Fields_request [OF wd(1)] split: prod.splits)
  qed (use d in \<open>simp add: handleConn.simps [of U kv errtext s io]\<close>)
qed

lemma handleConn_served:
  assumes "\<forall>q \<in> set qs. request_ok q" and "healthy io" and "io_in io = encode_requests qs @ rest"
  shows "\<exists>io'. handleConn U kv errtext s io = handleConn U kv errtext (snd (serve_spec kv errtext qs s)) io' \<and>
    io_in io' = rest \<and> healthy io' \<and>
    content (dst (io_w io')) = content (dst (io_w io)) @ fst (serve_spec kv errtext qs s)"
  using assms
proof (induction qs arbitrary: s io)
  case Nil
  then show ?case by (auto simp: encode_requests_def)
next
  case (Cons q qs)
  have q: "request_ok q" and i: "io_in io = encode_request q @ (encode_requests qs @ rest)"
    using Cons.prems by (simp_all add: encode_requests_def)
  obtain p t where p: "serve_one kv errtext q s = (p, t)" by (metis prod.exhaust)
  obtain ps t' where ps: "serve_spec kv errtext qs t = (ps, t')" by (metis prod.exhaust)
  show ?case
  proof (cases rule: handleConn_request [OF q i, of U kv errtext s])
    case (3 io')
    have "healthy io'" "content (dst (io_w io')) = content (dst (io_w io)) @ p" using 3(3) Cons.prems(2) p by simp_all
    then show ?thesis using Cons.IH [of io' t] Cons.prems(1) 3(1,2) p ps by auto
  qed (use Cons.prems(2) in simp_all)
qed

lemma Fields_length: "f \<in> set (Fields s) \<Longrightarrow> length f \<le> length s"
proof -
  have "f \<in> set (fields_runes cur rs) \<Longrightarrow> length f \<le> length cur + length (concat (map snd rs))" for cur rs
    by (induction cur rs rule: fields_runes.induct) (fastforce split: if_splits)+
  from this [of "[]" "runes s"] show "f \<in> set (Fields s) \<Longrightarrow> length f \<le> length s"
    by (simp add: Fields_def concat_runes)
qed

text \<open>An operation within the protocol's limits.\<close>

fun op_bounded :: "kv_op \<Rightarrow> bool" where
  "op_bounded (KPut k v) \<longleftrightarrow> length k \<le> maxLineSize \<and> length v \<le> maxValueSize"
| "op_bounded (KDel k) \<longleftrightarrow> length k \<le> maxLineSize"

lemma handlePut_op:
  assumes "handlePut U kv errtext args s io = (f, s', io')" and "\<forall>a \<in> set args. length a \<le> maxLineSize"
  shows "s' = s \<or> (\<exists>x. op_bounded x \<and> s' = snd (kv_exec kv x s))"
proof (cases "s' = s")
  case False
  then obtain n v r e where put: "length args = 3" "\<not> int maxValueSize < n" "ReadFull (nat n) (io_in io) = (Inr v, r)"
      "kv_Put kv (args ! 1) v s = (e, s')"
    using assms(1)
    by (auto simp: handlePut_def split: if_splits option.splits bool.splits sum.splits prod.splits
        dest!: SetReadDeadline_in)
  have "length v = nat n" using ReadFull_Inr [OF put(3)] by simp
  then have "op_bounded (KPut (args ! 1) v)" using put(1,2) assms(2) by simp
  moreover have "s' = snd (kv_exec kv (KPut (args ! 1) v) s)" using put(4) by simp
  ultimately show ?thesis by blast
qed simp

lemma handleCommand_op:
  assumes "handleCommand U kv errtext args s io = (f, s', io')" and "\<forall>a \<in> set args. length a \<le> maxLineSize"
  shows "s' = s \<or> (\<exists>x. op_bounded x \<and> s' = snd (kv_exec kv x s))"
proof -
  let ?cmd = "ToUpper U (hd args)"
  consider "?cmd = str ''PUT''" | "?cmd \<noteq> str ''PUT''" "?cmd = str ''DEL''" "s' \<noteq> s"
    | "?cmd \<noteq> str ''PUT''" "?cmd \<noteq> str ''DEL'' \<or> s' = s" by blast
  then show ?thesis
  proof cases
    case 1
    then show ?thesis using handlePut_op [OF _ assms(2)] assms(1) by (simp add: handleCommand_def)
  next
    case 2
    then have "length args = 2" "s' = snd (kv_Delete kv (args ! 1) s)"
      using assms(1) command_distinct
      by (auto simp: handleCommand_def handleDel_def Let_def split: if_splits option.splits prod.splits)
    then have "op_bounded (KDel (args ! 1))" "s' = snd (kv_exec kv (KDel (args ! 1)) s)"
      using assms(2) by simp_all
    then show ?thesis by blast
  next
    case 3
    then show ?thesis using assms(1) by (auto simp: handleCommand_def Let_def split: if_splits)
  qed
qed

text \<open>One turn of the loop on any input.\<close>

lemma handleConn_turn:
  obtains (closed) "fst (handleConn U kv errtext s io) = s"
    | (blank) io' where "handleConn U kv errtext s io = handleConn U kv errtext s io'"
        "length (io_in io') < length (io_in io)"
    | (command) args io1 fatal s' io2 ok w where "\<forall>a \<in> set args. length a \<le> maxLineSize"
        "handleCommand U kv errtext args s io1 = (fatal, s', io2)" "length (io_in io2) < length (io_in io)"
        "handleConn U kv errtext s io =
          (if \<not> ok \<or> fatal then (s', io2\<lparr>io_w := w\<rparr>) else handleConn U kv errtext s' (io2\<lparr>io_w := w\<rparr>))"
proof -
  obtain d io1 where d: "SetReadDeadline io = (d, io1)" by (metis prod.exhaust)
  obtain l r where l: "readLine maxLineSize (io_in io1) = (l, r)" by (metis prod.exhaust)
  note step = handleConn.simps [of U kv errtext s io]
  consider "\<not> d \<or> l = None" | line where "d" "l = Some line" "Fields line = []"
    | line where "d" "l = Some line" "Fields line \<noteq> []" by blast
  then show thesis
  proof cases
    case 1
    then have "fst (handleConn U kv errtext s io) = s" using d l step by (cases d; cases l) simp_all
    then show thesis by (rule closed)
  next
    case (2 line)
    then have "length r < length (io_in io)"
      using readLine_shrinks [of _ _ line r] l SetReadDeadline_in [OF d] by simp
    then show thesis using blank [of "io1\<lparr>io_in := r\<rparr>"] 2 d l step by simp
  next
    case (3 line)
    obtain fatal s' io2 where c: "handleCommand U kv errtext (Fields line) s (io1\<lparr>io_in := r\<rparr>) = (fatal, s', io2)"
      by (metis prod_cases3)
    obtain ok w where f: "bufio_Flush (io_w io2) = (ok, w)" by (metis prod.exhaust)
    have len: "length r < length (io_in io)"
      using readLine_shrinks [of _ _ line r] l 3(2) SetReadDeadline_in [OF d] by simp
    have "length line \<le> maxLineSize" using readLine_bound [of maxLineSize "io_in io1" line r] l 3(2) by simp
    then have args: "\<forall>a \<in> set (Fields line). length a \<le> maxLineSize" using Fields_length le_trans by blast
    have "length (io_in io2) < length (io_in io)" using handleCommand_in [OF c] len by simp
    then show thesis using command [OF args c, of ok w] step d l 3 c f by simp
  qed
qed

lemma handleConn_ops:
  "\<exists>xs. (\<forall>x \<in> set xs. op_bounded x) \<and> fst (handleConn U kv errtext s io) = snd (kv_run kv xs s)"
proof (induction "length (io_in io)" arbitrary: s io rule: less_induct)
  case less
  show ?case
  proof (cases rule: handleConn_turn [of U kv errtext s io])
    case closed
    then show ?thesis by (intro exI [of _ "[]"]) simp
  next
    case (blank io')
    then show ?thesis using less [of io' s] by simp
  next
    case (command args io1 fatal s' io2 ok w)
    obtain ys where ys: "\<forall>x \<in> set ys. op_bounded x" "s' = snd (kv_run kv ys s)"
    proof -
      consider "s' = s" | x where "op_bounded x" "s' = snd (kv_exec kv x s)"
        using handleCommand_op [OF command(2,1)] by blast
      then show thesis by cases (use that [of "[]"] that [of "[_]"] in \<open>simp_all add: case_prod_beta\<close>)
    qed
    obtain zs where zs: "\<forall>x \<in> set zs. op_bounded x"
        "fst (handleConn U kv errtext s' (io2\<lparr>io_w := w\<rparr>)) = snd (kv_run kv zs s')"
      using less [of "io2\<lparr>io_w := w\<rparr>" s'] command(3) by auto
    have app: "snd (kv_run kv (ys @ zs) s) = snd (kv_run kv zs s')"
      using ys(2) by (simp add: kv_run_append case_prod_beta)
    show ?thesis
    proof (cases "\<not> ok \<or> fatal")
      case True then show ?thesis using command(4) ys by auto
    next
      case False
      then show ?thesis using command(4) app ys(1) zs by (intro exI [of _ "ys @ zs"]) auto
    qed
  qed
qed

text \<open>A text without terminators inside has one only where it is appended.\<close>

lemma crlf_only_at_end:
  assumes "\<And>u v. m \<noteq> u @ 13 # 10 # v" and "13 \<notin> set h" and "h @ m @ [13, 10] = u @ 13 # 10 # (v :: bytes)"
  shows "v = []"
proof (cases v rule: rev_cases)
  case (snoc w x)
  then have e: "(h @ m) @ [13] = u @ 13 # 10 # w" using assms(3) by (metis append.assoc append_Cons append_Nil butlast_snoc)
  then obtain w' where "h @ m = u @ 13 # 10 # w'"
    by (cases w rule: rev_cases) auto
  then have "\<exists>u'. u = h @ u' \<and> m = u' @ 13 # 10 # w'"
    using assms(2) by (auto simp: append_eq_append_conv2 append_eq_Cons_conv Cons_eq_append_conv)
  then show ?thesis using assms(1) by blast
qed

section \<open>Properties\<close>

text \<open>For concrete inputs: a store that is the map itself, and a fresh connection.\<close>

definition map_kv :: "(bytes \<rightharpoonup> bytes, unit) KVStore" where
  "map_kv = \<lparr>kv_Put = \<lambda>k v m. (None, m(k \<mapsto> v)), kv_Delete = \<lambda>k m. (None, m(k := None)),
             kv_Get = \<lambda>k m. m k, kv_Len = \<lambda>m. card (dom m)\<rparr>"

definition plain_tables :: unicode_tables where
  "plain_tables = \<lparr>uni_upper = \<lambda>r. r, uni_print = \<lambda>r. True\<rparr>"

definition fresh_conn :: "bytes \<Rightarrow> conn_io" where
  "fresh_conn inp =
     \<lparr>io_in = inp, io_deadlines = [], io_w = NewWriter \<lparr>content = [], synced = 0, faults = []\<rparr>\<rparr>"

abbreviation sent :: "conn_io \<Rightarrow> bytes" where
  "sent io \<equiv> content (dst (io_w io))"

lemma fresh_conn_simps [simp]: "io_in (fresh_conn inp) = inp" "healthy (fresh_conn inp)" "sent (fresh_conn inp) = []"
  by (simp_all add: fresh_conn_def healthy_def)

lemma request_ok_small:
  "request_ok (ReqPut [107] [118])" "request_ok (ReqGet [107])" "request_ok (ReqDel [107])"
  by (auto simp: request_ok_def maxLineSize_def maxValueSize_def fmt_d.simps [of "Suc 0"] intro!: is_word_ascii)

text \<open>
  \<^bold>\<open>C17\<close>. Pipelining. For any store behind the interface and any number of well-formed requests
  sent back to back, the connection executes exactly these requests in order and sends exactly
  their replies in order, however the replies fill the writer's buffer and whatever bytes the
  values hold (line breaks, further requests).
\<close>

theorem handleConn_pipelined:
  assumes "\<forall>q \<in> set qs. request_ok q" and "healthy io" and "io_in io = encode_requests qs"
  shows "fst (handleConn U kv errtext s io) = snd (serve_spec kv errtext qs s) \<and>
    sent (snd (handleConn U kv errtext s io)) = sent io @ fst (serve_spec kv errtext qs s)"
proof -
  obtain io' where io': "handleConn U kv errtext s io = handleConn U kv errtext (snd (serve_spec kv errtext qs s)) io'"
      "io_in io' = []" "sent io' = sent io @ fst (serve_spec kv errtext qs s)"
    using handleConn_served [OF assms(1,2), of "[]" U kv errtext s] assms(3) by auto
  then show ?thesis using handleConn_end [of io' U kv errtext] by simp
qed

theorem handleConn_pipelined_witness:
  "sent (snd (handleConn plain_tables map_kv (\<lambda>_. []) Map.empty (fresh_conn (encode_requests [ReqPut [107] [118], ReqGet [107]]))))
     = str ''+OK'' @ CRLF @ str ''$1'' @ CRLF @ [118] @ CRLF"
proof -
  have "\<forall>q \<in> set [ReqPut [107] [118], ReqGet [107]]. request_ok q" using request_ok_small by simp
  from handleConn_pipelined [OF this fresh_conn_simps(2) fresh_conn_simps(1), of plain_tables map_kv "\<lambda>_. []" Map.empty]
  show ?thesis
    by (simp add: map_kv_def ack_reply_def value_reply_def fmt_d.simps [of "Suc 0"] digit_def str_def)
qed

text \<open>
  \<^bold>\<open>C18\<close>. A client that disappears. If only the first \<open>n\<close> bytes of a pipeline of requests arrive
  (the client disconnects or a deadline fires), and whatever fails while sending replies or
  arming deadlines, the store is as after some number of whole requests, each of which arrived
  completely: no request is executed in part and none that is cut off is executed.
\<close>

theorem handleConn_disconnect:
  assumes "\<forall>q \<in> set qs. request_ok q" and "io_in io = take n (encode_requests qs)"
  shows "\<exists>m \<le> length qs. fst (handleConn U kv errtext s io) = snd (serve_spec kv errtext (take m qs) s) \<and>
           length (encode_requests (take m qs)) \<le> n"
  using assms
proof (induction qs arbitrary: s io n)
  case Nil
  then show ?case using handleConn_end(1) [of io U kv errtext s] by (simp add: encode_requests_def)
next
  case (Cons q qs)
  have q: "request_ok q" using Cons.prems by simp
  have skip: ?case if "fst (handleConn U kv errtext s io) = s"
    using that by (intro exI [of _ 0]) (simp add: encode_requests_def)
  show ?case
  proof (cases "n < length (encode_request q)")
    case True
    then show ?thesis using handleConn_torn [OF q _ True, of io U kv errtext s] Cons.prems(2) skip by (simp add: encode_requests_def)
  next
    case False
    let ?n = "n - length (encode_request q)"
    have i: "io_in io = encode_request q @ take ?n (encode_requests qs)"
      using Cons.prems(2) False by (simp add: encode_requests_def)
    obtain p t where p: "serve_one kv errtext q s = (p, t)" by (metis prod.exhaust)
    have more: ?thesis if "fst (handleConn U kv errtext s io) = snd (serve_spec kv errtext (take m qs) t)"
        "m \<le> length qs" "length (encode_requests (take m qs)) \<le> ?n" for m
      using that p False by (intro exI [of _ "Suc m"]) (simp add: encode_requests_def case_prod_beta)
    show ?thesis
    proof (cases rule: handleConn_request [OF q i, of U kv errtext s])
      case 1 then show ?thesis using skip by simp
    next
      case 2 then show ?thesis using more [of 0] p by (simp add: encode_requests_def)
    next
      case (3 io')
      then show ?thesis using Cons.IH [of io' ?n t] Cons.prems(1) p more by auto
    qed
  qed
qed

theorem handleConn_disconnect_witness:
  "\<exists>m \<le> 1. fst (handleConn plain_tables map_kv (\<lambda>_. []) Map.empty (fresh_conn (take 11 (encode_requests [ReqPut [107] [118]])))) =
     snd (serve_spec map_kv (\<lambda>_. []) (take m [ReqPut [107] [118]]) Map.empty) \<and>
     length (encode_requests (take m [ReqPut [107] [118]])) \<le> 11"
  using handleConn_disconnect [of "[ReqPut [107] [118]]" "fresh_conn (take 11 (encode_requests [ReqPut [107] [118]]))" 11
      plain_tables map_kv "\<lambda>_. []" Map.empty] request_ok_small
  by simp

text \<open>
  Arbitrary clients. Whatever bytes a client sends and whatever fails, all a connection
  ever does to the store is a sequence of puts and deletes whose keys are at most
  \<^verbatim>\<open>maxLineSize\<close> and whose values are at most \<^verbatim>\<open>maxValueSize\<close> bytes long.
\<close>

theorem handleConn_only_bounded_ops:
  "\<exists>xs. list_all op_bounded xs \<and> fst (handleConn U kv errtext s io) = snd (kv_run kv xs s)"
  using handleConn_ops [of U kv errtext s io] by (simp add: list_all_iff)

text \<open>
  A value of unknown length is executed. When the length of a \<^verbatim>\<open>PUT\<close> is no number, or
  negative, the connection stays open and goes on reading lines, so a value that looks like a
  request is executed as one: here the value of the refused \<^verbatim>\<open>PUT\<close> deletes another key.
\<close>

theorem bad_length_value_is_executed:
  assumes "is_word k" and "is_word len" and "Atoi len = None \<or> (\<exists>n < 0. Atoi len = Some n)"
    and "length k + length len + 5 < maxLineSize" and "request_ok (ReqDel victim)" and "healthy io"
    and "io_in io = (str ''PUT'' @ 32 # k @ 32 # len) @ 13 # 10 # encode_request (ReqDel victim)"
  shows "fst (handleConn U kv errtext s io) = snd (kv_Delete kv victim s)"
proof -
  let ?line = "str ''PUT'' @ 32 # k @ 32 # len"
  let ?io = "io\<lparr>io_in := encode_request (ReqDel victim)\<rparr>"
  have nolf: "10 \<notin> set w" if "is_word w" for w using is_word_no_ascii_space [OF that space32(3,4)] .
  have line: "readLine maxLineSize (io_in io) = (Some ?line, encode_request (ReqDel victim))"
    unfolding assms(7) using nolf assms(1,2,4) command_words by (intro readLine_line) simp_all
  have args: "Fields ?line = [str ''PUT'', k, len]"
    using assms(1,2) by (simp add: Fields_word_space [OF _ space32(1,2)] Fields_word command_words)
  obtain msg where cmd: "handleCommand U kv errtext [str ''PUT'', k, len] s ?io = (False, s, writeErr msg ?io)"
    using assms(3) by (auto simp: handleCommand_def command_upper handlePut_def Let_def)
  obtain ok w where f: "bufio_Flush (io_w (writeErr msg ?io)) = (ok, w)" by (metis prod.exhaust)
  have "\<not> werr (io_w (writeErr msg ?io))" "faults (dst (io_w (writeErr msg ?io))) = []"
    using sends_writeErr [of ?io msg] assms(6) by (simp_all add: sends_def healthy_def)
  then have ok: "ok" "healthy ((writeErr msg ?io)\<lparr>io_w := w\<rparr>)"
    using bufio_Flush_cases(4,7) [OF f] assms(6) by (auto simp: healthy_def)
  have d: "SetReadDeadline io = (True, io)" using assms(6) by (simp add: SetReadDeadline_def healthy_def)
  have "handleConn U kv errtext s io = handleConn U kv errtext s ((writeErr msg ?io)\<lparr>io_w := w\<rparr>)"
    using d line args cmd f ok(1) by (simp add: handleConn.simps [of U kv errtext s io])
  moreover obtain io' where
      "handleConn U kv errtext s ((writeErr msg ?io)\<lparr>io_w := w\<rparr>) = handleConn U kv errtext (snd (kv_Delete kv victim s)) io'"
      "io_in io' = []"
    using handleConn_served [of "[ReqDel victim]" "(writeErr msg ?io)\<lparr>io_w := w\<rparr>" "[]" U kv errtext s] assms(5) ok(2)
    by (auto simp: encode_requests_def case_prod_beta)
  ultimately show ?thesis using handleConn_end(1) [of io' U kv errtext] by simp
qed

theorem bad_length_value_is_executed_witness:
  "fst (handleConn plain_tables map_kv (\<lambda>_. []) [[107] \<mapsto> [118]]
     (fresh_conn ((str ''PUT'' @ 32 # [97] @ 32 # [120]) @ 13 # 10 # encode_request (ReqDel [107])))) = Map.empty"
proof -
  have "is_word [97]" "is_word [120]" by (simp_all add: is_word_ascii)
  moreover have "Atoi [120] = None" by (simp add: Atoi_def Atoi_digits_def is_digit_def)
  ultimately show ?thesis
    using bad_length_value_is_executed [of "[97]" "[120]" "[107]" "fresh_conn _" plain_tables map_kv "\<lambda>_. []" "[[107] \<mapsto> [118]]"]
      request_ok_small(3)
    by (simp add: map_kv_def maxLineSize_def)
qed

text \<open>
  Framing of errors. Whatever the text of an error is, what \<^verbatim>\<open>writeErr\<close> sends is one
  protocol line: the terminator \<^verbatim>\<open>\r\n\<close> occurs in it at its end and nowhere else.
\<close>

theorem writeErr_one_line:
  "\<exists>p. sends io p (writeErr msg io) \<and> (\<exists>u. p = str ''-ERR '' @ u @ CRLF) \<and>
       (\<forall>u v. p = u @ CRLF @ v \<longrightarrow> v = [])"
proof (intro exI conjI allI impI)
  show "sends io (err_reply msg) (writeErr msg io)" by (rule sends_writeErr)
  show "err_reply msg = str ''-ERR '' @ replace_crlf msg @ CRLF" by (simp add: err_reply_def)
  fix u v assume eq: "err_reply msg = u @ CRLF @ v"
  then have "str ''-ERR '' @ replace_crlf msg @ [13, 10] = u @ 13 # 10 # v" by (simp add: err_reply_def CRLF_def)
  then show "v = []" by (rule crlf_only_at_end [rotated 2]) (simp_all add: replace_crlf_no_crlf str_def)
qed

theorem writeErr_one_line_witness:
  "\<exists>p. sends (fresh_conn []) p (writeErr [98, 13, 10, 97] (fresh_conn [])) \<and> (\<exists>u. p = str ''-ERR '' @ u @ CRLF) \<and>
       (\<forall>u v. p = u @ CRLF @ v \<longrightarrow> v = [])"
  by (rule writeErr_one_line)

end
