(* ===== verification/JSON.thy ===== *)
theory JSON
  imports Go_Text
begin

text \<open>
  The part of packages \<^verbatim>\<open>encoding/json\<close> and \<^verbatim>\<open>encoding/base64\<close> the Raft state files, the RPC
  payloads, the Raft commands and the store snapshots go through: a value is printed as
  \<^verbatim>\<open>json.Marshal\<close> prints it (compact, HTML-safe strings, byte slices in base64) and any text is
  parsed by the grammar \<^verbatim>\<open>json.Unmarshal\<close> accepts.

  A string is the Go string. Printing replaces bytes that are no UTF-8 by U+FFFD, so only valid
  UTF-8 survives the round trip; this is a fact of the format and shows up in the callers. A
  number keeps its literal. The parser runs on fuel; the length of the text is enough of it, since
  every recursive call consumes a byte.
\<close>

section \<open>Printing\<close>

datatype json =
  JNull | JBool bool | JNum bytes | JStr bytes | JArr "json list" | JObj "(bytes \<times> json) list"

definition esc :: "char \<Rightarrow> bytes" where
  "esc c = str [CHR 0x5C, c]"

definition json_escape :: "nat \<times> bytes \<Rightarrow> bytes" where
  "json_escape x =
     (case x of (r, raw) \<Rightarrow>
        (if r = RuneError \<and> length raw = 1 then esc CHR ''u'' @ hex 4 RuneError
         else if r = 34 \<or> r = 92 then [92, word_of_nat r]
         else if r = 8 then esc CHR ''b''
         else if r = 12 then esc CHR ''f''
         else if r = 10 then esc CHR ''n''
         else if r = 13 then esc CHR ''r''
         else if r = 9 then esc CHR ''t''
         else if r < 32 \<or> r \<in> {38, 60, 62, 8232, 8233} then esc CHR ''u'' @ hex 4 r
         else raw))"

definition json_quote :: "bytes \<Rightarrow> bytes" where
  "json_quote s = 34 # concat (map json_escape (runes s)) @ [34]"

fun join :: "bytes list \<Rightarrow> bytes" where
  "join [] = []"
| "join [x] = x"
| "join (x # xs) = x @ 44 # join xs"

fun Marshal :: "json \<Rightarrow> bytes" where
  "Marshal JNull = str ''null''"
| "Marshal (JBool b) = (if b then str ''true'' else str ''false'')"
| "Marshal (JNum t) = t"
| "Marshal (JStr s) = json_quote s"
| "Marshal (JArr xs) = 91 # join (map Marshal xs) @ [93]"
| "Marshal (JObj ms) = 123 # join (map (\<lambda>(k, v). json_quote k @ 58 # Marshal v) ms) @ [125]"

section \<open>Parsing\<close>

definition is_ws :: "byte \<Rightarrow> bool" where
  "is_ws b \<longleftrightarrow> b = 32 \<or> b = 9 \<or> b = 10 \<or> b = 13"

definition skip_ws :: "bytes \<Rightarrow> bytes" where
  "skip_ws = dropWhile is_ws"

definition hex_val :: "byte \<Rightarrow> nat option" where
  "hex_val b =
     (let x = unat b
      in if 48 \<le> x \<and> x \<le> 57 then Some (x - 48)
         else if 97 \<le> x \<and> x \<le> 102 then Some (x - 87)
         else if 65 \<le> x \<and> x \<le> 70 then Some (x - 55)
         else None)"

fun getu4 :: "bytes \<Rightarrow> nat option" where
  "getu4 (a # b # c # d # _) =
     (case (hex_val a, hex_val b, hex_val c, hex_val d) of
        (Some a, Some b, Some c, Some d) \<Rightarrow> Some (((a * 16 + b) * 16 + c) * 16 + d)
      | _ \<Rightarrow> None)"
| "getu4 _ = None"

definition simple_escape :: "byte \<Rightarrow> byte option" where
  "simple_escape c =
     (if c = 34 \<or> c = 92 \<or> c = 47 then Some c
      else if c = 98 then Some 8
      else if c = 102 then Some 12
      else if c = 110 then Some 10
      else if c = 114 then Some 13
      else if c = 116 then Some 9
      else None)"

text \<open>The rune of a \<^verbatim>\<open>\u\<close> escape and how many bytes after the four digits belong to it.\<close>

definition unescape_u :: "nat \<Rightarrow> bytes \<Rightarrow> nat \<times> nat" where
  "unescape_u r rest =
     (if 55296 \<le> r \<and> r \<le> 57343 then
        (case (take 2 rest = [92, 117], getu4 (drop 2 rest)) of
           (True, Some lo) \<Rightarrow>
             (if r < 56320 \<and> 56320 \<le> lo \<and> lo \<le> 57343
              then ((r - 55296) * 1024 + (lo - 56320) + 65536, 6) else (RuneError, 0))
         | _ \<Rightarrow> (RuneError, 0))
      else (r, 0))"

text \<open>A string after its opening quote.\<close>

function json_unquote :: "bytes \<Rightarrow> (bytes \<times> bytes) option" where
  "json_unquote s =
     (case s of
        [] \<Rightarrow> None
      | b # r \<Rightarrow>
          (if b = 34 then Some ([], r)
           else if b = 92 then
             (case r of
                [] \<Rightarrow> None
              | c # r1 \<Rightarrow>
                  (if c = 117 then
                     (case getu4 r1 of
                        None \<Rightarrow> None
                      | Some u \<Rightarrow>
                          (case unescape_u u (drop 4 r1) of
                             (u, n) \<Rightarrow>
                               map_option (\<lambda>(t, z). (EncodeRune u @ t, z)) (json_unquote (drop n (drop 4 r1)))))
                   else
                     (case simple_escape c of
                        None \<Rightarrow> None
                      | Some x \<Rightarrow> map_option (\<lambda>(t, z). (x # t, z)) (json_unquote r1))))
           else if unat b < 32 then None
           else
             (case DecodeRune s of
                (u, n) \<Rightarrow> map_option (\<lambda>(t, z). (EncodeRune u @ t, z)) (json_unquote (drop n s)))))"
  by pat_completeness auto
termination
proof (relation "measure length", goal_cases)
  case (4 s b r x n)
  then have "n = snd (DecodeRune s)" by (metis snd_conv)
  with 4 show ?case using DecodeRune_width [of s] by (cases s) auto
qed auto

declare json_unquote.simps [simp del]

text \<open>The literal of a number, by the grammar of JSON.\<close>

definition digits :: "bytes \<Rightarrow> (bytes \<times> bytes) option" where
  "digits s = (let d = takeWhile is_digit s in if d = [] then None else Some (d, dropWhile is_digit s))"

definition num_int :: "bytes \<Rightarrow> (bytes \<times> bytes) option" where
  "num_int s = (case s of b # r \<Rightarrow> (if b = 48 then Some ([48], r) else digits s) | [] \<Rightarrow> None)"

definition num_frac :: "bytes \<Rightarrow> (bytes \<times> bytes) option" where
  "num_frac s =
     (case s of
        b # r \<Rightarrow> (if b = 46 then map_option (\<lambda>(d, z). (46 # d, z)) (digits r) else Some ([], s))
      | [] \<Rightarrow> Some ([], []))"

definition num_exp :: "bytes \<Rightarrow> (bytes \<times> bytes) option" where
  "num_exp s =
     (case s of
        b # r \<Rightarrow>
          (if b = 101 \<or> b = 69 then
             (case r of
                c # r1 \<Rightarrow>
                  (if c = 43 \<or> c = 45 then map_option (\<lambda>(d, z). (b # c # d, z)) (digits r1)
                   else map_option (\<lambda>(d, z). (b # d, z)) (digits r))
              | [] \<Rightarrow> None)
           else Some ([], s))
      | [] \<Rightarrow> Some ([], []))"

definition json_number :: "bytes \<Rightarrow> (bytes \<times> bytes) option" where
  "json_number s =
     (let (sign, r) = (if s \<noteq> [] \<and> hd s = 45 then ([45], tl s) else ([], s))
      in case num_int r of
           None \<Rightarrow> None
         | Some (i, r) \<Rightarrow>
             (case num_frac r of
                None \<Rightarrow> None
              | Some (f, r) \<Rightarrow>
                  (case num_exp r of None \<Rightarrow> None | Some (e, r) \<Rightarrow> Some (sign @ i @ f @ e, r))))"

definition json_literal :: "bytes \<Rightarrow> (json \<times> bytes) option" where
  "json_literal s =
     (if take 4 s = str ''null'' then Some (JNull, drop 4 s)
      else if take 4 s = str ''true'' then Some (JBool True, drop 4 s)
      else if take 5 s = str ''false'' then Some (JBool False, drop 5 s)
      else map_option (\<lambda>(t, z). (JNum t, z)) (json_number s))"

text \<open>
  \<open>p_value\<close> reads a value, \<open>p_elems\<close> the elements of an array up to its bracket, \<open>p_members\<close>
  the members of an object up to its brace; the text starts at the first byte that is no space.
\<close>

fun p_value :: "nat \<Rightarrow> bytes \<Rightarrow> (json \<times> bytes) option"
  and p_elems :: "nat \<Rightarrow> bytes \<Rightarrow> (json list \<times> bytes) option"
  and p_members :: "nat \<Rightarrow> bytes \<Rightarrow> ((bytes \<times> json) list \<times> bytes) option" where
  "p_value 0 s = None"
| "p_value (Suc n) s =
     (case s of
        [] \<Rightarrow> None
      | b # r \<Rightarrow>
          (if b = 34 then map_option (\<lambda>(t, z). (JStr t, z)) (json_unquote r)
           else if b = 91 then
             (let r = skip_ws r
              in if r \<noteq> [] \<and> hd r = 93 then Some (JArr [], tl r)
                 else map_option (\<lambda>(xs, z). (JArr xs, z)) (p_elems n r))
           else if b = 123 then
             (let r = skip_ws r
              in if r \<noteq> [] \<and> hd r = 125 then Some (JObj [], tl r)
                 else map_option (\<lambda>(ms, z). (JObj ms, z)) (p_members n r))
           else json_literal s))"
| "p_elems 0 s = None"
| "p_elems (Suc n) s =
     (case p_value n s of
        None \<Rightarrow> None
      | Some (x, r) \<Rightarrow>
          (case skip_ws r of
             [] \<Rightarrow> None
           | c # r1 \<Rightarrow>
               (if c = 93 then Some ([x], r1)
                else if c = 44 then map_option (\<lambda>(xs, z). (x # xs, z)) (p_elems n (skip_ws r1))
                else None)))"
| "p_members 0 s = None"
| "p_members (Suc n) s =
     (case s of
        [] \<Rightarrow> None
      | b # r \<Rightarrow>
          (if b \<noteq> 34 then None
           else case json_unquote r of
             None \<Rightarrow> None
           | Some (k, r) \<Rightarrow>
               (case skip_ws r of
                  [] \<Rightarrow> None
                | c # r1 \<Rightarrow>
                    (if c \<noteq> 58 then None
                     else case p_value n (skip_ws r1) of
                       None \<Rightarrow> None
                     | Some (x, r) \<Rightarrow>
                         (case skip_ws r of
                            [] \<Rightarrow> None
                          | c # r1 \<Rightarrow>
                              (if c = 125 then Some ([(k, x)], r1)
                               else if c = 44 then
                                 map_option (\<lambda>(ms, z). ((k, x) # ms, z)) (p_members n (skip_ws r1))
                               else None))))))"

declare p_value.simps(2) [simp del] p_elems.simps(2) [simp del] p_members.simps(2) [simp del]

definition json_parse :: "bytes \<Rightarrow> json option" where
  "json_parse s =
     (case p_value (Suc (length s)) (skip_ws s) of
        Some (v, r) \<Rightarrow> (if skip_ws r = [] then Some v else None)
      | None \<Rightarrow> None)"

section \<open>Byte slices in base64\<close>

definition b64_char :: "nat \<Rightarrow> byte" where
  "b64_char n =
     (if n < 26 then word_of_nat (65 + n)
      else if n < 52 then word_of_nat (71 + n)
      else if n < 62 then word_of_nat (n - 4)
      else if n = 62 then 43 else 47)"

definition b64_val :: "byte \<Rightarrow> nat option" where
  "b64_val c =
     (let x = unat c
      in if 65 \<le> x \<and> x \<le> 90 then Some (x - 65)
         else if 97 \<le> x \<and> x \<le> 122 then Some (x - 71)
         else if 48 \<le> x \<and> x \<le> 57 then Some (x + 4)
         else if x = 43 then Some 62
         else if x = 47 then Some 63
         else None)"

fun b64_encode :: "bytes \<Rightarrow> bytes" where
  "b64_encode [] = []"
| "b64_encode [a] = [b64_char (unat a div 4), b64_char (unat a mod 4 * 16), 61, 61]"
| "b64_encode [a, b] =
     [b64_char (unat a div 4), b64_char (unat a mod 4 * 16 + unat b div 16), b64_char (unat b mod 16 * 4), 61]"
| "b64_encode (a # b # c # r) =
     [b64_char (unat a div 4), b64_char (unat a mod 4 * 16 + unat b div 16),
      b64_char (unat b mod 16 * 4 + unat c div 64), b64_char (unat c mod 64)] @ b64_encode r"

fun b64_quads :: "bytes \<Rightarrow> bytes option" where
  "b64_quads [] = Some []"
| "b64_quads (a # b # c # d # r) =
     (case (b64_val a, b64_val b) of
        (Some x, Some y) \<Rightarrow>
          (if c = 61 \<and> d = 61 \<and> r = [] then Some [word_of_nat (x * 4 + y div 16)]
           else case b64_val c of
             None \<Rightarrow> None
           | Some z \<Rightarrow>
               (if d = 61 \<and> r = [] then
                  Some [word_of_nat (x * 4 + y div 16), word_of_nat (y mod 16 * 16 + z div 4)]
                else case b64_val d of
                  None \<Rightarrow> None
                | Some w \<Rightarrow>
                    map_option (\<lambda>t. [word_of_nat (x * 4 + y div 16), word_of_nat (y mod 16 * 16 + z div 4),
                                     word_of_nat (z mod 4 * 64 + w)] @ t) (b64_quads r)))
      | _ \<Rightarrow> None)"
| "b64_quads _ = None"

definition b64_decode :: "bytes \<Rightarrow> bytes option" where
  "b64_decode s = b64_quads (filter (\<lambda>b. b \<noteq> 10 \<and> b \<noteq> 13) s)"

section \<open>Go values\<close>

text \<open>A \<^verbatim>\<open>nil\<close> slice is \<open>None\<close>.\<close>

definition enc_uint :: "nat \<Rightarrow> json" where
  "enc_uint n = JNum (fmt_d n)"

definition enc_bytes :: "bytes option \<Rightarrow> json" where
  "enc_bytes x = (case x of None \<Rightarrow> JNull | Some bs \<Rightarrow> JStr (b64_encode bs))"

text \<open>
  Decoding into a variable that holds \<open>old\<close>: \<^verbatim>\<open>null\<close> leaves a number or string alone and makes
  a slice nil; a value of another kind or out of range is an error.
\<close>

definition dec_uint :: "nat \<Rightarrow> nat \<Rightarrow> json \<Rightarrow> nat option" where
  "dec_uint w old v =
     (case v of
        JNull \<Rightarrow> Some old
      | JNum t \<Rightarrow>
          (case Atoi_digits t of None \<Rightarrow> None | Some n \<Rightarrow> (if n < 2 ^ w then Some n else None))
      | _ \<Rightarrow> None)"

definition dec_string :: "bytes \<Rightarrow> json \<Rightarrow> bytes option" where
  "dec_string old v = (case v of JNull \<Rightarrow> Some old | JStr s \<Rightarrow> Some s | _ \<Rightarrow> None)"

definition dec_bool :: "bool \<Rightarrow> json \<Rightarrow> bool option" where
  "dec_bool old v = (case v of JNull \<Rightarrow> Some old | JBool b \<Rightarrow> Some b | _ \<Rightarrow> None)"

fun all_some :: "'a option list \<Rightarrow> 'a list option" where
  "all_some [] = Some []"
| "all_some (x # xs) = (case (x, all_some xs) of (Some y, Some ys) \<Rightarrow> Some (y # ys) | _ \<Rightarrow> None)"

definition dec_bytes :: "json \<Rightarrow> bytes option option" where
  "dec_bytes v =
     (case v of
        JNull \<Rightarrow> Some None
      | JStr s \<Rightarrow> map_option Some (b64_decode s)
      | JArr xs \<Rightarrow> map_option (\<lambda>ns. Some (map word_of_nat ns)) (all_some (map (dec_uint 8 0) xs))
      | _ \<Rightarrow> None)"

text \<open>
  A member is stored in the field whose name equals its key, up to case; the two runes that fold
  to ASCII letters are U+017F and U+212A.
\<close>

definition fold_rune :: "nat \<Rightarrow> nat" where
  "fold_rune r =
     (if 97 \<le> r \<and> r \<le> 122 then r - 32 else if r = 383 then 83 else if r = 8490 then 75 else r)"

definition fold_name :: "bytes \<Rightarrow> nat list" where
  "fold_name s = map (\<lambda>(r, raw). fold_rune r) (runes s)"

definition field_is :: "string \<Rightarrow> bytes \<Rightarrow> bool" where
  "field_is name k \<longleftrightarrow> k = str name \<or> fold_name k = fold_name (str name)"

text \<open>Decoding into a struct: the members in order, each by \<open>step\<close>; a slice of structs.\<close>

definition dec_struct :: "(bytes \<times> json \<Rightarrow> 'a \<Rightarrow> 'a option) \<Rightarrow> 'a \<Rightarrow> json \<Rightarrow> 'a option" where
  "dec_struct step old v =
     (case v of
        JNull \<Rightarrow> Some old
      | JObj ms \<Rightarrow> fold (\<lambda>m x. Option.bind x (step m)) ms (Some old)
      | _ \<Rightarrow> None)"

definition dec_slice :: "(json \<Rightarrow> 'a option) \<Rightarrow> json \<Rightarrow> 'a list option" where
  "dec_slice dec v = (case v of JNull \<Rightarrow> Some [] | JArr xs \<Rightarrow> all_some (map dec xs) | _ \<Rightarrow> None)"

section \<open>Lemmas: base64\<close>

lemma unat_numeral_byte: "unat (48 :: byte) = 48"
  by simp

lemma unat_byte: "m < 256 \<Longrightarrow> unat (word_of_nat m :: byte) = m"
  by (simp add: unat_of_nat take_bit_nat_eq_self)

lemma unat_b64_char:
  "n < 64 \<Longrightarrow> unat (b64_char n) =
     (if n < 26 then 65 + n else if n < 52 then 71 + n else if n < 62 then n - 4 else if n = 62 then 43 else 47)"
  unfolding b64_char_def by (simp only: if_distrib [of unat] unat_byte [of "65 + n"] unat_byte [of "71 + n"]
      unat_byte [of "n - 4"] split: if_split) simp

lemma b64_val_char [simp]:
  assumes "n < 64" shows "b64_val (b64_char n) = Some n"
proof -
  consider "n < 26" | "26 \<le> n" "n < 52" | "52 \<le> n" "n < 62" | "n = 62" | "n = 63" using assms by linarith
  then show ?thesis by cases (auto simp: b64_val_def unat_b64_char Let_def)
qed

lemma b64_char_plain: "n < 64 \<Longrightarrow> b64_char n \<noteq> 61 \<and> b64_char n \<noteq> 10 \<and> b64_char n \<noteq> 13"
proof -
  assume "n < 64"
  then have "b64_val (b64_char n) = Some n" by simp
  moreover have "b64_val 61 = None" "b64_val 10 = None" "b64_val 13 = None" by (simp_all add: b64_val_def)
  ultimately show ?thesis by auto
qed

lemma byte_bound: "unat (a :: byte) < 256"
  using unsigned_less [of a] by simp

lemma byte_split:
  "word_of_nat (unat a div 4 * 4 + (unat a mod 4 * 16 + unat b div 16) div 16) = (a :: byte)"
  "word_of_nat ((unat a mod 4 * 16 + unat b div 16) mod 16 * 16 + (unat b mod 16 * 4 + unat c div 64) div 4) = (b :: byte)"
  "word_of_nat ((unat b mod 16 * 4 + unat c div 64) mod 4 * 64 + unat c mod 64) = (c :: byte)"
proof -
  have "unat b div 16 < 16" "unat c div 64 < 4" using byte_bound [of b] byte_bound [of c] by auto
  then have "unat a div 4 * 4 + (unat a mod 4 * 16 + unat b div 16) div 16 = unat a"
    "(unat a mod 4 * 16 + unat b div 16) mod 16 * 16 + (unat b mod 16 * 4 + unat c div 64) div 4 = unat b"
    "(unat b mod 16 * 4 + unat c div 64) mod 4 * 64 + unat c mod 64 = unat c"
    by (simp_all add: div_mult_mod_eq)
  then show
    "word_of_nat (unat a div 4 * 4 + (unat a mod 4 * 16 + unat b div 16) div 16) = (a :: byte)"
    "word_of_nat ((unat a mod 4 * 16 + unat b div 16) mod 16 * 16 + (unat b mod 16 * 4 + unat c div 64) div 4) = (b :: byte)"
    "word_of_nat ((unat b mod 16 * 4 + unat c div 64) mod 4 * 64 + unat c mod 64) = (c :: byte)"
    by simp_all
qed

lemma b64_sextets:
  "unat (a :: byte) div 4 < 64" "unat a mod 4 * 16 + unat (b :: byte) div 16 < 64"
  "unat b mod 16 * 4 + unat (c :: byte) div 64 < 64" "unat a mod 4 * 16 < 64" "unat b mod 16 * 4 < 64"
proof -
  have "unat b div 16 < 16" "unat c div 64 < 4" "unat a mod 4 < 4" "unat b mod 16 < 16"
    using byte_bound [of b] byte_bound [of c] by auto
  then show "unat a mod 4 * 16 + unat b div 16 < 64" "unat b mod 16 * 4 + unat c div 64 < 64"
    "unat a mod 4 * 16 < 64" "unat b mod 16 * 4 < 64" by linarith+
  show "unat a div 4 < 64" using byte_bound [of a] by auto
qed

lemma b64_quads_encode: "b64_quads (b64_encode s) = Some s"
proof (induction s rule: b64_encode.induct)
  case (2 a)
  then show ?case using byte_split(1) [of a 0] by (simp add: b64_sextets)
next
  case (3 a b)
  then show ?case
    using byte_split(1) [of a b] byte_split(2) [of a b 0] b64_char_plain [of "unat b mod 16 * 4"]
    by (simp add: b64_sextets)
next
  case (4 a b c r)
  then show ?case
    using byte_split(1) [of a b] byte_split(2) [of a b c] byte_split(3) [of b c]
      b64_char_plain [of "unat b mod 16 * 4 + unat c div 64"] b64_char_plain [of "unat c mod 64"]
    by (simp add: b64_sextets)
qed simp

lemma b64_encode_plain: "list_all (\<lambda>b. b \<noteq> 10 \<and> b \<noteq> 13) (b64_encode s)"
  by (induction s rule: b64_encode.induct) (simp_all add: b64_char_plain b64_sextets)

lemma b64_encode_no_newline: "b \<in> set (b64_encode s) \<Longrightarrow> b \<noteq> 10 \<and> b \<noteq> 13"
  using b64_encode_plain [of s] by (auto simp: list_all_iff)

lemma b64_decode_encode [simp]: "b64_decode (b64_encode s) = Some s"
proof -
  have "filter (\<lambda>b. b \<noteq> 10 \<and> b \<noteq> 13) (b64_encode s) = b64_encode s"
    using b64_encode_no_newline by (simp add: filter_id_conv)
  then show ?thesis by (simp add: b64_decode_def b64_quads_encode)
qed

lemma b64_char_ascii: "n < 64 \<Longrightarrow> unat (b64_char n) < 128"
  by (auto simp: unat_b64_char)

lemma b64_encode_ascii: "list_all (\<lambda>b. unat b < 128) (b64_encode s)"
  by (induction s rule: b64_encode.induct) (simp_all add: b64_char_ascii b64_sextets)

section \<open>Lemmas: strings\<close>

text \<open>A string of valid UTF-8: decoding it meets no invalid byte.\<close>

definition valid_rune :: "nat \<times> bytes \<Rightarrow> bool" where
  "valid_rune x \<longleftrightarrow> \<not> (fst x = RuneError \<and> length (snd x) = 1)"

definition valid_utf8 :: "bytes \<Rightarrow> bool" where
  "valid_utf8 s \<longleftrightarrow> list_all valid_rune (runes s)"

lemma valid_utf8_ascii: "list_all (\<lambda>b. unat b < 128) s \<Longrightarrow> valid_utf8 s"
  by (auto simp: valid_utf8_def valid_rune_def RuneError_def list_all_ascii_runes list_all_iff)

text \<open>A valid rune is decoded and encoded by its own bytes alone.\<close>

definition rune_ok :: "nat \<Rightarrow> bytes \<Rightarrow> bool" where
  "rune_ok r raw \<longleftrightarrow>
     raw \<noteq> [] \<and> EncodeRune r = raw \<and> (\<forall>t. DecodeRune (raw @ t) = (r, length raw)) \<and>
     (r < 128 \<longrightarrow> raw = [word_of_nat r]) \<and> (128 \<le> r \<longrightarrow> 128 \<le> unat (hd raw))"

lemma rune_ok_1: "unat a < 128 \<Longrightarrow> rune_ok (unat a) [a]"
  by (simp add: rune_ok_def EncodeRune_def DecodeRune_def)

lemma cont_bounds: "is_cont b \<Longrightarrow> unat b - 128 < 64 \<and> 128 + (unat b - 128) = unat b"
  by (auto simp: is_cont_def)

lemma rune_ok_2:
  assumes "194 \<le> unat a" "unat a \<le> 223" "is_cont b"
  shows "rune_ok ((unat a - 192) * 64 + (unat b - 128)) [a, b]"
proof -
  define x y where "x = unat a - 192" and "y = unat b - 128"
  have xy: "2 \<le> x" "x < 32" "y < 64" "192 + x = unat a" "128 + y = unat b"
    using assms cont_bounds [OF assms(3)] by (auto simp: x_def y_def)
  then have r: "128 \<le> x * 64 + y" "x * 64 + y < 2048" "(x * 64 + y) div 64 = x" "(x * 64 + y) mod 64 = y"
    by auto
  have "EncodeRune (x * 64 + y) = [word_of_nat (192 + x), word_of_nat (128 + y)]"
    using r by (simp add: EncodeRune_def Let_def del: of_nat_add)
  then have e: "EncodeRune (x * 64 + y) = [a, b]" unfolding xy(4,5) by simp
  have "DecodeRune ([a, b] @ t) = (x * 64 + y, 2)" for t
    using assms by (simp add: DecodeRune_def Let_def x_def y_def)
  then show ?thesis using e r(1) assms(1) by (simp add: rune_ok_def x_def y_def)
qed

lemma rune_ok_3:
  assumes "224 \<le> unat a" "unat a \<le> 239" "is_cont b" "is_cont c"
    "unat a = 224 \<longrightarrow> 160 \<le> unat b" "unat a = 237 \<longrightarrow> unat b \<le> 159"
  shows "rune_ok ((unat a - 224) * 4096 + (unat b - 128) * 64 + (unat c - 128)) [a, b, c]"
proof -
  define x y z where "x = unat a - 224" and "y = unat b - 128" and "z = unat c - 128"
  have xy: "x < 16" "y < 64" "z < 64" "224 + x = unat a" "128 + y = unat b" "128 + z = unat c"
      "x = 0 \<longrightarrow> 32 \<le> y" "x = 13 \<longrightarrow> y < 32"
    using assms cont_bounds [OF assms(3)] cont_bounds [OF assms(4)] by (auto simp: x_def y_def z_def)
  let ?r = "x * 4096 + y * 64 + z"
  have r: "2048 \<le> ?r" "?r < 65536" "?r div 4096 = x" "?r div 64 mod 64 = y" "?r mod 64 = z"
    "\<not> (55296 \<le> ?r \<and> ?r \<le> 57343)"
  proof -
    have d: "?r div 64 = x * 64 + y" using xy(3) by auto
    show "?r div 64 mod 64 = y" using d xy(2) by simp
    show "?r div 4096 = x" "?r < 65536" using xy by auto
    have "?r = z + 64 * (x * 64 + y)" by simp
    then show "?r mod 64 = z" using xy(3) by (simp only: mod_mult_self2 mod_less)
    show "2048 \<le> ?r" using xy(7) by (cases "x = 0") auto
    consider "x < 13" | "x = 13" | "13 < x" by linarith
    then show "\<not> (55296 \<le> ?r \<and> ?r \<le> 57343)" by cases (use xy in auto)
  qed
  have "EncodeRune ?r = [word_of_nat (224 + x), word_of_nat (128 + y), word_of_nat (128 + z)]"
    using r by (simp add: EncodeRune_def Let_def del: of_nat_add)
  then have e: "EncodeRune ?r = [a, b, c]" unfolding xy(4,5,6) by simp
  have "DecodeRune ([a, b, c] @ t) = (?r, 3)" for t
    using assms by (simp add: DecodeRune_def Let_def x_def y_def z_def)
  then show ?thesis using e r(1) assms(1) by (simp add: rune_ok_def x_def y_def z_def)
qed

lemma rune_ok_4:
  assumes "240 \<le> unat a" "unat a \<le> 244" "is_cont b" "is_cont c" "is_cont d"
    "unat a = 240 \<longrightarrow> 144 \<le> unat b" "unat a = 244 \<longrightarrow> unat b \<le> 143"
  shows "rune_ok ((unat a - 240) * 262144 + (unat b - 128) * 4096 + (unat c - 128) * 64 + (unat d - 128)) [a, b, c, d]"
proof -
  define x y z w where "x = unat a - 240" and "y = unat b - 128" and "z = unat c - 128" and "w = unat d - 128"
  have xy: "x \<le> 4" "y < 64" "z < 64" "w < 64" "240 + x = unat a" "128 + y = unat b" "128 + z = unat c"
      "128 + w = unat d" "x = 0 \<longrightarrow> 16 \<le> y" "x = 4 \<longrightarrow> y < 16"
    using assms cont_bounds [OF assms(3)] cont_bounds [OF assms(4)] cont_bounds [OF assms(5)]
    by (auto simp: x_def y_def z_def w_def)
  let ?r = "x * 262144 + y * 4096 + z * 64 + w"
  have d: "?r div 64 = x * 4096 + y * 64 + z" using xy(4) by auto
  have d2: "?r div 4096 = x * 64 + y" using xy(3,4) by auto
  have r: "65536 \<le> ?r" "?r \<le> 1114111" "?r div 262144 = x" "?r div 4096 mod 64 = y" "?r div 64 mod 64 = z" "?r mod 64 = w"
  proof -
    show "?r div 4096 mod 64 = y" using d2 xy(2) by simp
    have "x * 4096 + y * 64 + z = z + 64 * (x * 64 + y)" by simp
    then show "?r div 64 mod 64 = z" using xy(3) d by (simp only: mod_mult_self2 mod_less)
    have "?r = w + 64 * (x * 4096 + y * 64 + z)" by simp
    then show "?r mod 64 = w" using xy(4) by (simp only: mod_mult_self2 mod_less)
    show "?r div 262144 = x" using xy(2-4) by auto
    show "65536 \<le> ?r" using xy(9) by (cases "x = 0") auto
    show "?r \<le> 1114111" using xy(1-4,10) by (cases "x = 4") auto
  qed
  have "EncodeRune ?r = [word_of_nat (240 + x), word_of_nat (128 + y), word_of_nat (128 + z), word_of_nat (128 + w)]"
    using r by (simp add: EncodeRune_def Let_def del: of_nat_add)
  then have e: "EncodeRune ?r = [a, b, c, d]" unfolding xy(5,6,7,8) by simp
  have "DecodeRune ([a, b, c, d] @ t) = (?r, 4)" for t
    using assms by (simp add: DecodeRune_def Let_def x_def y_def z_def w_def)
  then show ?thesis using e r(1) assms(1) by (simp add: rune_ok_def x_def y_def z_def w_def)
qed

lemma DecodeRune_ok:
  assumes "s \<noteq> []" and "DecodeRune s = (r, n)" and "valid_rune (r, take n s)"
  shows "rune_ok r (take n s)"
proof -
  obtain a t where s: "s = a # t" using assms(1) by (cases s) auto
  have v: "\<not> (r = RuneError \<and> n = 1)" using assms(3) s by (auto simp: valid_rune_def)
  consider "unat a < 128" "r = unat a" "n = 1"
    | b u where "t = b # u" "194 \<le> unat a" "unat a \<le> 223" "is_cont b"
        "r = (unat a - 192) * 64 + (unat b - 128)" "n = 2"
    | b c u where "t = b # c # u" "224 \<le> unat a" "unat a \<le> 239" "is_cont b" "is_cont c"
        "unat a = 224 \<longrightarrow> 160 \<le> unat b" "unat a = 237 \<longrightarrow> unat b \<le> 159"
        "r = (unat a - 224) * 4096 + (unat b - 128) * 64 + (unat c - 128)" "n = 3"
    | b c d u where "t = b # c # d # u" "240 \<le> unat a" "unat a \<le> 244" "is_cont b" "is_cont c" "is_cont d"
        "unat a = 240 \<longrightarrow> 144 \<le> unat b" "unat a = 244 \<longrightarrow> unat b \<le> 143"
        "r = (unat a - 240) * 262144 + (unat b - 128) * 4096 + (unat c - 128) * 64 + (unat d - 128)" "n = 4"
    using assms(2) v unfolding s DecodeRune_def
    by (simp add: Let_def split: list.splits if_splits)
  then show ?thesis
  proof cases
    case 1 then show ?thesis using s rune_ok_1 [of a] by simp
  next
    case (2 b u)
    have "take n s = [a, b]" using s 2(1,6) by simp
    then show ?thesis using rune_ok_2 [OF 2(2-4)] 2(5) by simp
  next
    case (3 b c u)
    have "take n s = [a, b, c]" using s 3(1,9) by (simp add: numeral_eq_Suc)
    then show ?thesis using rune_ok_3 [OF 3(2-7)] 3(8) by simp
  next
    case (4 b c d u)
    have "take n s = [a, b, c, d]" using s 4(1,10) by (simp add: numeral_eq_Suc)
    then show ?thesis using rune_ok_4 [OF 4(2-8)] 4(9) by simp
  qed
qed

lemma runes_ok:
  "valid_utf8 s \<Longrightarrow> (r, raw) \<in> set (runes s) \<Longrightarrow> rune_ok r raw"
proof (induction s rule: runes.induct)
  case (1 s)
  obtain u n where d: "DecodeRune s = (u, n)" by (metis prod.exhaust)
  have ne: "s \<noteq> []" using 1(3) by auto
  then have rs: "runes s = (u, take n s) # runes (drop n s)" using d by (simp add: runes.simps [of s])
  have v: "valid_rune (u, take n s)" "valid_utf8 (drop n s)"
    using 1(2) rs by (simp_all add: valid_utf8_def)
  show ?case using 1(1) [OF ne d [symmetric] v(2)] 1(3) rs DecodeRune_ok [OF ne d v(1)] by auto
qed

text \<open>Reading back one escaped rune.\<close>

lemma hex_val_digit: "d < 16 \<Longrightarrow> hex_val (hex_digit d) = Some d"
proof -
  assume d: "d < 16"
  have "unat (word_of_nat (48 + d) :: byte) = 48 + d" "unat (word_of_nat (87 + d) :: byte) = 87 + d"
    using d by (simp_all only: unat_byte)
  then show ?thesis using d by (auto simp: hex_val_def hex_digit_def Let_def simp del: of_nat_add)
qed

lemma hex_4:
  "hex 4 n = [hex_digit (n div 16 div 16 div 16 mod 16), hex_digit (n div 16 div 16 mod 16),
              hex_digit (n div 16 mod 16), hex_digit (n mod 16)]"
proof -
  have "4 = Suc (Suc (Suc (Suc 0)))" by simp
  then show ?thesis by (simp only: hex.simps append.simps)
qed

lemma getu4_hex:
  assumes "n < 65536" shows "getu4 (hex 4 n @ t) = Some n"
proof -
  have "n div 16 div 16 div 16 = n div 4096" by (simp add: div_mult2_eq [symmetric])
  then have top: "n div 16 div 16 div 16 mod 16 = n div 16 div 16 div 16" using assms by simp
  have "((n div 16 div 16 div 16 * 16 + n div 16 div 16 mod 16) * 16 + n div 16 mod 16) * 16 + n mod 16 = n"
    by (simp only: div_mult_mod_eq)
  moreover have "n div 16 div 16 div 16 < 16" using top by (metis mod_less_divisor zero_less_numeral)
  ultimately show ?thesis by (simp only: hex_4 top append.simps getu4.simps) (simp add: hex_val_digit)
qed

lemma length_hex [simp]: "length (hex w n) = w"
  by (induction w arbitrary: n) simp_all

lemma unquote_u:
  assumes "n < 55296" shows "json_unquote (esc CHR ''u'' @ hex 4 n @ t) =
    map_option (\<lambda>(x, z). (EncodeRune n @ x, z)) (json_unquote t)"
  using assms getu4_hex [of n t]
  by (simp add: json_unquote.simps [of "92 # 117 # hex 4 n @ t"] esc_def str_def unescape_u_def)

lemma unquote_simple:
  assumes "simple_escape c = Some x" and "c \<noteq> 117"
  shows "json_unquote (92 # c # t) = map_option (\<lambda>(y, z). (x # y, z)) (json_unquote t)"
  using assms by (simp add: json_unquote.simps [of "92 # c # t"])

lemma unquote_raw:
  assumes "rune_ok r raw" and "32 \<le> unat (hd raw)" and "hd raw \<noteq> 34" and "hd raw \<noteq> 92"
  shows "json_unquote (raw @ t) = map_option (\<lambda>(y, z). (raw @ y, z)) (json_unquote t)"
proof -
  obtain b u where raw: "raw = b # u" using assms(1) by (cases raw) (auto simp: rune_ok_def)
  have "DecodeRune (b # u @ t) = (r, Suc (length u))" "EncodeRune r = raw"
    using assms(1) raw by (auto simp: rune_ok_def dest: spec [of _ t])
  then show ?thesis using assms(2-4) raw by (simp add: json_unquote.simps [of "b # u @ t"])
qed

lemma unquote_rune:
  assumes ok: "rune_ok r raw" and v: "valid_rune (r, raw)"
  shows "json_unquote (json_escape (r, raw) @ t) = map_option (\<lambda>(y, z). (raw @ y, z)) (json_unquote t)"
proof -
  have enc: "EncodeRune r = raw" and small: "r < 128 \<Longrightarrow> raw = [word_of_nat r]"
    and big: "128 \<le> r \<Longrightarrow> 128 \<le> unat (hd raw)" using ok by (auto simp: rune_ok_def)
  consider "r = 34 \<or> r = 92" | "r \<in> {8, 9, 10, 12, 13}" | "r < 32 \<or> r \<in> {38, 60, 62, 8232, 8233}" "r \<notin> {8, 9, 10, 12, 13}"
    | "32 \<le> r" "r \<notin> {34, 92, 38, 60, 62, 8232, 8233}" by (cases "r < 32") auto
  then show ?thesis
  proof cases
    case 1
    then show ?thesis
      using small v unquote_simple [of 34 34 t] unquote_simple [of 92 92 t]
      by (auto simp: json_escape_def simple_escape_def RuneError_def)
  next
    case 2
    then show ?thesis
      using small v unquote_simple [of 98 8 t] unquote_simple [of 116 9 t] unquote_simple [of 110 10 t]
        unquote_simple [of 102 12 t] unquote_simple [of 114 13 t]
      by (auto simp: json_escape_def simple_escape_def RuneError_def esc_def str_def)
  next
    case 3
    then have "json_escape (r, raw) = esc CHR ''u'' @ hex 4 r" "r < 55296"
      using v by (auto simp: json_escape_def valid_rune_def RuneError_def)
    then show ?thesis using unquote_u [of r t] enc by simp
  next
    case 4
    then have "json_escape (r, raw) = raw" using v by (auto simp: json_escape_def valid_rune_def)
    moreover have "32 \<le> unat (hd raw)" "hd raw \<noteq> 34" "hd raw \<noteq> 92"
    proof -
      show "32 \<le> unat (hd raw)" using small big 4(1) by (cases "r < 128") (simp_all add: unat_byte)
      have "unat (hd raw) \<noteq> 34 \<and> unat (hd raw) \<noteq> 92"
        using small big 4(2) by (cases "r < 128") (auto simp: unat_byte)
      then show "hd raw \<noteq> 34" "hd raw \<noteq> 92" by auto
    qed
    ultimately show ?thesis using unquote_raw [OF ok] by simp
  qed
qed

lemma json_unquote_quote:
  assumes "valid_utf8 s"
  shows "json_unquote (concat (map json_escape (runes s)) @ 34 # t) = Some (s, t)"
proof -
  have "\<forall>x \<in> set rs. rune_ok (fst x) (snd x) \<and> valid_rune x \<Longrightarrow>
      json_unquote (concat (map json_escape rs) @ 34 # t) = Some (concat (map snd rs), t)" for rs
  proof (induction rs)
    case Nil
    then show ?case by (simp add: json_unquote.simps)
  next
    case (Cons x rs)
    then show ?case
      using unquote_rune [of "fst x" "snd x" "concat (map json_escape rs) @ 34 # t"] by simp
  qed
  from this [of "runes s"] show ?thesis
    using runes_ok [OF assms] assms by (simp add: concat_runes valid_utf8_def list_all_iff)
qed

section \<open>Lemmas: values\<close>

text \<open>Values whose printing can be read back: valid strings, decimal numbers.\<close>

fun json_ok :: "json \<Rightarrow> bool" where
  "json_ok (JNum t) \<longleftrightarrow> t = fmt_d (dec_value t)"
| "json_ok (JStr s) \<longleftrightarrow> valid_utf8 s"
| "json_ok (JArr xs) \<longleftrightarrow> list_all json_ok xs"
| "json_ok (JObj ms) \<longleftrightarrow> list_all (\<lambda>(k, v). valid_utf8 k \<and> json_ok v) ms"
| "json_ok _ \<longleftrightarrow> True"

lemma json_ok_bytes: "json_ok (enc_bytes x)"
  by (cases x) (simp_all add: enc_bytes_def valid_utf8_ascii b64_encode_ascii)

text \<open>What may follow a value.\<close>

definition delim :: "bytes \<Rightarrow> bool" where
  "delim r \<longleftrightarrow> r = [] \<or> hd r = 44 \<or> hd r = 93 \<or> hd r = 125"

lemma skip_ws_cons [simp]: "\<not> is_ws b \<Longrightarrow> skip_ws (b # r) = b # r"
  by (simp add: skip_ws_def)

lemma skip_ws_delim: "delim r \<Longrightarrow> skip_ws r = r"
  by (cases r) (auto simp: delim_def skip_ws_def is_ws_def)

lemma fmt_d_first: "n \<noteq> 0 \<Longrightarrow> hd (fmt_d n) \<noteq> 48"
proof (induction n rule: fmt_d.induct)
  case (1 n)
  show ?case
  proof (cases "n < 10")
    case True
    have "unat (digit n) = 48 + n" using True unat_byte [of "48 + n"] by (simp add: digit_def)
    then have "digit n \<noteq> 48" using 1(2) by (metis add_cancel_left_right unat_numeral_byte)
    then show ?thesis using True by (simp add: fmt_d.simps [of n])
  next
    case False
    then show ?thesis using 1(1) [OF False] by (simp add: fmt_d.simps [of n])
  qed
qed

lemma takeWhile_digits:
  assumes "list_all is_digit d" and "r = [] \<or> \<not> is_digit (hd r)"
  shows "takeWhile is_digit (d @ r) = d" and "dropWhile is_digit (d @ r) = r"
  using assms by (induction d; cases r; simp)+

lemma json_number_fmt_d:
  assumes "delim r" shows "json_number (fmt_d n @ r) = Some (fmt_d n, r)"
proof -
  have nd: "r = [] \<or> \<not> is_digit (hd r)" "r = [] \<or> hd r \<notin> {46, 101, 69}"
    using assms by (auto simp: delim_def is_digit_def)
  have rest: "num_frac r = Some ([], r)" "num_exp r = Some ([], r)"
    using nd(2) by (auto simp: num_frac_def num_exp_def split: list.splits)
  obtain b d where bd: "fmt_d n = b # d" by (cases "fmt_d n") auto
  have dig: "list_all is_digit (fmt_d n)" by (rule fmt_d_digits)
  have i: "num_int (fmt_d n @ r) = Some (fmt_d n, r)"
  proof (cases "n = 0")
    case True
    have "fmt_d 0 = [48]" by (simp add: fmt_d.simps digit_def)
    then show ?thesis using True by (simp add: num_int_def)
  next
    case False
    then have "b \<noteq> 48" using fmt_d_first [of n] bd by simp
    then show ?thesis
      using takeWhile_digits [OF dig nd(1)] bd by (simp add: num_int_def digits_def Let_def)
  qed
  have "b \<noteq> 45" using dig bd is_digit_neq by simp
  then show ?thesis using i rest bd by (simp add: json_number_def)
qed

lemma json_quote_unfold: "json_quote s = 34 # concat (map json_escape (runes s)) @ [34]"
  by (simp add: json_quote_def)

lemma literal_bytes:
  "str ''null'' = [110, 117, 108, 108]" "str ''true'' = [116, 114, 117, 101]"
  "str ''false'' = [102, 97, 108, 115, 101]"
  by (simp_all add: str_def)

lemma json_literal_num:
  assumes "delim r" shows "json_literal (fmt_d n @ r) = Some (JNum (fmt_d n), r)"
proof -
  obtain b d where bd: "fmt_d n = b # d" by (cases "fmt_d n") auto
  have "is_digit b" using fmt_d_digits [of n] bd by simp
  then have "b \<noteq> 110 \<and> b \<noteq> 116 \<and> b \<noteq> 102" by (auto simp: is_digit_def)
  then show ?thesis
    using json_number_fmt_d [OF assms, of n] bd by (simp add: json_literal_def literal_bytes take_Cons')
qed

text \<open>The first byte of a printed value tells its kind; it is never a space or a closing bracket.\<close>

lemma Marshal_first:
  assumes "json_ok v"
  obtains b r where "Marshal v = b # r" "\<not> is_ws b" "b \<noteq> 93" "b \<noteq> 125"
proof (cases v)
  case (JNum t)
  have "list_all is_digit t" "t \<noteq> []"
    using assms JNum fmt_d_digits fmt_d_not_Nil by (metis json_ok.simps(1))+
  then obtain b d where bd: "t = b # d" "is_digit b" by (cases t) auto
  then have "\<not> is_ws b \<and> b \<noteq> 93 \<and> b \<noteq> 125" by (auto simp: is_ws_def is_digit_def)
  then show ?thesis using that [of b d] JNum bd(1) by simp
next
  case (JBool b)
  then show ?thesis using that by (cases b) (simp_all add: literal_bytes is_ws_def)
qed (use that in \<open>simp_all add: literal_bytes is_ws_def json_quote_def\<close>)

text \<open>Elements, members and their separators read back, given that the values do.\<close>

definition reads_back :: "json \<Rightarrow> bool" where
  "reads_back v \<longleftrightarrow>
     (\<forall>n r. length (Marshal v) \<le> n \<longrightarrow> delim r \<longrightarrow> p_value n (Marshal v @ r) = Some (v, r))"

lemma reads_backD:
  "reads_back v \<Longrightarrow> length (Marshal v) \<le> n \<Longrightarrow> delim r \<Longrightarrow> p_value n (Marshal v @ r) = Some (v, r)"
  by (simp add: reads_back_def)

lemma delim_intros: "delim (44 # r)" "delim (93 # r)" "delim (125 # r)"
  by (simp_all add: delim_def)

lemma not_ws: "\<not> is_ws 44" "\<not> is_ws 93" "\<not> is_ws 125" "\<not> is_ws 34" "\<not> is_ws 58"
  by (simp_all add: is_ws_def)

lemma join_cons: "xs \<noteq> [] \<Longrightarrow> join (x # xs) = x @ 44 # join xs"
  by (cases xs) simp_all

lemma skip_ws_value: "json_ok v \<Longrightarrow> skip_ws (Marshal v @ r) = Marshal v @ r"
  by (erule Marshal_first) simp

lemma p_elems_join:
  assumes "xs \<noteq> []" and "\<forall>x \<in> set xs. json_ok x \<and> reads_back x"
    and "length (join (map Marshal xs)) < n"
  shows "p_elems n (join (map Marshal xs) @ 93 # r) = Some (xs, r)"
  using assms
proof (induction xs arbitrary: n)
  case (Cons x xs)
  obtain m where n: "n = Suc m" using Cons.prems(3) by (cases n) auto
  have x: "json_ok x" "reads_back x" using Cons.prems(2) by simp_all
  show ?case
  proof (cases "xs = []")
    case True
    have "p_value m (Marshal x @ 93 # r) = Some (x, 93 # r)"
      using reads_backD [OF x(2) _ delim_intros(2)] Cons.prems(3) True n by simp
    then show ?thesis using True n by (simp add: p_elems.simps(2) not_ws)
  next
    case False
    let ?t = "44 # join (map Marshal xs) @ 93 # r"
    have len: "length (Marshal x) \<le> m" "length (join (map Marshal xs)) < m"
      using Cons.prems(3) False n by (simp_all add: join_cons)
    have v: "p_value m (Marshal x @ ?t) = Some (x, ?t)" using reads_backD [OF x(2) len(1) delim_intros(1)] .
    obtain y ys where xs: "xs = y # ys" using False by (cases xs) auto
    have "skip_ws (join (map Marshal xs) @ 93 # r) = join (map Marshal xs) @ 93 # r"
      using Cons.prems(2) xs skip_ws_value [of y] by (cases ys) simp_all
    then show ?thesis
      using v Cons.IH [OF False _ len(2)] Cons.prems(2) False n by (simp add: join_cons p_elems.simps(2) not_ws)
  qed
qed simp

definition member_bytes :: "bytes \<times> json \<Rightarrow> bytes" where
  "member_bytes m = json_quote (fst m) @ 58 # Marshal (snd m)"

lemma p_members_step:
  assumes "valid_utf8 k" and "json_ok v" and "reads_back v" and "length (Marshal v) \<le> m" and "delim (c # t)"
  shows "p_members (Suc m) (member_bytes (k, v) @ c # t) =
    (if c = 125 then Some ([(k, v)], t)
     else if c = 44 then map_option (\<lambda>(ms, z). ((k, v) # ms, z)) (p_members m (skip_ws t)) else None)"
proof -
  have "\<not> is_ws c" using assms(5) by (auto simp: delim_def is_ws_def)
  then show ?thesis
    using json_unquote_quote [OF assms(1), of "58 # Marshal v @ c # t"] reads_backD [OF assms(3,4,5)]
      skip_ws_value [OF assms(2)]
    by (simp add: member_bytes_def json_quote_def p_members.simps(2) not_ws)
qed

lemma p_members_join:
  assumes "ms \<noteq> []" and "\<forall>(k, v) \<in> set ms. valid_utf8 k \<and> json_ok v \<and> reads_back v"
    and "length (join (map member_bytes ms)) < n"
  shows "p_members n (join (map member_bytes ms) @ 125 # r) = Some (ms, r)"
  using assms
proof (induction ms arbitrary: n)
  case (Cons x ms)
  obtain k v where x: "x = (k, v)" by (cases x)
  obtain m where n: "n = Suc m" using Cons.prems(3) by (cases n) auto
  have ok: "valid_utf8 k" "json_ok v" "reads_back v" using Cons.prems(2) x by auto
  show ?case
  proof (cases "ms = []")
    case True
    have "length (Marshal v) \<le> m" using Cons.prems(3) True n x by (simp add: member_bytes_def)
    then show ?thesis
      using p_members_step [OF ok _ delim_intros(3)] True n x by simp
  next
    case False
    let ?t = "join (map member_bytes ms) @ 125 # r"
    have len: "length (Marshal v) \<le> m" "length (join (map member_bytes ms)) < m"
      using Cons.prems(3) False n x by (simp_all add: join_cons member_bytes_def [of "(k, v)"])
    obtain y ys where ms: "ms = y # ys" using False by (cases ms) auto
    have "skip_ws ?t = ?t" using ms by (cases ys) (simp_all add: member_bytes_def json_quote_def not_ws)
    then show ?thesis
      using p_members_step [OF ok len(1) delim_intros(1), of ?t] Cons.IH [OF False _ len(2)] Cons.prems(2) False n x
      by (simp add: join_cons)
  qed
qed simp

lemma Marshal_reads_back: "json_ok v \<Longrightarrow> reads_back v"
proof (induction v)
  case (JArr xs)
  have IH: "\<forall>x \<in> set xs. json_ok x \<and> reads_back x" using JArr by (simp add: list_all_iff)
  show ?case
    unfolding reads_back_def
  proof (intro allI impI)
    fix n r assume n: "length (Marshal (JArr xs)) \<le> n" and "delim r"
    obtain m where m: "n = Suc m" using n by (cases n) auto
    show "p_value n (Marshal (JArr xs) @ r) = Some (JArr xs, r)"
    proof (cases "xs = []")
      case True
      then show ?thesis using m by (simp add: p_value.simps(2) not_ws)
    next
      case False
      then obtain y ys where xs: "xs = y # ys" by (cases xs) auto
      have y: "json_ok y" using IH xs by simp
      obtain b t where b: "Marshal y = b # t" "\<not> is_ws b" "b \<noteq> 93" using Marshal_first [OF y] by metis
      obtain t' where t': "join (map Marshal xs) @ 93 # r = b # t'" using xs b by (cases ys) simp_all
      have "p_elems m (b # t') = Some (xs, r)"
        using p_elems_join [OF False IH, of m r] n m t' by simp
      then show ?thesis using m t' b by (simp add: p_value.simps(2) Let_def)
    qed
  qed
next
  case (JObj ms)
  have IH: "\<forall>(k, v) \<in> set ms. valid_utf8 k \<and> json_ok v \<and> reads_back v"
    using JObj by (fastforce simp: list_all_iff)
  have "(\<lambda>(k, v). json_quote k @ 58 # Marshal v) = member_bytes" by (auto simp: member_bytes_def)
  then have M: "Marshal (JObj ms) = 123 # join (map member_bytes ms) @ [125]" by simp
  show ?case
    unfolding reads_back_def M
  proof (intro allI impI)
    fix n r assume n: "length (123 # join (map member_bytes ms) @ [125]) \<le> n" and "delim r"
    obtain m where m: "n = Suc m" using n by (cases n) auto
    show "p_value n ((123 # join (map member_bytes ms) @ [125]) @ r) = Some (JObj ms, r)"
    proof (cases "ms = []")
      case True
      then show ?thesis using m by (simp add: p_value.simps(2) not_ws)
    next
      case False
      then obtain y ys where ms: "ms = y # ys" by (cases ms) auto
      obtain t' where t': "join (map member_bytes ms) @ 125 # r = 34 # t'"
        using ms by (cases ys) (simp_all add: member_bytes_def json_quote_def)
      have "p_members m (34 # t') = Some (ms, r)"
        using p_members_join [OF False IH, of m r] n m t' by simp
      then show ?thesis using m t' by (simp add: p_value.simps(2) Let_def not_ws)
    qed
  qed
next
  case (JStr s)
  have "p_value n (json_quote s @ r) = Some (JStr s, r)" if "0 < n" for n r
    using that json_unquote_quote [of s r] JStr by (cases n) (simp_all add: p_value.simps(2) json_quote_def)
  then show ?case by (auto simp: reads_back_def json_quote_def)
next
  case (JNum t)
  obtain k where k: "t = fmt_d k" using JNum by (metis json_ok.simps(1))
  have "list_all is_digit t" "t \<noteq> []" using k fmt_d_digits fmt_d_not_Nil by simp_all
  then obtain b d where bd: "t = b # d" "is_digit b" by (cases t) auto
  have "b \<noteq> 34 \<and> b \<noteq> 91 \<and> b \<noteq> 123" using bd(2) by (auto simp: is_digit_def)
  moreover have "json_literal ((b # d) @ r) = Some (JNum (b # d), r)" if "delim r" for r
    using json_literal_num [OF that, of k] unfolding k [symmetric] bd(1) .
  ultimately have "p_value n ((b # d) @ r) = Some (JNum (b # d), r)" if "0 < n" "delim r" for n r
    using that by (cases n) (simp_all add: p_value.simps(2))
  then show ?case unfolding bd(1) by (auto simp: reads_back_def)
next
  case (JBool b)
  have "p_value n (Marshal (JBool b) @ r) = Some (JBool b, r)" if "0 < n" for n r
    using that by (cases n; cases b) (simp_all add: p_value.simps(2) json_literal_def literal_bytes)
  moreover have "0 < length (Marshal (JBool b))" by (simp add: literal_bytes)
  ultimately show ?case unfolding reads_back_def by (metis order.strict_trans2)
next
  case JNull
  have "p_value n (Marshal JNull @ r) = Some (JNull, r)" if "0 < n" for n r
    using that by (cases n) (simp_all add: p_value.simps(2) json_literal_def literal_bytes)
  moreover have "0 < length (Marshal JNull)" by (simp add: literal_bytes)
  ultimately show ?case unfolding reads_back_def by (metis order.strict_trans2)
qed

text \<open>The round trip: what \<^verbatim>\<open>Marshal\<close> prints is parsed back, whatever its nesting.\<close>

lemma json_parse_Marshal:
  assumes "json_ok v" shows "json_parse (Marshal v) = Some v"
proof -
  have "p_value (Suc (length (Marshal v))) (Marshal v @ []) = Some (v, [])"
    by (rule reads_backD [OF Marshal_reads_back [OF assms]]) (simp_all add: delim_def)
  then show ?thesis using skip_ws_value [OF assms, of "[]"] by (simp add: json_parse_def skip_ws_def)
qed

end
