(* ===== verification/Raft.thy ===== *)
theory Raft
  imports Go_IO JSON
begin

text \<open>
  \<^verbatim>\<open>internal/raft/raft.go\<close>, \<^verbatim>\<open>persist.go\<close> and \<^verbatim>\<open>snapshot.go\<close>: one Raft node. Every handler runs
  under the node's lock, so it is a function from the node to the node; the goroutines a handler
  starts to send RPCs are the list of requests it returns, and the code each goroutine runs on
  the reply is a handler of its own.

  Terms and indices are natural numbers; the one increment that can leave 64 bits, the term of a
  new election, wraps. The node carries the file system it persists to; \<^verbatim>\<open>persist\<close> and the
  snapshot writer may fail at every system call. A panic (an index outside the log) is \<open>None\<close>.
  The buffered channel \<^verbatim>\<open>commitNotify\<close> of capacity one is a flag. Time is an argument.
\<close>

section \<open>Types\<close>

definition heartbeatInterval :: int where
  "heartbeatInterval = 50 * 1000000"

definition electionTimeoutMin :: int where
  "electionTimeoutMin = 200 * 1000000"

definition electionTimeoutMax :: int where
  "electionTimeoutMax = 400 * 1000000"

datatype Role = Follower | Candidate | Leader

fun Role_String :: "Role \<Rightarrow> bytes" where
  "Role_String Follower = str ''Follower''"
| "Role_String Candidate = str ''Candidate''"
| "Role_String Leader = str ''Leader''"

text \<open>A \<^verbatim>\<open>nil\<close> command is \<open>None\<close>.\<close>

record LogEntry =
  le_Term :: nat
  le_Command :: "bytes option"

record ApplyMsg =
  am_CommandIndex :: nat
  am_Command :: bytes

record RequestVoteArgs =
  rv_Term :: nat
  rv_CandidateId :: bytes
  rv_LastLogIndex :: nat
  rv_LastLogTerm :: nat

record RequestVoteReply =
  rvr_Term :: nat
  rvr_VoteGranted :: bool

record AppendEntriesArgs =
  ae_Term :: nat
  ae_LeaderId :: bytes
  ae_PrevLogIndex :: nat
  ae_PrevLogTerm :: nat
  ae_Entries :: "LogEntry list"
  ae_LeaderCommit :: nat

record AppendEntriesReply =
  aer_Term :: nat
  aer_Success :: bool
  aer_ConflictIndex :: nat
  aer_ConflictTerm :: nat

text \<open>The maps \<^verbatim>\<open>nextIndex\<close> and \<^verbatim>\<open>matchIndex\<close> read as 0 where they have no entry.\<close>

record Node =
  nd_id :: bytes
  nd_peers :: "bytes list"
  nd_statePath :: bytes
  nd_snapshotPath :: bytes
  nd_snapshotIndex :: nat
  nd_snapshotTerm :: nat
  nd_currentTerm :: nat
  nd_votedFor :: bytes
  nd_log :: "LogEntry list"
  nd_commitIndex :: nat
  nd_lastApplied :: nat
  nd_role :: Role
  nd_leaderId :: bytes
  nd_lastHeartbeat :: int
  nd_nextIndex :: "bytes \<Rightarrow> nat"
  nd_matchIndex :: "bytes \<Rightarrow> nat"
  nd_commitNotify :: bool
  nd_stopped :: bool
  nd_fs :: fsys

section \<open>Persistence\<close>

definition enc_LogEntry :: "LogEntry \<Rightarrow> json" where
  "enc_LogEntry e =
     JObj [(str ''Term'', enc_uint (le_Term e)), (str ''Command'', enc_bytes (le_Command e))]"

definition dec_LogEntry :: "json \<Rightarrow> LogEntry option" where
  "dec_LogEntry = dec_struct
     (\<lambda>(k, v) e.
        if field_is ''Term'' k then map_option (\<lambda>t. e\<lparr>le_Term := t\<rparr>) (dec_uint 64 (le_Term e) v)
        else if field_is ''Command'' k then map_option (\<lambda>c. e\<lparr>le_Command := c\<rparr>) (dec_bytes v)
        else Some e)
     \<lparr>le_Term = 0, le_Command = None\<rparr>"

record persistentState =
  ps_CurrentTerm :: nat
  ps_VotedFor :: bytes
  ps_Log :: "LogEntry list"

definition enc_persistentState :: "persistentState \<Rightarrow> json" where
  "enc_persistentState ps =
     JObj [(str ''current_term'', enc_uint (ps_CurrentTerm ps)), (str ''voted_for'', JStr (ps_VotedFor ps)),
           (str ''log'', JArr (map enc_LogEntry (ps_Log ps)))]"

definition dec_persistentState :: "json \<Rightarrow> persistentState option" where
  "dec_persistentState = dec_struct
     (\<lambda>(k, v) p.
        if field_is ''current_term'' k then
          map_option (\<lambda>t. p\<lparr>ps_CurrentTerm := t\<rparr>) (dec_uint 64 (ps_CurrentTerm p) v)
        else if field_is ''voted_for'' k then
          map_option (\<lambda>s. p\<lparr>ps_VotedFor := s\<rparr>) (dec_string (ps_VotedFor p) v)
        else if field_is ''log'' k then
          map_option (\<lambda>l. p\<lparr>ps_Log := l\<rparr>) (dec_slice dec_LogEntry v)
        else Some p)
     \<lparr>ps_CurrentTerm = 0, ps_VotedFor = [], ps_Log = []\<rparr>"

definition node_state :: "Node \<Rightarrow> persistentState" where
  "node_state n = \<lparr>ps_CurrentTerm = nd_currentTerm n, ps_VotedFor = nd_votedFor n, ps_Log = nd_log n\<rparr>"

definition persist :: "Node \<Rightarrow> bool \<times> Node" where
  "persist n =
     (if nd_statePath n = [] then (True, n)
      else case write_via_tmp (nd_statePath n) (Marshal (enc_persistentState (node_state n))) (nd_fs n) of
        (ok, fs) \<Rightarrow> (ok, n\<lparr>nd_fs := fs\<rparr>))"

text \<open>\<open>None\<close> is an error of reading or parsing the file.\<close>

definition restoreState :: "Node \<Rightarrow> Node option" where
  "restoreState n =
     (if nd_statePath n = [] then Some n
      else case os_Open (nd_statePath n) (nd_fs n) of
        NotExist \<Rightarrow> Some n
      | OpenErr \<Rightarrow> None
      | Opened data \<Rightarrow>
          (case Option.bind (json_parse data) dec_persistentState of
             None \<Rightarrow> None
           | Some ps \<Rightarrow>
               Some (n\<lparr>nd_currentTerm := ps_CurrentTerm ps, nd_votedFor := ps_VotedFor ps,
                       nd_log := ps_Log ps\<rparr>)))"

section \<open>Snapshots\<close>

text \<open>The field \<^verbatim>\<open>Data\<close> is raw JSON; it is kept as the value it denotes.\<close>

record Snapshot =
  sn_LastIncludedIndex :: nat
  sn_LastIncludedTerm :: nat
  sn_Data :: json

definition enc_Snapshot :: "Snapshot \<Rightarrow> json" where
  "enc_Snapshot s =
     JObj [(str ''last_included_index'', enc_uint (sn_LastIncludedIndex s)),
           (str ''last_included_term'', enc_uint (sn_LastIncludedTerm s)), (str ''data'', sn_Data s)]"

definition dec_Snapshot :: "json \<Rightarrow> Snapshot option" where
  "dec_Snapshot = dec_struct
     (\<lambda>(k, v) s.
        if field_is ''last_included_index'' k then
          map_option (\<lambda>i. s\<lparr>sn_LastIncludedIndex := i\<rparr>) (dec_uint 64 (sn_LastIncludedIndex s) v)
        else if field_is ''last_included_term'' k then
          map_option (\<lambda>t. s\<lparr>sn_LastIncludedTerm := t\<rparr>) (dec_uint 64 (sn_LastIncludedTerm s) v)
        else if field_is ''data'' k then Some (s\<lparr>sn_Data := v\<rparr>)
        else Some s)
     \<lparr>sn_LastIncludedIndex = 0, sn_LastIncludedTerm = 0, sn_Data = JNull\<rparr>"

text \<open>\<open>None\<close> is an error, \<open>Some None\<close> no snapshot.\<close>

definition LatestSnapshot :: "Node \<Rightarrow> Snapshot option option" where
  "LatestSnapshot n =
     (if nd_snapshotPath n = [] then Some None
      else case os_Open (nd_snapshotPath n) (nd_fs n) of
        NotExist \<Rightarrow> Some None
      | OpenErr \<Rightarrow> None
      | Opened data \<Rightarrow> map_option Some (Option.bind (json_parse data) dec_Snapshot))"

text \<open>
  The caller's data as \<^verbatim>\<open>json.RawMessage\<close>: a \<^verbatim>\<open>nil\<close> slice (\<open>None\<close>) is written as \<^verbatim>\<open>null\<close>; marshalling
  fails when the data is no JSON text.
\<close>

definition raw_message :: "bytes option \<Rightarrow> json option" where
  "raw_message data = (case data of None \<Rightarrow> Some JNull | Some d \<Rightarrow> json_parse d)"

definition writeSnapshot :: "nat \<Rightarrow> nat \<Rightarrow> bytes option \<Rightarrow> Node \<Rightarrow> bool \<times> Node" where
  "writeSnapshot idx trm data n =
     (if nd_snapshotPath n = [] then (True, n)
      else case raw_message data of
        None \<Rightarrow> (False, n)
      | Some v \<Rightarrow>
          (case write_via_tmp (nd_snapshotPath n)
                  (Marshal (enc_Snapshot \<lparr>sn_LastIncludedIndex = idx, sn_LastIncludedTerm = trm, sn_Data = v\<rparr>))
                  (nd_fs n) of
             (ok, fs) \<Rightarrow> (ok, n\<lparr>nd_fs := fs\<rparr>)))"

datatype snapshot_error = ErrNotCommitted | ErrOutOfRange | ErrWriteSnapshot | ErrPersist

definition TakeSnapshot :: "nat \<Rightarrow> bytes option \<Rightarrow> Node \<Rightarrow> snapshot_error option \<times> Node" where
  "TakeSnapshot upToIndex data n =
     (if upToIndex > nd_commitIndex n then (Some ErrNotCommitted, n)
      else if upToIndex < nd_snapshotIndex n then (None, n)
      else if upToIndex \<ge> length (nd_log n) then (Some ErrOutOfRange, n)
      else
        (let lastTerm = le_Term (nd_log n ! upToIndex)
         in case writeSnapshot upToIndex lastTerm data n of
              (False, n) \<Rightarrow> (Some ErrWriteSnapshot, n)
            | (True, n) \<Rightarrow>
                (let n = n\<lparr>nd_log := \<lparr>le_Term = lastTerm, le_Command = None\<rparr> # drop (Suc upToIndex) (nd_log n),
                           nd_snapshotIndex := upToIndex, nd_snapshotTerm := lastTerm\<rparr>
                 in case persist n of (ok, n) \<Rightarrow> (if ok then None else Some ErrPersist, n))))"

section \<open>Starting a node\<close>

definition sentinel :: "nat \<Rightarrow> LogEntry" where
  "sentinel t = \<lparr>le_Term = t, le_Command = None\<rparr>"

definition blank_node :: "bytes \<Rightarrow> bytes list \<Rightarrow> bytes \<Rightarrow> bytes \<Rightarrow> fsys \<Rightarrow> Node" where
  "blank_node i peers statePath snapshotPath fs =
     \<lparr>nd_id = i, nd_peers = peers, nd_statePath = statePath, nd_snapshotPath = snapshotPath,
      nd_snapshotIndex = 0, nd_snapshotTerm = 0, nd_currentTerm = 0, nd_votedFor = [],
      nd_log = [sentinel 0], nd_commitIndex = 0, nd_lastApplied = 0, nd_role = Follower,
      nd_leaderId = [], nd_lastHeartbeat = 0, nd_nextIndex = \<lambda>_. 0, nd_matchIndex = \<lambda>_. 0,
      nd_commitNotify = False, nd_stopped = False, nd_fs = fs\<rparr>"

definition loadSnapshot :: "Node \<Rightarrow> Node" where
  "loadSnapshot n =
     (case LatestSnapshot n of
        Some (Some s) \<Rightarrow>
          n\<lparr>nd_snapshotIndex := sn_LastIncludedIndex s, nd_snapshotTerm := sn_LastIncludedTerm s,
            nd_commitIndex := sn_LastIncludedIndex s, nd_lastApplied := sn_LastIncludedIndex s,
            nd_log := [sentinel (sn_LastIncludedTerm s)]\<rparr>
      | _ \<Rightarrow> n)"

definition NewNode :: "bytes \<Rightarrow> bytes list \<Rightarrow> bytes \<Rightarrow> bytes \<Rightarrow> fsys \<Rightarrow> Node option" where
  "NewNode i peers statePath snapshotPath fs =
     (let n = loadSnapshot (blank_node i peers statePath snapshotPath fs)
      in case restoreState n of
           None \<Rightarrow> None
         | Some n \<Rightarrow> Some (if nd_log n = [] then n\<lparr>nd_log := [sentinel 0]\<rparr> else n))"

definition Node_Stop :: "Node \<Rightarrow> Node" where
  "Node_Stop n = n\<lparr>nd_stopped := True\<rparr>"

definition Node_State :: "Node \<Rightarrow> Role \<times> nat \<times> bytes" where
  "Node_State n = (nd_role n, nd_currentTerm n, nd_leaderId n)"

definition LogSnapshot :: "Node \<Rightarrow> LogEntry list" where
  "LogSnapshot n = nd_log n"

text \<open>The log is never empty, see \<open>log_never_empty\<close>.\<close>

definition lastLogIndexAndTerm :: "Node \<Rightarrow> nat \<times> nat" where
  "lastLogIndexAndTerm n = (length (nd_log n) - 1, le_Term (last (nd_log n)))"

text \<open>\<open>rnd d\<close> stands for \<^verbatim>\<open>rand.Int63n(d)\<close>.\<close>

definition randDuration :: "(int \<Rightarrow> int) \<Rightarrow> int \<Rightarrow> int \<Rightarrow> int" where
  "randDuration rnd mn mx = (let diff = mx - mn in if diff \<le> 0 then mn else mn + rnd diff)"

section \<open>Sending entries\<close>

definition sendAppendEntries :: "bytes \<Rightarrow> Node \<Rightarrow> AppendEntriesArgs option" where
  "sendAppendEntries peer n =
     (let nextIdx = (if nd_nextIndex n peer < 1 then 1 else nd_nextIndex n peer);
          prevLogIndex = nextIdx - 1
      in if prevLogIndex \<ge> length (nd_log n) then None
         else Some \<lparr>ae_Term = nd_currentTerm n, ae_LeaderId = nd_id n, ae_PrevLogIndex = prevLogIndex,
                    ae_PrevLogTerm = le_Term (nd_log n ! prevLogIndex),
                    ae_Entries = (if length (nd_log n) > nextIdx then drop nextIdx (nd_log n) else []),
                    ae_LeaderCommit = nd_commitIndex n\<rparr>)"

definition broadcastAppendEntries :: "Node \<Rightarrow> (bytes \<times> AppendEntriesArgs) list option" where
  "broadcastAppendEntries n =
     all_some (map (\<lambda>peer. map_option (Pair peer) (sendAppendEntries peer n)) (nd_peers n))"

definition becomeFollower :: "nat \<Rightarrow> Node \<Rightarrow> Node" where
  "becomeFollower trm n =
     snd (persist (n\<lparr>nd_role := Follower, nd_currentTerm := trm, nd_votedFor := []\<rparr>))"

definition becomeLeader :: "Node \<Rightarrow> (Node \<times> (bytes \<times> AppendEntriesArgs) list) option" where
  "becomeLeader n =
     (let lastIdx = fst (lastLogIndexAndTerm n);
          n = n\<lparr>nd_role := Leader, nd_leaderId := nd_id n,
                nd_nextIndex := \<lambda>p. if p \<in> set (nd_peers n) then lastIdx + 1 else 0,
                nd_matchIndex := \<lambda>_. 0\<rparr>
      in map_option (Pair n) (broadcastAppendEntries n))"

section \<open>Elections\<close>

definition startElection :: "int \<Rightarrow> Node \<Rightarrow> Node \<times> (bytes \<times> RequestVoteArgs) list" where
  "startElection now n =
     (let n = n\<lparr>nd_currentTerm := Suc (nd_currentTerm n) mod 2 ^ 64, nd_role := Candidate,
                nd_votedFor := nd_id n, nd_lastHeartbeat := now\<rparr>;
          n = snd (persist n);
          (lastIdx, lastTerm) = lastLogIndexAndTerm n;
          args = \<lparr>rv_Term = nd_currentTerm n, rv_CandidateId = nd_id n, rv_LastLogIndex = lastIdx,
                  rv_LastLogTerm = lastTerm\<rparr>
      in (n, map (\<lambda>peer. (peer, args)) (nd_peers n)))"

definition votes_needed :: "Node \<Rightarrow> nat" where
  "votes_needed n = (length (nd_peers n) + 1) div 2 + 1"

text \<open>
  What the goroutine of one \<^verbatim>\<open>RequestVote\<close> does with the reply: \<open>trm\<close> is the term of its
  election, \<open>votes\<close> the counter the goroutines of that election share.
\<close>

definition onVoteReply ::
  "nat \<Rightarrow> nat \<Rightarrow> RequestVoteReply \<Rightarrow> Node \<Rightarrow> (nat \<times> Node \<times> (bytes \<times> AppendEntriesArgs) list) option" where
  "onVoteReply trm votes reply n =
     (if rvr_Term reply > nd_currentTerm n then Some (votes, becomeFollower (rvr_Term reply) n, [])
      else if nd_role n \<noteq> Candidate \<or> nd_currentTerm n \<noteq> trm then Some (votes, n, [])
      else if rvr_VoteGranted reply then
        (if votes + 1 \<ge> votes_needed n then map_option (Pair (votes + 1)) (becomeLeader n)
         else Some (votes + 1, n, []))
      else Some (votes, n, []))"

text \<open>One turn of \<^verbatim>\<open>electionLoop\<close> and of \<^verbatim>\<open>heartbeatLoop\<close>.\<close>

definition electionTick :: "int \<Rightarrow> int \<Rightarrow> Node \<Rightarrow> Node \<times> (bytes \<times> RequestVoteArgs) list" where
  "electionTick timeout now n =
     (if nd_role n \<noteq> Leader \<and> now - nd_lastHeartbeat n \<ge> timeout then startElection now n else (n, []))"

definition heartbeatTick :: "Node \<Rightarrow> (bytes \<times> AppendEntriesArgs) list option" where
  "heartbeatTick n = (if nd_role n = Leader then broadcastAppendEntries n else Some [])"

definition HandleRequestVote :: "int \<Rightarrow> RequestVoteArgs \<Rightarrow> Node \<Rightarrow> RequestVoteReply \<times> Node" where
  "HandleRequestVote now args n =
     (if rv_Term args < nd_currentTerm n then
        (\<lparr>rvr_Term = nd_currentTerm n, rvr_VoteGranted = False\<rparr>, n)
      else
        (let n = (if rv_Term args > nd_currentTerm n then becomeFollower (rv_Term args) n else n);
             (lastIdx, lastTerm) = lastLogIndexAndTerm n;
             logOK = (rv_LastLogTerm args > lastTerm \<or>
                      (rv_LastLogTerm args = lastTerm \<and> rv_LastLogIndex args \<ge> lastIdx));
             canVote = (nd_votedFor n = [] \<or> nd_votedFor n = rv_CandidateId args)
         in if logOK \<and> canVote then
              (let n = snd (persist (n\<lparr>nd_votedFor := rv_CandidateId args\<rparr>));
                   n = n\<lparr>nd_lastHeartbeat := now\<rparr>
               in (\<lparr>rvr_Term = nd_currentTerm n, rvr_VoteGranted = True\<rparr>, n))
            else (\<lparr>rvr_Term = nd_currentTerm n, rvr_VoteGranted = False\<rparr>, n)))"

section \<open>Replication\<close>

fun replica_count :: "bytes list \<Rightarrow> (bytes \<Rightarrow> nat) \<Rightarrow> nat \<Rightarrow> nat" where
  "replica_count [] m idx = 1"
| "replica_count (p # ps) m idx = replica_count ps m idx + (if m p \<ge> idx then 1 else 0)"

fun advance_loop :: "nat \<Rightarrow> Node \<Rightarrow> Node" where
  "advance_loop 0 n = n"
| "advance_loop (Suc i) n =
     (if Suc i \<le> nd_commitIndex n then n
      else if le_Term (nd_log n ! Suc i) \<noteq> nd_currentTerm n then advance_loop i n
      else if replica_count (nd_peers n) (nd_matchIndex n) (Suc i) * 2 > length (nd_peers n) + 1
      then n\<lparr>nd_commitIndex := Suc i, nd_commitNotify := True\<rparr>
      else advance_loop i n)"

definition maybeAdvanceCommitIndex :: "Node \<Rightarrow> Node" where
  "maybeAdvanceCommitIndex n = advance_loop (length (nd_log n) - 1) n"

text \<open>The last index above 0 whose entry has the given term, 0 if there is none.\<close>

fun last_of_term :: "nat \<Rightarrow> LogEntry list \<Rightarrow> nat \<Rightarrow> nat" where
  "last_of_term t log 0 = 0"
| "last_of_term t log (Suc i) = (if le_Term (log ! Suc i) = t then Suc i else last_of_term t log i)"

text \<open>What the goroutine of one \<^verbatim>\<open>AppendEntries\<close> does with the reply.\<close>

definition onAppendReply ::
  "bytes \<Rightarrow> AppendEntriesArgs \<Rightarrow> AppendEntriesReply \<Rightarrow> Node \<Rightarrow> (Node \<times> (bytes \<times> AppendEntriesArgs) list) option" where
  "onAppendReply peer args reply n =
     (if aer_Term reply > nd_currentTerm n then Some (becomeFollower (aer_Term reply) n, [])
      else if nd_role n \<noteq> Leader \<or> nd_currentTerm n \<noteq> ae_Term args then Some (n, [])
      else if aer_Success reply then
        (let newMatch = ae_PrevLogIndex args + length (ae_Entries args);
             m = (if newMatch > nd_matchIndex n peer then newMatch else nd_matchIndex n peer);
             n = n\<lparr>nd_matchIndex := (nd_matchIndex n)(peer := m), nd_nextIndex := (nd_nextIndex n)(peer := m + 1)\<rparr>
         in Some (maybeAdvanceCommitIndex n, []))
      else
        (let nxt =
               (if aer_ConflictTerm reply \<noteq> 0 then
                  (let found = last_of_term (aer_ConflictTerm reply) (nd_log n) (length (nd_log n) - 1)
                   in if found > 0 then found + 1 else aer_ConflictIndex reply)
                else if aer_ConflictIndex reply > 0 then aer_ConflictIndex reply
                else if nd_nextIndex n peer > 1 then nd_nextIndex n peer - 1
                else nd_nextIndex n peer);
             n = n\<lparr>nd_nextIndex := (nd_nextIndex n)(peer := nxt)\<rparr>
         in map_option (\<lambda>a. (n, [(peer, a)])) (sendAppendEntries peer n)))"

fun conflict_index :: "LogEntry list \<Rightarrow> nat \<Rightarrow> nat \<Rightarrow> nat" where
  "conflict_index log t 0 = 0"
| "conflict_index log t (Suc i) =
     (if Suc i > 1 \<and> le_Term (log ! i) = t then conflict_index log t i else Suc i)"

fun append_loop :: "nat \<Rightarrow> LogEntry list \<Rightarrow> LogEntry list \<Rightarrow> LogEntry list" where
  "append_loop idx [] log = log"
| "append_loop idx (e # es) log =
     append_loop (Suc idx) es
       (if idx < length log then (if le_Term (log ! idx) \<noteq> le_Term e then take idx log @ [e] else log)
        else log @ [e])"

definition HandleAppendEntries :: "int \<Rightarrow> AppendEntriesArgs \<Rightarrow> Node \<Rightarrow> AppendEntriesReply \<times> Node" where
  "HandleAppendEntries now args n =
     (if ae_Term args < nd_currentTerm n then
        (\<lparr>aer_Term = nd_currentTerm n, aer_Success = False, aer_ConflictIndex = 0, aer_ConflictTerm = 0\<rparr>, n)
      else
        (let n = becomeFollower (ae_Term args) n;
             n = n\<lparr>nd_leaderId := ae_LeaderId args, nd_lastHeartbeat := now\<rparr>;
             prev = ae_PrevLogIndex args
         in if prev \<ge> length (nd_log n) then
              (\<lparr>aer_Term = nd_currentTerm n, aer_Success = False, aer_ConflictIndex = length (nd_log n),
                aer_ConflictTerm = 0\<rparr>, n)
            else if le_Term (nd_log n ! prev) \<noteq> ae_PrevLogTerm args then
              (let ct = le_Term (nd_log n ! prev)
               in (\<lparr>aer_Term = nd_currentTerm n, aer_Success = False,
                    aer_ConflictIndex = conflict_index (nd_log n) ct prev, aer_ConflictTerm = ct\<rparr>, n))
            else
              (let n = n\<lparr>nd_log := append_loop (Suc prev) (ae_Entries args) (nd_log n)\<rparr>;
                   n = (if ae_Entries args \<noteq> [] then snd (persist n) else n);
                   lastNew = prev + length (ae_Entries args);
                   n = (if ae_LeaderCommit args > nd_commitIndex n
                        then n\<lparr>nd_commitIndex := (if ae_LeaderCommit args < lastNew then ae_LeaderCommit args else lastNew),
                               nd_commitNotify := True\<rparr>
                        else n)
               in (\<lparr>aer_Term = nd_currentTerm n, aer_Success = True, aer_ConflictIndex = 0, aer_ConflictTerm = 0\<rparr>, n))))"

section \<open>Clients and the apply loop\<close>

text \<open>The index, the term and whether the node is the leader; the requests of the broadcast.\<close>

definition Propose ::
  "bytes \<Rightarrow> Node \<Rightarrow> ((nat \<times> nat \<times> bool) \<times> Node \<times> (bytes \<times> AppendEntriesArgs) list) option" where
  "Propose command n =
     (if nd_role n \<noteq> Leader then Some ((0, nd_currentTerm n, False), n, [])
      else
        (let n = n\<lparr>nd_log := nd_log n @ [\<lparr>le_Term = nd_currentTerm n, le_Command = Some command\<rparr>]\<rparr>;
             idx = length (nd_log n) - 1;
             n = n\<lparr>nd_matchIndex := (nd_matchIndex n)(nd_id n := idx)\<rparr>;
             n = snd (persist n)
         in map_option (\<lambda>rpcs. ((idx, nd_currentTerm n, True), n, rpcs)) (broadcastAppendEntries n)))"

text \<open>
  One turn of the inner loop of \<^verbatim>\<open>applyLoop\<close>: the next entry, sent to the state machine unless its
  command is nil. \<open>None\<close> is a panic; without an entry to apply the node is unchanged.
\<close>

definition applyStep :: "Node \<Rightarrow> (ApplyMsg option \<times> Node) option" where
  "applyStep n =
     (if nd_lastApplied n < nd_commitIndex n then
        (let idx = Suc (nd_lastApplied n)
         in if idx \<ge> length (nd_log n) then None
            else Some (map_option (\<lambda>c. \<lparr>am_CommandIndex = idx, am_Command = c\<rparr>) (le_Command (nd_log n ! idx)),
                       n\<lparr>nd_lastApplied := idx\<rparr>))
      else Some (None, n))"

end
