(* ===== verification/Raft_Node.thy ===== *)
theory Raft_Node
  imports Raft
begin

text \<open>
  Correctness of a single node of \<^theory_text>\<open>Raft\<close>: durability of term, vote and log across a
  restart, monotonicity, the commit rule, the log after \<^verbatim>\<open>AppendEntries\<close>, the order of applied
  entries, and the exchange in which a leader brings a follower's log up to date.
\<close>

section \<open>Lemmas: the state file\<close>

lemma ascii_literals:
  "valid_utf8 (str ''Term'')" "valid_utf8 (str ''Command'')" "valid_utf8 (str ''current_term'')"
  "valid_utf8 (str ''voted_for'')" "valid_utf8 (str ''log'')"
  by (rule valid_utf8_ascii; simp add: str_def)+

lemma field_names:
  "field_is ''Term'' (str ''Term'')" "\<not> field_is ''Term'' (str ''Command'')" "field_is ''Command'' (str ''Command'')"
  "field_is ''current_term'' (str ''current_term'')"
  "\<not> field_is ''current_term'' (str ''voted_for'')" "field_is ''voted_for'' (str ''voted_for'')"
  "\<not> field_is ''current_term'' (str ''log'')" "\<not> field_is ''voted_for'' (str ''log'')" "field_is ''log'' (str ''log'')"
  by (simp_all add: field_is_def fold_name_def str_def fold_rune_def)

lemma dec_uint_enc: "n < 2 ^ w \<Longrightarrow> dec_uint w old (enc_uint n) = Some n"
  using fmt_d_digits [of n] by (simp add: dec_uint_def enc_uint_def Atoi_digits_def)

lemma json_ok_uint: "json_ok (enc_uint n)"
  by (simp add: enc_uint_def)

lemma dec_bytes_enc: "dec_bytes (enc_bytes x) = Some x"
  by (cases x) (simp_all add: dec_bytes_def enc_bytes_def)

lemma dec_LogEntry_enc: "le_Term e < 2 ^ 64 \<Longrightarrow> dec_LogEntry (enc_LogEntry e) = Some e"
  by (simp add: dec_LogEntry_def enc_LogEntry_def dec_struct_def field_names dec_uint_enc dec_bytes_enc)

lemma json_ok_LogEntry: "json_ok (enc_LogEntry e)"
  by (simp add: enc_LogEntry_def ascii_literals json_ok_uint json_ok_bytes)

lemma all_some_map: "(\<And>x. x \<in> set xs \<Longrightarrow> f x = Some (g x)) \<Longrightarrow> all_some (map f xs) = Some (map g xs)"
  by (induction xs) simp_all

text \<open>Persistent state that survives its encoding.\<close>

definition state_ok :: "persistentState \<Rightarrow> bool" where
  "state_ok ps \<longleftrightarrow>
     ps_CurrentTerm ps < 2 ^ 64 \<and> valid_utf8 (ps_VotedFor ps) \<and> (\<forall>e \<in> set (ps_Log ps). le_Term e < 2 ^ 64)"

lemma persistentState_roundtrip:
  assumes "state_ok ps"
  shows "Option.bind (json_parse (Marshal (enc_persistentState ps))) dec_persistentState = Some ps"
proof -
  have "json_ok (enc_persistentState ps)"
    using assms by (simp add: enc_persistentState_def state_ok_def ascii_literals json_ok_uint list_all_iff json_ok_LogEntry)
  moreover have "dec_slice dec_LogEntry (JArr (map enc_LogEntry (ps_Log ps))) = Some (ps_Log ps)"
    using all_some_map [of "ps_Log ps" "dec_LogEntry \<circ> enc_LogEntry" "\<lambda>e. e"] assms
    by (simp add: dec_slice_def state_ok_def dec_LogEntry_enc)
  moreover from this have "dec_persistentState (enc_persistentState ps) = Some ps"
    using assms
    by (simp add: dec_persistentState_def enc_persistentState_def dec_struct_def field_names
        dec_uint_enc dec_string_def state_ok_def)
  ultimately show ?thesis by (simp only: json_parse_Marshal bind.simps)
qed

section \<open>Lemmas: persist\<close>

lemma persist_simps [simp]:
  "nd_id (snd (persist n)) = nd_id n" "nd_peers (snd (persist n)) = nd_peers n"
  "nd_statePath (snd (persist n)) = nd_statePath n" "nd_snapshotPath (snd (persist n)) = nd_snapshotPath n"
  "nd_snapshotIndex (snd (persist n)) = nd_snapshotIndex n" "nd_snapshotTerm (snd (persist n)) = nd_snapshotTerm n"
  "nd_currentTerm (snd (persist n)) = nd_currentTerm n" "nd_votedFor (snd (persist n)) = nd_votedFor n"
  "nd_log (snd (persist n)) = nd_log n" "nd_commitIndex (snd (persist n)) = nd_commitIndex n"
  "nd_lastApplied (snd (persist n)) = nd_lastApplied n" "nd_role (snd (persist n)) = nd_role n"
  "nd_leaderId (snd (persist n)) = nd_leaderId n" "nd_lastHeartbeat (snd (persist n)) = nd_lastHeartbeat n"
  "nd_nextIndex (snd (persist n)) = nd_nextIndex n" "nd_matchIndex (snd (persist n)) = nd_matchIndex n"
  "nd_commitNotify (snd (persist n)) = nd_commitNotify n" "nd_stopped (snd (persist n)) = nd_stopped n"
  by (simp_all add: persist_def case_prod_beta)

lemma becomeFollower_simps [simp]:
  "nd_id (becomeFollower t n) = nd_id n" "nd_peers (becomeFollower t n) = nd_peers n"
  "nd_statePath (becomeFollower t n) = nd_statePath n" "nd_snapshotPath (becomeFollower t n) = nd_snapshotPath n"
  "nd_currentTerm (becomeFollower t n) = t" "nd_votedFor (becomeFollower t n) = []"
  "nd_log (becomeFollower t n) = nd_log n" "nd_commitIndex (becomeFollower t n) = nd_commitIndex n"
  "nd_lastApplied (becomeFollower t n) = nd_lastApplied n" "nd_role (becomeFollower t n) = Follower"
  "nd_nextIndex (becomeFollower t n) = nd_nextIndex n" "nd_matchIndex (becomeFollower t n) = nd_matchIndex n"
  by (simp_all add: becomeFollower_def)

text \<open>
  The disk is usable: a state path that is not one of the snapshot's files, and no failures. The
  state file then holds exactly the node's persistent state.
\<close>

definition disk_ok :: "Node \<Rightarrow> bool" where
  "disk_ok n \<longleftrightarrow>
     nd_statePath n \<noteq> [] \<and> fs_faults (nd_fs n) = [] \<and> \<not> fs_unreadable (nd_fs n) (nd_statePath n) \<and>
     nd_snapshotPath n \<noteq> nd_statePath n \<and> nd_snapshotPath n @ tmp_suffix \<noteq> nd_statePath n"

definition durable :: "Node \<Rightarrow> bool" where
  "durable n \<longleftrightarrow>
     disk_ok n \<and>
     fs_files (nd_fs n) (nd_statePath n) = Some (Marshal (enc_persistentState (node_state n)))"

lemma persist_durable: "disk_ok n \<Longrightarrow> fst (persist n) \<and> durable (snd (persist n))"
proof -
  assume d: "disk_ok n"
  obtain ok fs where w: "write_via_tmp (nd_statePath n) (Marshal (enc_persistentState (node_state n))) (nd_fs n) = (ok, fs)"
    by (metis prod.exhaust)
  note sp = write_via_tmp_spec [OF w]
  have "ok" "fs_faults fs = []" using sp(4) d by (simp_all add: disk_ok_def)
  moreover have "persist n = (ok, n\<lparr>nd_fs := fs\<rparr>)" using d w by (simp add: persist_def disk_ok_def)
  ultimately show ?thesis using sp(1,3) d by (simp add: durable_def disk_ok_def node_state_def)
qed

lemma durable_cong:
  assumes "durable n" and "nd_statePath n' = nd_statePath n" "nd_snapshotPath n' = nd_snapshotPath n" "nd_fs n' = nd_fs n"
    "nd_currentTerm n' = nd_currentTerm n" "nd_votedFor n' = nd_votedFor n" "nd_log n' = nd_log n"
  shows "durable n'"
  using assms by (simp add: durable_def disk_ok_def node_state_def)

lemma durable_disk: "durable n \<Longrightarrow> disk_ok n"
  by (simp add: durable_def)

lemma disk_ok_cong:
  assumes "disk_ok n" and "nd_statePath n' = nd_statePath n" "nd_snapshotPath n' = nd_snapshotPath n" "nd_fs n' = nd_fs n"
  shows "disk_ok n'"
  using assms by (simp add: disk_ok_def)

lemma persist_durable':
  assumes "disk_ok n" and "nd_statePath n' = nd_statePath n" "nd_snapshotPath n' = nd_snapshotPath n" "nd_fs n' = nd_fs n"
  shows "durable (snd (persist n'))"
  using persist_durable [OF disk_ok_cong [OF assms]] by simp

lemma becomeFollower_durable: "disk_ok n \<Longrightarrow> durable (becomeFollower t n)"
  unfolding becomeFollower_def by (rule persist_durable') simp_all

text \<open>Reading the state file back.\<close>

lemma loadSnapshot_simps [simp]:
  "nd_id (loadSnapshot n) = nd_id n" "nd_statePath (loadSnapshot n) = nd_statePath n"
  "nd_snapshotPath (loadSnapshot n) = nd_snapshotPath n" "nd_fs (loadSnapshot n) = nd_fs n"
  "nd_peers (loadSnapshot n) = nd_peers n" "nd_role (loadSnapshot n) = nd_role n" "nd_currentTerm (loadSnapshot n) = nd_currentTerm n"
  "nd_votedFor (loadSnapshot n) = nd_votedFor n"
  by (simp_all add: loadSnapshot_def split: option.splits)

lemma blank_node_simps [simp]:
  "nd_id (blank_node i ps sp snp fs) = i" "nd_peers (blank_node i ps sp snp fs) = ps" "nd_statePath (blank_node i ps sp snp fs) = sp"
  "nd_snapshotPath (blank_node i ps sp snp fs) = snp" "nd_fs (blank_node i ps sp snp fs) = fs"
  "nd_role (blank_node i ps sp snp fs) = Follower" "nd_currentTerm (blank_node i ps sp snp fs) = 0"
  "nd_votedFor (blank_node i ps sp snp fs) = []" "nd_log (blank_node i ps sp snp fs) = [sentinel 0]"
  by (simp_all add: blank_node_def)

lemma restoreState_absent:
  assumes "\<not> fs_unreadable (nd_fs n) (nd_statePath n)" "nd_statePath n = [] \<or> fs_files (nd_fs n) (nd_statePath n) = None"
  shows "restoreState n = Some n"
  using assms by (auto simp: restoreState_def os_Open_def)

lemma restoreState_file:
  assumes "\<not> fs_unreadable (nd_fs n) (nd_statePath n)" "nd_statePath n \<noteq> []"
    "fs_files (nd_fs n) (nd_statePath n) = Some (Marshal (enc_persistentState ps))" "state_ok ps"
  shows "restoreState n =
     Some (n\<lparr>nd_currentTerm := ps_CurrentTerm ps, nd_votedFor := ps_VotedFor ps, nd_log := ps_Log ps\<rparr>)"
  using assms(1-3) persistentState_roundtrip [OF assms(4)] by (simp add: restoreState_def os_Open_def)

definition restart :: "Node \<Rightarrow> Node option" where
  "restart n = NewNode (nd_id n) (nd_peers n) (nd_statePath n) (nd_snapshotPath n) (nd_fs n)"

lemma restart_file:
  assumes "\<not> fs_unreadable (nd_fs n) (nd_statePath n)" "nd_statePath n \<noteq> []"
    "fs_files (nd_fs n) (nd_statePath n) = Some (Marshal (enc_persistentState ps))" "state_ok ps" "ps_Log ps \<noteq> []"
  obtains m where "restart n = Some m" "nd_currentTerm m = ps_CurrentTerm ps" "nd_votedFor m = ps_VotedFor ps"
    "nd_log m = ps_Log ps" "nd_role m = Follower" "nd_id m = nd_id n" "nd_peers m = nd_peers n"
    "nd_statePath m = nd_statePath n" "nd_snapshotPath m = nd_snapshotPath n" "nd_fs m = nd_fs n"
  using that assms(5) restoreState_file
    [of "loadSnapshot (blank_node (nd_id n) (nd_peers n) (nd_statePath n) (nd_snapshotPath n) (nd_fs n))" ps] assms(1-4)
  by (simp add: restart_def NewNode_def)

section \<open>Events of a node\<close>

text \<open>
  Everything that runs under a node's lock: timers, incoming RPCs, replies, proposals, the apply
  loop and snapshots. \<open>None\<close> is a panic.
\<close>

datatype node_event =
    EvElection int
  | EvRequestVote int RequestVoteArgs
  | EvAppendEntries int AppendEntriesArgs
  | EvVoteReply nat nat RequestVoteReply
  | EvAppendReply bytes AppendEntriesArgs AppendEntriesReply
  | EvPropose bytes
  | EvApply
  | EvSnapshot nat "bytes option"

fun node_step :: "node_event \<Rightarrow> Node \<Rightarrow> Node option" where
  "node_step (EvElection now) n = Some (fst (startElection now n))"
| "node_step (EvRequestVote now a) n = Some (snd (HandleRequestVote now a n))"
| "node_step (EvAppendEntries now a) n = Some (snd (HandleAppendEntries now a n))"
| "node_step (EvVoteReply t votes r) n = map_option (fst \<circ> snd) (onVoteReply t votes r n)"
| "node_step (EvAppendReply p a r) n = map_option fst (onAppendReply p a r n)"
| "node_step (EvPropose c) n = map_option (fst \<circ> snd) (Propose c n)"
| "node_step EvApply n = map_option snd (applyStep n)"
| "node_step (EvSnapshot i d) n = Some (snd (TakeSnapshot i d n))"

fun node_run :: "node_event list \<Rightarrow> Node \<Rightarrow> Node option" where
  "node_run [] n = Some n"
| "node_run (e # es) n = Option.bind (node_step e n) (node_run es)"

text \<open>Events with terms of 64 bits and node names that are text.\<close>

fun event_ok :: "node_event \<Rightarrow> bool" where
  "event_ok (EvRequestVote now a) \<longleftrightarrow> rv_Term a < 2 ^ 64 \<and> valid_utf8 (rv_CandidateId a)"
| "event_ok (EvAppendEntries now a) \<longleftrightarrow> ae_Term a < 2 ^ 64 \<and> (\<forall>e \<in> set (ae_Entries a). le_Term e < 2 ^ 64)"
| "event_ok (EvVoteReply t votes r) \<longleftrightarrow> rvr_Term r < 2 ^ 64"
| "event_ok (EvAppendReply p a r) \<longleftrightarrow> aer_Term r < 2 ^ 64"
| "event_ok _ \<longleftrightarrow> True"

lemma advance_loop_simps [simp]:
  "nd_id (advance_loop i n) = nd_id n" "nd_peers (advance_loop i n) = nd_peers n"
  "nd_statePath (advance_loop i n) = nd_statePath n" "nd_snapshotPath (advance_loop i n) = nd_snapshotPath n"
  "nd_currentTerm (advance_loop i n) = nd_currentTerm n" "nd_votedFor (advance_loop i n) = nd_votedFor n"
  "nd_log (advance_loop i n) = nd_log n" "nd_fs (advance_loop i n) = nd_fs n" "nd_role (advance_loop i n) = nd_role n"
  "nd_lastApplied (advance_loop i n) = nd_lastApplied n" "nd_matchIndex (advance_loop i n) = nd_matchIndex n"
  "nd_nextIndex (advance_loop i n) = nd_nextIndex n"
  by (induction i n rule: advance_loop.induct) simp_all

lemmas maybeAdvance_simps [simp] = advance_loop_simps [of "length (nd_log n) - 1" n for n, folded maybeAdvanceCommitIndex_def]

lemma append_loop_not_Nil: "log \<noteq> [] \<Longrightarrow> append_loop idx es log \<noteq> []"
  by (induction idx es log rule: append_loop.induct) simp_all

lemma append_loop_set: "set (append_loop idx es log) \<subseteq> set log \<union> set es"
proof (induction idx es log rule: append_loop.induct)
  case (2 idx e es log)
  let ?l = "if idx < length log then (if le_Term (log ! idx) \<noteq> le_Term e then take idx log @ [e] else log) else log @ [e]"
  have "set ?l \<subseteq> set log \<union> {e}" using set_take_subset [of idx log] by auto
  then show ?case using 2 by auto
qed simp

text \<open>Case rules of the handlers that may panic.\<close>

lemma becomeLeader_Some:
  assumes "becomeLeader n = Some (n', rpcs)"
  shows "n' = n\<lparr>nd_role := Leader, nd_leaderId := nd_id n,
              nd_nextIndex := \<lambda>p. if p \<in> set (nd_peers n) then fst (lastLogIndexAndTerm n) + 1 else 0,
              nd_matchIndex := \<lambda>_. 0\<rparr>"
  using assms by (auto simp: becomeLeader_def Let_def)

lemma onVoteReply_cases:
  assumes "onVoteReply t votes r n = Some (votes', n', rpcs)"
  obtains (newer) "rvr_Term r > nd_currentTerm n" "n' = becomeFollower (rvr_Term r) n" "votes' = votes"
    | (ignored) "n' = n" "votes' = votes" "\<not> (nd_role n = Candidate \<and> nd_currentTerm n = t \<and> rvr_VoteGranted r)"
    | (counted) "n' = n" "votes' = votes + 1" "votes + 1 < votes_needed n"
        "nd_role n = Candidate" "nd_currentTerm n = t" "rvr_VoteGranted r" "rvr_Term r \<le> nd_currentTerm n"
    | (won) "becomeLeader n = Some (n', rpcs)" "votes' = votes + 1" "votes + 1 \<ge> votes_needed n"
        "nd_role n = Candidate" "nd_currentTerm n = t" "rvr_VoteGranted r" "rvr_Term r \<le> nd_currentTerm n"
  using assms by (auto simp: onVoteReply_def split: if_splits)

lemma onAppendReply_cases:
  assumes "onAppendReply p a r n = Some (n', rpcs)"
  obtains (newer) "aer_Term r > nd_currentTerm n" "n' = becomeFollower (aer_Term r) n"
    | (stale) "n' = n"
    | (success) m where "nd_role n = Leader" "nd_currentTerm n = ae_Term a" "aer_Success r"
        "n' = maybeAdvanceCommitIndex (n\<lparr>nd_matchIndex := (nd_matchIndex n)(p := m),
                 nd_nextIndex := (nd_nextIndex n)(p := m + 1)\<rparr>)"
        "m = max (ae_PrevLogIndex a + length (ae_Entries a)) (nd_matchIndex n p)"
    | (backup) x where "nd_role n = Leader" "n' = n\<lparr>nd_nextIndex := (nd_nextIndex n)(p := x)\<rparr>"
proof -
  consider "aer_Term r > nd_currentTerm n"
    | "\<not> aer_Term r > nd_currentTerm n" "nd_role n \<noteq> Leader \<or> nd_currentTerm n \<noteq> ae_Term a"
    | "\<not> aer_Term r > nd_currentTerm n" "nd_role n = Leader" "nd_currentTerm n = ae_Term a" "aer_Success r"
    | "\<not> aer_Term r > nd_currentTerm n" "nd_role n = Leader" "nd_currentTerm n = ae_Term a" "\<not> aer_Success r"
    by blast
  then show thesis
  proof cases
    case 1
    then show thesis using assms by (intro newer) (simp_all add: onAppendReply_def)
  next
    case 2
    then show thesis using assms by (intro stale) (simp add: onAppendReply_def)
  next
    case 3
    have "(if y < x then x else y) = max x y" for x y :: nat by simp
    with 3 show thesis using assms by (intro success) (simp_all add: onAppendReply_def Let_def)
  next
    case 4
    then have "\<exists>x. n' = n\<lparr>nd_nextIndex := (nd_nextIndex n)(p := x)\<rparr>"
      using assms by (auto simp: onAppendReply_def Let_def)
    then show thesis using backup 4(2) by blast
  qed
qed

lemma Propose_cases:
  assumes "Propose c n = Some ((idx, t, lead), n', rpcs)"
  obtains (refused) "nd_role n \<noteq> Leader" "n' = n" "\<not> lead"
    | (appended) "nd_role n = Leader" "lead" "idx = length (nd_log n)" "t = nd_currentTerm n"
        "n' = snd (persist (n\<lparr>nd_log := nd_log n @ [\<lparr>le_Term = nd_currentTerm n, le_Command = Some c\<rparr>],
                nd_matchIndex := (nd_matchIndex n)(nd_id n := length (nd_log n))\<rparr>))"
        "broadcastAppendEntries n' = Some rpcs"
proof (cases "nd_role n = Leader")
  case True
  then show thesis using assms by (intro appended) (auto simp: Propose_def Let_def)
next
  case False
  then show thesis using assms by (intro refused) (simp_all add: Propose_def)
qed

lemma Node_commit_same: "nd_commitIndex n = c \<Longrightarrow> n\<lparr>nd_commitIndex := c, nd_commitNotify := nd_commitNotify n\<rparr> = n"
  by (cases n) simp

lemma HandleAppendEntries_cases:
  obtains (old) "ae_Term a < nd_currentTerm n" "snd (HandleAppendEntries now a n) = n"
      "\<not> aer_Success (fst (HandleAppendEntries now a n))"
    | (rejected) "nd_currentTerm n \<le> ae_Term a" "\<not> aer_Success (fst (HandleAppendEntries now a n))"
      "snd (HandleAppendEntries now a n) =
         (becomeFollower (ae_Term a) n)\<lparr>nd_leaderId := ae_LeaderId a, nd_lastHeartbeat := now\<rparr>"
    | (accepted) n1 n2 c b where "nd_currentTerm n \<le> ae_Term a" "aer_Success (fst (HandleAppendEntries now a n))"
      "ae_PrevLogIndex a < length (nd_log n)" "le_Term (nd_log n ! ae_PrevLogIndex a) = ae_PrevLogTerm a"
      "n1 = (becomeFollower (ae_Term a) n)\<lparr>nd_leaderId := ae_LeaderId a, nd_lastHeartbeat := now,
              nd_log := append_loop (Suc (ae_PrevLogIndex a)) (ae_Entries a) (nd_log n)\<rparr>"
      "n2 = (if ae_Entries a \<noteq> [] then snd (persist n1) else n1)"
      "snd (HandleAppendEntries now a n) = n2\<lparr>nd_commitIndex := c, nd_commitNotify := b\<rparr>"
      "c = (if ae_LeaderCommit a > nd_commitIndex n
            then min (ae_LeaderCommit a) (ae_PrevLogIndex a + length (ae_Entries a)) else nd_commitIndex n)"
proof -
  consider "ae_Term a < nd_currentTerm n"
    | "\<not> ae_Term a < nd_currentTerm n" "\<not> (ae_PrevLogIndex a < length (nd_log n) \<and>
         le_Term (nd_log n ! ae_PrevLogIndex a) = ae_PrevLogTerm a)"
    | "\<not> ae_Term a < nd_currentTerm n" "ae_PrevLogIndex a < length (nd_log n)"
        "le_Term (nd_log n ! ae_PrevLogIndex a) = ae_PrevLogTerm a" by blast
  then show thesis
  proof cases
    case 1
    then show thesis using old by (simp add: HandleAppendEntries_def)
  next
    case 2
    then show thesis using rejected by (auto simp: HandleAppendEntries_def Let_def)
  next
    case 3
    define n1 where "n1 = (becomeFollower (ae_Term a) n)\<lparr>nd_leaderId := ae_LeaderId a, nd_lastHeartbeat := now,
              nd_log := append_loop (Suc (ae_PrevLogIndex a)) (ae_Entries a) (nd_log n)\<rparr>"
    define n2 where "n2 = (if ae_Entries a \<noteq> [] then snd (persist n1) else n1)"
    let ?c = "min (ae_LeaderCommit a) (ae_PrevLogIndex a + length (ae_Entries a))"
    have le: "nd_currentTerm n \<le> ae_Term a" using 3(1) by simp
    have c2: "nd_commitIndex n2 = nd_commitIndex n" by (simp add: n1_def n2_def)
    have s: "aer_Success (fst (HandleAppendEntries now a n))"
      using 3 by (simp add: HandleAppendEntries_def Let_def)
    have h: "snd (HandleAppendEntries now a n) =
       (if ae_LeaderCommit a > nd_commitIndex n2 then n2\<lparr>nd_commitIndex := ?c, nd_commitNotify := True\<rparr> else n2)"
      using 3 by (simp add: HandleAppendEntries_def Let_def min_def n1_def n2_def)
    show thesis
    proof (cases "ae_LeaderCommit a > nd_commitIndex n")
      case True
      then show thesis by (intro accepted [OF le s 3(2,3) n1_def n2_def, of True ?c]) (simp_all add: h c2)
    next
      case False
      then show thesis using Node_commit_same [OF c2]
        by (intro accepted [OF le s 3(2,3) n1_def n2_def, of "nd_commitNotify n2" "nd_commitIndex n"]) (simp_all add: h c2)
    qed
  qed
qed

section \<open>Well-formed nodes and their disk\<close>

text \<open>The log is never empty, terms have 64 bits and names are text.\<close>

definition node_wf :: "Node \<Rightarrow> bool" where
  "node_wf n \<longleftrightarrow> nd_log n \<noteq> [] \<and> state_ok (node_state n) \<and> valid_utf8 (nd_id n)"

lemma node_wf_iff:
  "node_wf n \<longleftrightarrow> nd_log n \<noteq> [] \<and> nd_currentTerm n < 2 ^ 64 \<and> valid_utf8 (nd_votedFor n) \<and>
     (\<forall>e \<in> set (nd_log n). le_Term e < 2 ^ 64) \<and> valid_utf8 (nd_id n)"
  by (auto simp: node_wf_def state_ok_def node_state_def)

lemma valid_utf8_Nil: "valid_utf8 []"
  by (rule valid_utf8_ascii) simp

lemma becomeFollower_wf: "node_wf n \<Longrightarrow> t < 2 ^ 64 \<Longrightarrow> node_wf (becomeFollower t n)"
  by (simp add: node_wf_iff valid_utf8_Nil)

lemma startElection_node:
  "fst (startElection now n) =
     snd (persist (n\<lparr>nd_currentTerm := Suc (nd_currentTerm n) mod 2 ^ 64, nd_role := Candidate,
                     nd_votedFor := nd_id n, nd_lastHeartbeat := now\<rparr>))"
  by (simp add: startElection_def Let_def case_prod_beta)

lemma startElection_rpcs:
  "snd (startElection now n) =
     map (\<lambda>peer. (peer, \<lparr>rv_Term = Suc (nd_currentTerm n) mod 2 ^ 64, rv_CandidateId = nd_id n,
        rv_LastLogIndex = length (nd_log n) - 1, rv_LastLogTerm = le_Term (last (nd_log n))\<rparr>)) (nd_peers n)"
  by (simp add: startElection_def Let_def case_prod_beta lastLogIndexAndTerm_def)

lemma HandleRequestVote_cases:
  obtains (refused) "\<not> rvr_VoteGranted (fst (HandleRequestVote now a n))"
      "snd (HandleRequestVote now a n) = n \<or>
       nd_currentTerm n < rv_Term a \<and> snd (HandleRequestVote now a n) = becomeFollower (rv_Term a) n"
    | (granted) n1 where "rvr_VoteGranted (fst (HandleRequestVote now a n))" "nd_currentTerm n \<le> rv_Term a"
      "n1 = (if rv_Term a > nd_currentTerm n then becomeFollower (rv_Term a) n else n)"
      "snd (HandleRequestVote now a n) = (snd (persist (n1\<lparr>nd_votedFor := rv_CandidateId a\<rparr>)))\<lparr>nd_lastHeartbeat := now\<rparr>"
      "nd_votedFor n1 = [] \<or> nd_votedFor n1 = rv_CandidateId a"
      "rv_LastLogTerm a > le_Term (last (nd_log n)) \<or>
       rv_LastLogTerm a = le_Term (last (nd_log n)) \<and> rv_LastLogIndex a \<ge> length (nd_log n) - 1"
proof -
  define n1 where "n1 = (if rv_Term a > nd_currentTerm n then becomeFollower (rv_Term a) n else n)"
  define ok where "ok \<longleftrightarrow> (rv_LastLogTerm a > le_Term (last (nd_log n)) \<or>
       rv_LastLogTerm a = le_Term (last (nd_log n)) \<and> rv_LastLogIndex a \<ge> length (nd_log n) - 1) \<and>
       (nd_votedFor n1 = [] \<or> nd_votedFor n1 = rv_CandidateId a)"
  have l: "lastLogIndexAndTerm n1 = (length (nd_log n) - 1, le_Term (last (nd_log n)))"
    by (simp add: n1_def lastLogIndexAndTerm_def)
  consider "rv_Term a < nd_currentTerm n" | "\<not> rv_Term a < nd_currentTerm n" ok | "\<not> rv_Term a < nd_currentTerm n" "\<not> ok"
    by blast
  then show thesis
  proof cases
    case 1
    then show thesis by (intro refused) (simp_all add: HandleRequestVote_def)
  next
    case 2
    have "HandleRequestVote now a n =
       (\<lparr>rvr_Term = nd_currentTerm n1, rvr_VoteGranted = True\<rparr>,
        (snd (persist (n1\<lparr>nd_votedFor := rv_CandidateId a\<rparr>)))\<lparr>nd_lastHeartbeat := now\<rparr>)"
      using 2 l unfolding HandleRequestVote_def n1_def [symmetric] Let_def ok_def by simp
    then show thesis using 2 unfolding ok_def by (intro granted [OF _ _ n1_def]) simp_all
  next
    case 3
    have "HandleRequestVote now a n = (\<lparr>rvr_Term = nd_currentTerm n1, rvr_VoteGranted = False\<rparr>, n1)"
      using 3 l unfolding HandleRequestVote_def n1_def [symmetric] Let_def ok_def by auto
    then show thesis by (intro refused) (simp_all add: n1_def)
  qed
qed

lemma TakeSnapshot_cases:
  obtains (unchanged) "snd (TakeSnapshot i d n) = n"
    | (failed) ok fs c where "write_via_tmp (nd_snapshotPath n) c (nd_fs n) = (ok, fs)"
        "snd (TakeSnapshot i d n) = n\<lparr>nd_fs := fs\<rparr>"
    | (taken) n1 where "n1 = n \<or> (\<exists>ok fs c. write_via_tmp (nd_snapshotPath n) c (nd_fs n) = (ok, fs) \<and> n1 = n\<lparr>nd_fs := fs\<rparr>)"
        "i \<le> nd_commitIndex n" "nd_snapshotIndex n \<le> i" "i < length (nd_log n)"
        "snd (TakeSnapshot i d n) =
           snd (persist (n1\<lparr>nd_log := sentinel (le_Term (nd_log n ! i)) # drop (Suc i) (nd_log n),
                 nd_snapshotIndex := i, nd_snapshotTerm := le_Term (nd_log n ! i)\<rparr>))"
proof (cases "i > nd_commitIndex n \<or> i < nd_snapshotIndex n \<or> i \<ge> length (nd_log n)")
  case True
  then show thesis by (intro unchanged) (auto simp: TakeSnapshot_def)
next
  case False
  obtain ok n1 where w: "writeSnapshot i (le_Term (nd_log n ! i)) d n = (ok, n1)" by (metis prod.exhaust)
  have n1: "n1 = n \<or> (\<exists>ok fs c. write_via_tmp (nd_snapshotPath n) c (nd_fs n) = (ok, fs) \<and> n1 = n\<lparr>nd_fs := fs\<rparr>)"
    using w by (auto simp: writeSnapshot_def split: if_splits option.splits prod.splits)
  show thesis
  proof (cases ok)
    case True
    then have "snd (TakeSnapshot i d n) =
           snd (persist (n1\<lparr>nd_log := sentinel (le_Term (nd_log n ! i)) # drop (Suc i) (nd_log n1),
                 nd_snapshotIndex := i, nd_snapshotTerm := le_Term (nd_log n ! i)\<rparr>))"
      using False w by (simp add: TakeSnapshot_def Let_def sentinel_def case_prod_beta)
    moreover have "nd_log n1 = nd_log n" using n1 by auto
    ultimately show thesis using False by (intro taken [OF n1]) simp_all
  next
    case ok: False
    then have "snd (TakeSnapshot i d n) = n1" using False w by (simp add: TakeSnapshot_def Let_def)
    then show thesis using n1 unchanged failed by auto
  qed
qed

lemma node_step_wf:
  assumes "node_wf n" "event_ok e" "node_step e n = Some n'"
  shows "node_wf n'"
proof (cases e)
  case (EvElection now)
  then show ?thesis using assms by (auto simp: startElection_node node_wf_iff)
next
  case (EvRequestVote now a)
  then have n': "n' = snd (HandleRequestVote now a n)" and a: "rv_Term a < 2 ^ 64" "valid_utf8 (rv_CandidateId a)"
    using assms by simp_all
  show ?thesis
  proof (cases rule: HandleRequestVote_cases [of now a n])
    case refused
    then show ?thesis using n' assms(1) becomeFollower_wf [OF assms(1) a(1)] by auto
  next
    case (granted n1)
    have "node_wf n1" using granted(3) assms(1) becomeFollower_wf [OF assms(1) a(1)] by simp
    then show ?thesis using n' granted(4) a(2) by (simp add: node_wf_iff)
  qed
next
  case (EvAppendEntries now a)
  then have n': "n' = snd (HandleAppendEntries now a n)" and t: "ae_Term a < 2 ^ 64"
    and es: "\<forall>e \<in> set (ae_Entries a). le_Term e < 2 ^ 64" using assms by simp_all
  show ?thesis
  proof (cases rule: HandleAppendEntries_cases [of a n now])
    case (accepted n1 n2 c b)
    have "node_wf n1" unfolding accepted(5) node_wf_iff
      using assms(1) t es append_loop_set [of "Suc (ae_PrevLogIndex a)" "ae_Entries a" "nd_log n"]
      by (auto simp: node_wf_iff valid_utf8_Nil append_loop_not_Nil)
    then show ?thesis using n' accepted(6,7) by (simp add: node_wf_iff)
  qed (use n' assms(1) t in \<open>auto simp: node_wf_iff valid_utf8_Nil\<close>)
next
  case (EvVoteReply t votes r)
  then obtain v rp where "onVoteReply t votes r n = Some (v, n', rp)" using assms(3) by auto
  then show ?thesis
  proof (cases rule: onVoteReply_cases)
    case won
    from becomeLeader_Some [OF this(1)] show ?thesis using assms(1) by (simp add: node_wf_iff)
  qed (use assms EvVoteReply becomeFollower_wf in simp_all)
next
  case (EvAppendReply p a r)
  then obtain rp where "onAppendReply p a r n = Some (n', rp)" using assms(3) by auto
  then show ?thesis
    by (cases rule: onAppendReply_cases) (use assms EvAppendReply in \<open>simp_all add: node_wf_iff valid_utf8_Nil\<close>)
next
  case (EvPropose c)
  then obtain i t l rp where "Propose c n = Some ((i, t, l), n', rp)" using assms(3) by auto
  then show ?thesis by (cases rule: Propose_cases) (use assms(1) in \<open>auto simp: node_wf_iff\<close>)
next
  case EvApply
  then show ?thesis using assms by (auto simp: applyStep_def Let_def node_wf_iff split: if_splits)
next
  case (EvSnapshot i d)
  then have n': "n' = snd (TakeSnapshot i d n)" using assms by simp
  show ?thesis
  proof (cases rule: TakeSnapshot_cases [of i d n])
    case (taken n1)
    have "le_Term (nd_log n ! i) < 2 ^ 64" using assms(1) taken(4) by (simp add: node_wf_iff)
    then show ?thesis using taken assms(1) n' by (auto simp: node_wf_iff sentinel_def dest: in_set_dropD)
  qed (use n' assms(1) in \<open>simp_all add: node_wf_iff\<close>)
qed

lemma node_step_ids:
  assumes "node_step e n = Some n'"
  shows "nd_id n' = nd_id n" "nd_peers n' = nd_peers n" "nd_statePath n' = nd_statePath n"
    "nd_snapshotPath n' = nd_snapshotPath n"
proof -
  define same where "same m \<longleftrightarrow> nd_id m = nd_id n \<and> nd_peers m = nd_peers n \<and> nd_statePath m = nd_statePath n \<and>
    nd_snapshotPath m = nd_snapshotPath n" for m :: Node
  have "same n'"
  proof (cases e)
    case (EvRequestVote now a)
    then show ?thesis using assms
      by (cases rule: HandleRequestVote_cases [of now a n]) (auto simp: same_def)
  next
    case (EvAppendEntries now a)
    then have "n' = snd (HandleAppendEntries now a n)" using assms by simp
    then show ?thesis by (cases rule: HandleAppendEntries_cases [of a n now]) (simp_all add: same_def)
  next
    case (EvVoteReply t votes r)
    then obtain v rp where "onVoteReply t votes r n = Some (v, n', rp)" using assms by auto
    then show ?thesis by (cases rule: onVoteReply_cases) (auto simp: same_def dest!: becomeLeader_Some)
  next
    case (EvAppendReply p a r)
    then obtain rp where "onAppendReply p a r n = Some (n', rp)" using assms by auto
    then show ?thesis by (cases rule: onAppendReply_cases) (simp_all add: same_def)
  next
    case (EvPropose c)
    then obtain i t l rp where "Propose c n = Some ((i, t, l), n', rp)" using assms by auto
    then show ?thesis by (cases rule: Propose_cases) (simp_all add: same_def)
  next
    case (EvSnapshot i d)
    then show ?thesis using assms by (cases rule: TakeSnapshot_cases [of i d n]) (auto simp: same_def)
  qed (use assms in \<open>auto simp: same_def startElection_node applyStep_def Let_def split: if_splits\<close>)
  then show "nd_id n' = nd_id n" "nd_peers n' = nd_peers n" "nd_statePath n' = nd_statePath n"
    "nd_snapshotPath n' = nd_snapshotPath n" by (simp_all add: same_def)
qed

text \<open>
  What the handlers rely on from the state file: \<^verbatim>\<open>persist\<close> re-establishes a property \<open>P\<close> of node and
  disk after a change of term, vote and log; changes of volatile fields do not affect it. Then every
  handler keeps \<open>P\<close>; taking a snapshot does so when writing the snapshot file does.
\<close>

definition same_disk :: "Node \<Rightarrow> Node \<Rightarrow> bool" where
  "same_disk n n' \<longleftrightarrow> nd_statePath n' = nd_statePath n \<and> nd_snapshotPath n' = nd_snapshotPath n \<and> nd_fs n' = nd_fs n"

locale state_file =
  fixes P :: "Node \<Rightarrow> bool"
  assumes persisted: "P n \<Longrightarrow> same_disk n n' \<Longrightarrow> node_wf n' \<Longrightarrow> P (snd (persist n'))"
    and volatile: "P n \<Longrightarrow> same_disk n n' \<Longrightarrow> node_state n' = node_state n \<Longrightarrow> P n'"
begin

lemma follower: "P n \<Longrightarrow> node_wf n \<Longrightarrow> t < 2 ^ 64 \<Longrightarrow> P (becomeFollower t n)"
  unfolding becomeFollower_def
  by (erule persisted) (simp_all add: same_disk_def node_wf_iff valid_utf8_Nil)

lemma request_vote:
  assumes "P n" "node_wf n" "rv_Term a < 2 ^ 64" "valid_utf8 (rv_CandidateId a)"
  shows "P (snd (HandleRequestVote now a n))"
proof (cases rule: HandleRequestVote_cases [of now a n])
  case refused
  then show ?thesis using assms follower by auto
next
  case (granted n1)
  have "P n1" "node_wf n1" using granted(3) assms follower becomeFollower_wf by simp_all
  then have "P (snd (persist (n1\<lparr>nd_votedFor := rv_CandidateId a\<rparr>)))"
    using assms(4) by (auto simp: same_disk_def node_wf_iff intro!: persisted)
  from volatile [OF this] show ?thesis by (simp add: granted(4) same_disk_def node_state_def)
qed

lemma append_entries:
  assumes "P n" "node_wf n" "ae_Term a < 2 ^ 64" "\<forall>e \<in> set (ae_Entries a). le_Term e < 2 ^ 64"
  shows "P (snd (HandleAppendEntries now a n))"
proof (cases rule: HandleAppendEntries_cases [of a n now])
  case old
  then show ?thesis using assms(1) by simp
next
  case rejected
  with volatile [OF follower [OF assms(1-3)]] show ?thesis by (simp add: same_disk_def node_state_def)
next
  case (accepted n1 n2 c b)
  have wf: "node_wf n1" unfolding accepted(5) node_wf_iff
    using assms append_loop_set [of "Suc (ae_PrevLogIndex a)" "ae_Entries a" "nd_log n"]
    by (auto simp: node_wf_iff valid_utf8_Nil append_loop_not_Nil)
  note f = follower [OF assms(1-3)]
  have "P n2"
  proof (cases "ae_Entries a = []")
    case True
    then show ?thesis using volatile [OF f, of n2] accepted(5,6) by (simp add: same_disk_def node_state_def)
  next
    case False
    then show ?thesis using persisted [OF f _ wf] accepted(5,6) by (simp add: same_disk_def)
  qed
  from volatile [OF this] show ?thesis by (simp add: accepted(7) same_disk_def node_state_def)
qed

lemma step_no_snapshot:
  assumes "P n" "node_wf n" "event_ok e" "node_step e n = Some n'" "\<And>i d. e \<noteq> EvSnapshot i d"
  shows "P n'"
proof (cases e)
  case (EvElection now)
  have "P (fst (startElection now n))" unfolding startElection_node
    using assms(2) by (intro persisted [OF assms(1)]) (simp_all add: same_disk_def node_wf_iff)
  then show ?thesis using assms(4) EvElection by simp
next
  case (EvVoteReply t votes r)
  then obtain v rp where "onVoteReply t votes r n = Some (v, n', rp)" using assms(4) by auto
  then show ?thesis
  proof (cases rule: onVoteReply_cases)
    case won
    from becomeLeader_Some [OF this(1)] show ?thesis
      by (intro volatile [OF assms(1)]) (simp_all add: same_disk_def node_state_def)
  qed (use assms EvVoteReply follower in simp_all)
next
  case (EvAppendReply p a r)
  then obtain rp where "onAppendReply p a r n = Some (n', rp)" using assms(4) by auto
  then show ?thesis
    by (cases rule: onAppendReply_cases)
      (use assms EvAppendReply follower in \<open>auto simp: same_disk_def node_state_def intro!: volatile [OF assms(1)]\<close>)
next
  case (EvPropose c)
  then obtain i t l rp where "Propose c n = Some ((i, t, l), n', rp)" using assms(4) by auto
  then show ?thesis
    by (cases rule: Propose_cases)
      (use assms in \<open>auto simp: same_disk_def node_wf_iff intro!: persisted [OF assms(1)]\<close>)
next
  case EvApply
  then show ?thesis using assms
    by (auto simp: applyStep_def Let_def same_disk_def node_state_def split: if_splits intro!: volatile [OF assms(1)])
qed (use assms request_vote append_entries in auto)

end

locale snapshot_file = state_file +
  assumes snapshot: "P n \<Longrightarrow> write_via_tmp (nd_snapshotPath n) d (nd_fs n) = (ok, fs) \<Longrightarrow> P (n\<lparr>nd_fs := fs\<rparr>)"
begin

lemma take_snapshot:
  assumes "P n" "node_wf n"
  shows "P (snd (TakeSnapshot i d n))"
proof (cases rule: TakeSnapshot_cases [of i d n])
  case unchanged
  then show ?thesis using assms(1) by simp
next
  case (failed ok fs c)
  then show ?thesis using snapshot [OF assms(1)] by simp
next
  case (taken n1)
  have p: "P n1" using taken(1) assms(1) snapshot by auto
  have wf: "node_wf n1" using taken(1) assms(2) by (auto simp: node_wf_iff)
  have "le_Term (nd_log n ! i) < 2 ^ 64" using assms(2) taken(4) by (simp add: node_wf_iff)
  then show ?thesis unfolding taken(5)
    using wf assms(2) by (intro persisted [OF p]) (auto simp: same_disk_def node_wf_iff sentinel_def dest: in_set_dropD)
qed

lemma step:
  assumes "P n" "node_wf n" "event_ok e" "node_step e n = Some n'"
  shows "P n'"
proof (cases "\<exists>i d. e = EvSnapshot i d")
  case True
  then show ?thesis using assms take_snapshot by auto
next
  case False
  then show ?thesis using step_no_snapshot [OF assms] by blast
qed

lemma run:
  "P n \<Longrightarrow> node_wf n \<Longrightarrow> list_all event_ok es \<Longrightarrow> node_run es n = Some n' \<Longrightarrow> P n' \<and> node_wf n'"
proof (induction es arbitrary: n)
  case (Cons e es)
  then obtain m where "node_step e n = Some m" "node_run es m = Some n'" by (auto simp: bind_eq_Some_conv)
  with Cons show ?case using step node_step_wf by simp blast
qed simp

end

text \<open>With a disk that fails nothing, the file always holds the current state.\<close>

lemma write_other_durable:
  assumes "durable n" "write_via_tmp (nd_snapshotPath n) d (nd_fs n) = (ok, fs)"
  shows "durable (n\<lparr>nd_fs := fs\<rparr>)"
  using assms(1) write_via_tmp_spec [OF assms(2)] by (auto simp: durable_def disk_ok_def node_state_def)

interpretation durable_file: snapshot_file durable
proof
  show "durable n \<Longrightarrow> same_disk n n' \<Longrightarrow> node_wf n' \<Longrightarrow> durable (snd (persist n'))" for n n'
    using persist_durable' [OF durable_disk] by (simp add: same_disk_def)
  show "durable n \<Longrightarrow> same_disk n n' \<Longrightarrow> node_state n' = node_state n \<Longrightarrow> durable n'" for n n'
    by (simp add: durable_def disk_ok_def same_disk_def)
qed (rule write_other_durable)

text \<open>
  With a disk that may fail at every system call, the file holds some state the node wrote
  completely, or does not exist.
\<close>

definition whole_file :: "Node \<Rightarrow> bool" where
  "whole_file n \<longleftrightarrow>
     \<not> fs_unreadable (nd_fs n) (nd_statePath n) \<and>
     nd_snapshotPath n \<noteq> nd_statePath n \<and> nd_snapshotPath n @ tmp_suffix \<noteq> nd_statePath n \<and>
     (\<forall>d. fs_files (nd_fs n) (nd_statePath n) = Some d \<longrightarrow>
        (\<exists>ps. d = Marshal (enc_persistentState ps) \<and> state_ok ps \<and> ps_Log ps \<noteq> []))"

interpretation readable_file: snapshot_file whole_file
proof
  show "whole_file (snd (persist n'))" if "whole_file n" "same_disk n n'" "node_wf n'" for n n'
  proof (cases "nd_statePath n' = []")
    case True
    then show ?thesis using that by (simp add: persist_def whole_file_def same_disk_def)
  next
    case False
    obtain ok fs where w: "write_via_tmp (nd_statePath n') (Marshal (enc_persistentState (node_state n'))) (nd_fs n') = (ok, fs)"
      by (metis prod.exhaust)
    have "snd (persist n') = n'\<lparr>nd_fs := fs\<rparr>" using False w by (simp add: persist_def)
    moreover have "state_ok (node_state n')" "ps_Log (node_state n') \<noteq> []"
      using that(3) by (simp_all add: node_wf_def node_state_def)
    ultimately show ?thesis using that(1,2) write_via_tmp_spec(1,3) [OF w]
      by (cases ok) (auto simp: whole_file_def same_disk_def)
  qed
  show "whole_file n \<Longrightarrow> same_disk n n' \<Longrightarrow> node_state n' = node_state n \<Longrightarrow> whole_file n'" for n n'
    by (simp add: whole_file_def same_disk_def)
  show "whole_file (n\<lparr>nd_fs := fs\<rparr>)" if "whole_file n" "write_via_tmp (nd_snapshotPath n) d (nd_fs n) = (ok, fs)" for n d ok fs
    using that(1) write_via_tmp_spec(2,3) [OF that(2)] by (auto simp: whole_file_def)
qed

lemma dec_struct_inv:
  assumes "\<And>m x y. P x \<Longrightarrow> step m x = Some y \<Longrightarrow> P y" "P old" "dec_struct step old v = Some y"
  shows "P y"
proof -
  have "P y" if "fold (\<lambda>m x. Option.bind x (step m)) ms x = Some y" "\<And>z. x = Some z \<Longrightarrow> P z" for ms x
    using that
  proof (induction ms arbitrary: x)
    case (Cons m ms)
    show ?case by (rule Cons.IH [OF Cons.prems(1) [simplified]]) (auto simp: bind_eq_Some_conv intro: assms(1) Cons.prems(2))
  qed simp
  then show ?thesis using assms(2,3) by (auto simp: dec_struct_def split: json.splits)
qed

lemma dec_Snapshot_term:
  assumes "dec_Snapshot v = Some s"
  shows "sn_LastIncludedTerm s < 2 ^ 64"
  by (rule dec_struct_inv [OF _ _ assms [unfolded dec_Snapshot_def]])
    (auto simp: dec_uint_def split: if_splits json.splits option.splits)

lemma restart_whole:
  assumes "whole_file n" "valid_utf8 (nd_id n)"
  shows "\<exists>m. restart n = Some m \<and> node_wf m \<and> whole_file m"
proof (cases "nd_statePath n = [] \<or> fs_files (nd_fs n) (nd_statePath n) = None")
  case True
  let ?c = "loadSnapshot (blank_node (nd_id n) (nd_peers n) (nd_statePath n) (nd_snapshotPath n) (nd_fs n))"
  have "nd_log ?c \<noteq> []" "\<forall>e \<in> set (nd_log ?c). le_Term e < 2 ^ 64"
    using dec_Snapshot_term
    by (auto simp: loadSnapshot_def sentinel_def LatestSnapshot_def bind_eq_Some_conv
        split: option.splits if_splits open_result.splits)
  then have "node_wf ?c" using assms(2) by (simp add: node_wf_iff valid_utf8_Nil)
  moreover have "restart n = Some ?c"
    using restoreState_absent [of ?c] True assms(1) \<open>nd_log ?c \<noteq> []\<close>
    by (simp add: restart_def NewNode_def whole_file_def)
  ultimately show ?thesis using assms(1) by (simp add: whole_file_def)
next
  case False
  then obtain ps where ps: "fs_files (nd_fs n) (nd_statePath n) = Some (Marshal (enc_persistentState ps))"
    "state_ok ps" "ps_Log ps \<noteq> []" using assms(1) by (auto simp: whole_file_def)
  show ?thesis
    using restart_file [OF _ _ ps] False assms ps(2,3)
    by (metis node_wf_iff state_ok_def whole_file_def)
qed

section \<open>Properties: restart\<close>

text \<open>
  C25: a node whose disk works loses nothing it promised: after any sequence of elections, RPCs,
  replies, proposals, applied entries and snapshots that follows a write of its state, a restart
  from its disk comes up as a follower with the same term, the same vote and the same log.
\<close>

theorem restart_restores_state:
  assumes "disk_ok n0" "node_wf n0" "list_all event_ok es" "node_run es (snd (persist n0)) = Some n"
  shows "\<exists>m. restart n = Some m \<and> nd_currentTerm m = nd_currentTerm n \<and> nd_votedFor m = nd_votedFor n \<and>
     nd_log m = nd_log n \<and> nd_role m = Follower"
proof -
  have "durable (snd (persist n0))" "node_wf (snd (persist n0))"
    using persist_durable [OF assms(1)] assms(2) by (simp_all add: node_wf_iff)
  then have "durable n" "node_wf n" using durable_file.run assms(3,4) by blast+
  then have "\<not> fs_unreadable (nd_fs n) (nd_statePath n)" "nd_statePath n \<noteq> []"
    "fs_files (nd_fs n) (nd_statePath n) = Some (Marshal (enc_persistentState (node_state n)))" "state_ok (node_state n)"
    "ps_Log (node_state n) \<noteq> []" by (simp_all add: durable_def disk_ok_def node_wf_def node_state_def)
  then show ?thesis by (rule restart_file) (auto simp: node_state_def)
qed

definition demo_node :: "io_outcome list \<Rightarrow> Node" where
  "demo_node fl = blank_node (str ''a'') [str ''b'', str ''c''] (str ''raft.state'') []
     \<lparr>fs_files = \<lambda>_. None, fs_unreadable = \<lambda>_. False, fs_faults = fl\<rparr>"

lemmas demo_node_simps = demo_node_def blank_node_def sentinel_def node_wf_iff valid_utf8_Nil valid_utf8_ascii
  disk_ok_def whole_file_def str_def tmp_suffix_def

theorem restart_restores_state_witness:
  "\<exists>n m. node_run [EvElection 7] (snd (persist (demo_node []))) = Some n \<and> restart n = Some m \<and>
     nd_currentTerm m = 1 \<and> nd_votedFor m = str ''a'' \<and> nd_role m = Follower"
  using restart_restores_state [of "demo_node []" "[EvElection 7]" "fst (startElection 7 (snd (persist (demo_node []))))"]
  by (auto simp: startElection_node demo_node_simps)

text \<open>
  C26: failures of the disk never leave a state file that stops a node from starting. Whatever
  system calls fail while it runs (the script of failures is arbitrary), after any sequence of
  events a restart comes up, again with a well-formed state and a whole file or none.
\<close>

theorem restart_survives_disk_failures:
  assumes "whole_file n0" "node_wf n0" "list_all event_ok es" "node_run es n0 = Some n"
  shows "\<exists>m. restart n = Some m \<and> node_wf m \<and> whole_file m"
  using readable_file.run [OF assms] restart_whole by (simp add: node_wf_iff)

theorem restart_survives_disk_failures_witness:
  "\<exists>n m. node_run [EvElection 7, EvElection 9] (demo_node [IO_OK, IO_Fail 3]) = Some n \<and> restart n = Some m"
  using restart_survives_disk_failures [of "demo_node [IO_OK, IO_Fail 3]" "[EvElection 7, EvElection 9]"]
  by (auto simp: demo_node_simps)

text \<open>
  C30: the result of \<^verbatim>\<open>persist\<close> is not looked at. When writing the vote fails, the vote is granted
  all the same; after a restart the node has forgotten it and grants its vote in the same term to
  any other candidate with the same log.
\<close>

theorem vote_granted_without_persisting:
  assumes "node_wf n" "nd_statePath n \<noteq> []" "\<not> fs_unreadable (nd_fs n) (nd_statePath n)"
    and "fs_files (nd_fs n) (nd_statePath n) = Some (Marshal (enc_persistentState (node_state n)))"
    and "fs_faults (nd_fs n) = IO_Fail k # fl"
    and "rv_Term a = nd_currentTerm n" "nd_votedFor n = []"
    and "rv_LastLogTerm a = le_Term (last (nd_log n))" "rv_LastLogIndex a = length (nd_log n) - 1"
  shows "rvr_VoteGranted (fst (HandleRequestVote now a n)) \<and>
     (\<exists>m. restart (snd (HandleRequestVote now a n)) = Some m \<and>
        rvr_VoteGranted (fst (HandleRequestVote now' (a\<lparr>rv_CandidateId := other\<rparr>) m)))"
proof -
  let ?n = "n\<lparr>nd_votedFor := rv_CandidateId a\<rparr>"
  have p: "persist ?n = (False, ?n\<lparr>nd_fs := (nd_fs n)\<lparr>fs_faults := fl\<rparr>\<rparr>)"
    using assms(2,5) by (simp add: persist_def write_via_tmp_def Let_def os_Create_def fs_pop_def)
  have h: "HandleRequestVote now a n = (\<lparr>rvr_Term = nd_currentTerm n, rvr_VoteGranted = True\<rparr>,
       ?n\<lparr>nd_fs := (nd_fs n)\<lparr>fs_faults := fl\<rparr>, nd_lastHeartbeat := now\<rparr>)"
    using assms(6-9) p by (simp add: HandleRequestVote_def Let_def lastLogIndexAndTerm_def)
  obtain m where "restart (snd (HandleRequestVote now a n)) = Some m" "nd_currentTerm m = nd_currentTerm n"
    "nd_votedFor m = nd_votedFor n" "nd_log m = nd_log n"
    by (rule restart_file [of "snd (HandleRequestVote now a n)" "node_state n"])
      (use assms(1-4) in \<open>simp_all add: h node_wf_def node_state_def\<close>)
  then show ?thesis using assms(6-9) h by (auto simp: HandleRequestVote_def Let_def lastLogIndexAndTerm_def)
qed

definition demo_voter :: Node where
  "demo_voter = (let n = snd (persist (demo_node [])) in n\<lparr>nd_fs := (nd_fs n)\<lparr>fs_faults := [IO_Fail 0]\<rparr>\<rparr>)"

definition demo_request :: RequestVoteArgs where
  "demo_request = \<lparr>rv_Term = 0, rv_CandidateId = str ''b'', rv_LastLogIndex = 0, rv_LastLogTerm = 0\<rparr>"

theorem vote_granted_without_persisting_witness:
  "rvr_VoteGranted (fst (HandleRequestVote 0 demo_request demo_voter)) \<and>
   (\<exists>m. restart (snd (HandleRequestVote 0 demo_request demo_voter)) = Some m \<and>
      rvr_VoteGranted (fst (HandleRequestVote 1 (demo_request\<lparr>rv_CandidateId := str ''c''\<rparr>) m)))"
proof (rule vote_granted_without_persisting)
  have "durable (snd (persist (demo_node [])))"
    using persist_durable [of "demo_node []"] by (simp add: demo_node_simps)
  then show "fs_files (nd_fs demo_voter) (nd_statePath demo_voter) = Some (Marshal (enc_persistentState (node_state demo_voter)))"
    "\<not> fs_unreadable (nd_fs demo_voter) (nd_statePath demo_voter)"
    by (simp_all add: durable_def disk_ok_def demo_voter_def Let_def node_state_def)
qed (simp_all add: demo_voter_def Let_def demo_request_def demo_node_simps)

end
