(* ===== verification/Transport.thy ===== *)
theory Transport
  imports Complex_Main Raft_Node
begin

text \<open>
  The three implementations of the interface \<^verbatim>\<open>Transport\<close> of \<^verbatim>\<open>internal/raft\<close>:
  \<^verbatim>\<open>transport.go\<close> (in-process calls with partitions), \<^verbatim>\<open>sim_transport.go\<close> (in-process calls dropped by
  a seeded generator) and \<^verbatim>\<open>tcp_transport.go\<close> (JSON envelopes over a connection).

  A transport that calls a peer's handler directly holds the nodes themselves; an RPC returns an
  error or the reply, and the transport with the peer's new state. \<open>now\<close> is the time at which the
  peer handles the request.
\<close>

datatype rpc_error =
  ErrPartitioned | ErrUnknownPeer | ErrDropped | ErrNoAddress | ErrListen | ErrDial | ErrSend | ErrReceive | ErrDecode

section \<open>MemTransport\<close>

record MemTransport =
  mt_nodes :: "bytes \<rightharpoonup> Node"
  mt_partitions :: "bytes \<rightharpoonup> (bytes \<rightharpoonup> bool)"

definition NewMemTransport :: MemTransport where
  "NewMemTransport = \<lparr>mt_nodes = Map.empty, mt_partitions = Map.empty\<rparr>"

definition Mem_Unregister :: "bytes \<Rightarrow> MemTransport \<Rightarrow> MemTransport" where
  "Mem_Unregister i t = t\<lparr>mt_nodes := (mt_nodes t)(i := None)\<rparr>"

definition Mem_Register :: "bytes \<Rightarrow> Node \<Rightarrow> MemTransport \<Rightarrow> MemTransport" where
  "Mem_Register i node t = t\<lparr>mt_nodes := (mt_nodes t)(i \<mapsto> node)\<rparr>"

definition Mem_Partition :: "bytes \<Rightarrow> bytes \<Rightarrow> MemTransport \<Rightarrow> MemTransport" where
  "Mem_Partition from to t =
     (let m = (case mt_partitions t from of None \<Rightarrow> Map.empty | Some m \<Rightarrow> m)
      in t\<lparr>mt_partitions := (mt_partitions t)(from \<mapsto> m(to \<mapsto> True))\<rparr>)"

definition Mem_Heal :: "bytes \<Rightarrow> bytes \<Rightarrow> MemTransport \<Rightarrow> MemTransport" where
  "Mem_Heal from to t =
     (case mt_partitions t from of
        None \<Rightarrow> t
      | Some m \<Rightarrow> t\<lparr>mt_partitions := (mt_partitions t)(from \<mapsto> m(to := None))\<rparr>)"

definition Mem_HealAll :: "MemTransport \<Rightarrow> MemTransport" where
  "Mem_HealAll t = t\<lparr>mt_partitions := Map.empty\<rparr>"

definition Mem_isPartitioned :: "bytes \<Rightarrow> bytes \<Rightarrow> MemTransport \<Rightarrow> bool" where
  "Mem_isPartitioned from to t =
     (case mt_partitions t from of None \<Rightarrow> False | Some m \<Rightarrow> m to = Some True)"

definition Mem_getNode :: "bytes \<Rightarrow> MemTransport \<Rightarrow> Node option" where
  "Mem_getNode i t = mt_nodes t i"

definition Mem_RequestVote ::
  "int \<Rightarrow> bytes \<Rightarrow> RequestVoteArgs \<Rightarrow> MemTransport \<Rightarrow> (rpc_error + RequestVoteReply) \<times> MemTransport" where
  "Mem_RequestVote now peer args t =
     (if Mem_isPartitioned (rv_CandidateId args) peer t then (Inl ErrPartitioned, t)
      else case Mem_getNode peer t of
        None \<Rightarrow> (Inl ErrUnknownPeer, t)
      | Some node \<Rightarrow>
          (case HandleRequestVote now args node of
             (reply, node) \<Rightarrow> (Inr reply, t\<lparr>mt_nodes := (mt_nodes t)(peer \<mapsto> node)\<rparr>)))"

definition Mem_AppendEntries ::
  "int \<Rightarrow> bytes \<Rightarrow> AppendEntriesArgs \<Rightarrow> MemTransport \<Rightarrow> (rpc_error + AppendEntriesReply) \<times> MemTransport" where
  "Mem_AppendEntries now peer args t =
     (if Mem_isPartitioned (ae_LeaderId args) peer t then (Inl ErrPartitioned, t)
      else case Mem_getNode peer t of
        None \<Rightarrow> (Inl ErrUnknownPeer, t)
      | Some node \<Rightarrow>
          (case HandleAppendEntries now args node of
             (reply, node) \<Rightarrow> (Inr reply, t\<lparr>mt_nodes := (mt_nodes t)(peer \<mapsto> node)\<rparr>)))"

section \<open>SimTransport\<close>

text \<open>
  A \<^verbatim>\<open>float64\<close> that is a number is the rational it stands for. The generator is the number of
  values drawn so far; \<open>float64s seed n\<close> is the \<open>n\<close>-th value of \<^verbatim>\<open>Float64\<close> for the source with
  that seed.
\<close>

record SimEvent =
  se_From :: bytes
  se_To :: bytes
  se_Type :: bytes
  se_Dropped :: bool

record SimTransport =
  sim_rng :: nat
  sim_seed :: int
  sim_nodes :: "bytes \<rightharpoonup> Node"
  sim_dropRate :: "bytes \<rightharpoonup> (bytes \<rightharpoonup> rat)"
  sim_history :: "SimEvent list"

definition NewSimTransport :: "int \<Rightarrow> SimTransport" where
  "NewSimTransport seed =
     \<lparr>sim_rng = 0, sim_seed = seed, sim_nodes = Map.empty, sim_dropRate = Map.empty, sim_history = []\<rparr>"

definition Sim_Register :: "bytes \<Rightarrow> Node \<Rightarrow> SimTransport \<Rightarrow> SimTransport" where
  "Sim_Register i node t = t\<lparr>sim_nodes := (sim_nodes t)(i \<mapsto> node)\<rparr>"

definition Sim_SetDropRate :: "bytes \<Rightarrow> bytes \<Rightarrow> rat \<Rightarrow> SimTransport \<Rightarrow> SimTransport" where
  "Sim_SetDropRate from to rate t =
     (let m = (case sim_dropRate t from of None \<Rightarrow> Map.empty | Some m \<Rightarrow> m)
      in t\<lparr>sim_dropRate := (sim_dropRate t)(from \<mapsto> m(to \<mapsto> rate))\<rparr>)"

definition Sim_SetBidirectionalDropRate :: "bytes \<Rightarrow> bytes \<Rightarrow> rat \<Rightarrow> SimTransport \<Rightarrow> SimTransport" where
  "Sim_SetBidirectionalDropRate a b rate t = Sim_SetDropRate b a rate (Sim_SetDropRate a b rate t)"

definition Sim_Partition :: "bytes \<Rightarrow> bytes \<Rightarrow> SimTransport \<Rightarrow> SimTransport" where
  "Sim_Partition from to t = Sim_SetDropRate from to 1 t"

definition Sim_Heal :: "bytes \<Rightarrow> bytes \<Rightarrow> SimTransport \<Rightarrow> SimTransport" where
  "Sim_Heal from to t = Sim_SetDropRate from to 0 t"

definition Sim_HealAll :: "SimTransport \<Rightarrow> SimTransport" where
  "Sim_HealAll t = t\<lparr>sim_dropRate := Map.empty\<rparr>"

definition Sim_History :: "SimTransport \<Rightarrow> SimEvent list" where
  "Sim_History t = sim_history t"

definition Sim_Seed :: "SimTransport \<Rightarrow> int" where
  "Sim_Seed t = sim_seed t"

definition Sim_shouldDrop :: "(int \<Rightarrow> nat \<Rightarrow> rat) \<Rightarrow> bytes \<Rightarrow> bytes \<Rightarrow> SimTransport \<Rightarrow> bool \<times> SimTransport" where
  "Sim_shouldDrop float64s from to t =
     (let rate = (case sim_dropRate t from of
                    None \<Rightarrow> 0
                  | Some m \<Rightarrow> (case m to of None \<Rightarrow> 0 | Some r \<Rightarrow> r));
          drop = float64s (sim_seed t) (sim_rng t) < rate
      in (drop, t\<lparr>sim_rng := Suc (sim_rng t)\<rparr>))"

definition Sim_record :: "bytes \<Rightarrow> bytes \<Rightarrow> bytes \<Rightarrow> bool \<Rightarrow> SimTransport \<Rightarrow> SimTransport" where
  "Sim_record from to typ dropped t =
     t\<lparr>sim_history := sim_history t @ [\<lparr>se_From = from, se_To = to, se_Type = typ, se_Dropped = dropped\<rparr>]\<rparr>"

definition Sim_getNode :: "bytes \<Rightarrow> SimTransport \<Rightarrow> Node option" where
  "Sim_getNode i t = sim_nodes t i"

definition Sim_RequestVote ::
  "(int \<Rightarrow> nat \<Rightarrow> rat) \<Rightarrow> int \<Rightarrow> bytes \<Rightarrow> RequestVoteArgs \<Rightarrow> SimTransport \<Rightarrow>
     (rpc_error + RequestVoteReply) \<times> SimTransport" where
  "Sim_RequestVote float64s now peer args t =
     (case Sim_shouldDrop float64s (rv_CandidateId args) peer t of
        (dropped, t) \<Rightarrow>
          (let t = Sim_record (rv_CandidateId args) peer (str ''RequestVote'') dropped t
           in if dropped then (Inl ErrDropped, t)
              else case Sim_getNode peer t of
                None \<Rightarrow> (Inl ErrUnknownPeer, t)
              | Some node \<Rightarrow>
                  (case HandleRequestVote now args node of
                     (reply, node) \<Rightarrow> (Inr reply, t\<lparr>sim_nodes := (sim_nodes t)(peer \<mapsto> node)\<rparr>))))"

definition Sim_AppendEntries ::
  "(int \<Rightarrow> nat \<Rightarrow> rat) \<Rightarrow> int \<Rightarrow> bytes \<Rightarrow> AppendEntriesArgs \<Rightarrow> SimTransport \<Rightarrow>
     (rpc_error + AppendEntriesReply) \<times> SimTransport" where
  "Sim_AppendEntries float64s now peer args t =
     (case Sim_shouldDrop float64s (ae_LeaderId args) peer t of
        (dropped, t) \<Rightarrow>
          (let t = Sim_record (ae_LeaderId args) peer (str ''AppendEntries'') dropped t
           in if dropped then (Inl ErrDropped, t)
              else case Sim_getNode peer t of
                None \<Rightarrow> (Inl ErrUnknownPeer, t)
              | Some node \<Rightarrow>
                  (case HandleAppendEntries now args node of
                     (reply, node) \<Rightarrow> (Inr reply, t\<lparr>sim_nodes := (sim_nodes t)(peer \<mapsto> node)\<rparr>))))"

section \<open>Envelopes\<close>

definition rpcRequestVote :: byte where
  "rpcRequestVote = 1"

definition rpcAppendEntries :: byte where
  "rpcAppendEntries = 2"

record rpcEnvelope =
  env_Type :: byte
  env_Payload :: bytes

definition writeEnvelope :: "rpcEnvelope \<Rightarrow> bwriter \<Rightarrow> bool \<times> bwriter" where
  "writeEnvelope env w =
     (let hdr = env_Type env # PutUint32 (word_of_nat (length (env_Payload env)))
      in case bufio_Write hdr w of
           (False, w) \<Rightarrow> (False, w)
         | (True, w) \<Rightarrow> bufio_Write (env_Payload env) w)"

text \<open>The error is why the envelope was refused; the rest of the stream is not used.\<close>

datatype envelope_error = ErrEnvelopeRead io_error | ErrEnvelopeTooLarge u32

definition maxPayload :: u32 where
  "maxPayload = 33554432"

definition readEnvelope :: "bytes \<Rightarrow> envelope_error + rpcEnvelope" where
  "readEnvelope r =
     (case ReadFull 5 r of
        (Inl e, _) \<Rightarrow> Inl (ErrEnvelopeRead e)
      | (Inr hdr, r) \<Rightarrow>
          (let len = Uint32 (drop 1 hdr)
           in if maxPayload < len then Inl (ErrEnvelopeTooLarge len)
              else case ReadFull (unat len) r of
                (Inl e, _) \<Rightarrow> Inl (ErrEnvelopeRead e)
              | (Inr payload, _) \<Rightarrow> Inr \<lparr>env_Type = hd hdr, env_Payload = payload\<rparr>))"

section \<open>Messages as JSON\<close>

definition enc_RequestVoteArgs :: "RequestVoteArgs \<Rightarrow> json" where
  "enc_RequestVoteArgs a =
     JObj [(str ''Term'', enc_uint (rv_Term a)), (str ''CandidateId'', JStr (rv_CandidateId a)),
           (str ''LastLogIndex'', enc_uint (rv_LastLogIndex a)), (str ''LastLogTerm'', enc_uint (rv_LastLogTerm a))]"

definition dec_RequestVoteArgs :: "json \<Rightarrow> RequestVoteArgs option" where
  "dec_RequestVoteArgs = dec_struct
     (\<lambda>(k, v) a.
        if field_is ''Term'' k then map_option (\<lambda>t. a\<lparr>rv_Term := t\<rparr>) (dec_uint 64 (rv_Term a) v)
        else if field_is ''CandidateId'' k then
          map_option (\<lambda>s. a\<lparr>rv_CandidateId := s\<rparr>) (dec_string (rv_CandidateId a) v)
        else if field_is ''LastLogIndex'' k then
          map_option (\<lambda>i. a\<lparr>rv_LastLogIndex := i\<rparr>) (dec_uint 64 (rv_LastLogIndex a) v)
        else if field_is ''LastLogTerm'' k then
          map_option (\<lambda>t. a\<lparr>rv_LastLogTerm := t\<rparr>) (dec_uint 64 (rv_LastLogTerm a) v)
        else Some a)
     \<lparr>rv_Term = 0, rv_CandidateId = [], rv_LastLogIndex = 0, rv_LastLogTerm = 0\<rparr>"

definition enc_RequestVoteReply :: "RequestVoteReply \<Rightarrow> json" where
  "enc_RequestVoteReply r =
     JObj [(str ''Term'', enc_uint (rvr_Term r)), (str ''VoteGranted'', JBool (rvr_VoteGranted r))]"

definition dec_RequestVoteReply :: "json \<Rightarrow> RequestVoteReply option" where
  "dec_RequestVoteReply = dec_struct
     (\<lambda>(k, v) r.
        if field_is ''Term'' k then map_option (\<lambda>t. r\<lparr>rvr_Term := t\<rparr>) (dec_uint 64 (rvr_Term r) v)
        else if field_is ''VoteGranted'' k then
          map_option (\<lambda>b. r\<lparr>rvr_VoteGranted := b\<rparr>) (dec_bool (rvr_VoteGranted r) v)
        else Some r)
     \<lparr>rvr_Term = 0, rvr_VoteGranted = False\<rparr>"

text \<open>A request without entries has a nil slice.\<close>

definition enc_AppendEntriesArgs :: "AppendEntriesArgs \<Rightarrow> json" where
  "enc_AppendEntriesArgs a =
     JObj [(str ''Term'', enc_uint (ae_Term a)), (str ''LeaderId'', JStr (ae_LeaderId a)),
           (str ''PrevLogIndex'', enc_uint (ae_PrevLogIndex a)), (str ''PrevLogTerm'', enc_uint (ae_PrevLogTerm a)),
           (str ''Entries'', if ae_Entries a = [] then JNull else JArr (map enc_LogEntry (ae_Entries a))),
           (str ''LeaderCommit'', enc_uint (ae_LeaderCommit a))]"

definition dec_AppendEntriesArgs :: "json \<Rightarrow> AppendEntriesArgs option" where
  "dec_AppendEntriesArgs = dec_struct
     (\<lambda>(k, v) a.
        if field_is ''Term'' k then map_option (\<lambda>t. a\<lparr>ae_Term := t\<rparr>) (dec_uint 64 (ae_Term a) v)
        else if field_is ''LeaderId'' k then
          map_option (\<lambda>s. a\<lparr>ae_LeaderId := s\<rparr>) (dec_string (ae_LeaderId a) v)
        else if field_is ''PrevLogIndex'' k then
          map_option (\<lambda>i. a\<lparr>ae_PrevLogIndex := i\<rparr>) (dec_uint 64 (ae_PrevLogIndex a) v)
        else if field_is ''PrevLogTerm'' k then
          map_option (\<lambda>t. a\<lparr>ae_PrevLogTerm := t\<rparr>) (dec_uint 64 (ae_PrevLogTerm a) v)
        else if field_is ''Entries'' k then
          map_option (\<lambda>es. a\<lparr>ae_Entries := es\<rparr>) (dec_slice dec_LogEntry v)
        else if field_is ''LeaderCommit'' k then
          map_option (\<lambda>i. a\<lparr>ae_LeaderCommit := i\<rparr>) (dec_uint 64 (ae_LeaderCommit a) v)
        else Some a)
     \<lparr>ae_Term = 0, ae_LeaderId = [], ae_PrevLogIndex = 0, ae_PrevLogTerm = 0, ae_Entries = [], ae_LeaderCommit = 0\<rparr>"

definition enc_AppendEntriesReply :: "AppendEntriesReply \<Rightarrow> json" where
  "enc_AppendEntriesReply r =
     JObj [(str ''Term'', enc_uint (aer_Term r)), (str ''Success'', JBool (aer_Success r)),
           (str ''ConflictIndex'', enc_uint (aer_ConflictIndex r)), (str ''ConflictTerm'', enc_uint (aer_ConflictTerm r))]"

definition dec_AppendEntriesReply :: "json \<Rightarrow> AppendEntriesReply option" where
  "dec_AppendEntriesReply = dec_struct
     (\<lambda>(k, v) r.
        if field_is ''Term'' k then map_option (\<lambda>t. r\<lparr>aer_Term := t\<rparr>) (dec_uint 64 (aer_Term r) v)
        else if field_is ''Success'' k then
          map_option (\<lambda>b. r\<lparr>aer_Success := b\<rparr>) (dec_bool (aer_Success r) v)
        else if field_is ''ConflictIndex'' k then
          map_option (\<lambda>i. r\<lparr>aer_ConflictIndex := i\<rparr>) (dec_uint 64 (aer_ConflictIndex r) v)
        else if field_is ''ConflictTerm'' k then
          map_option (\<lambda>t. r\<lparr>aer_ConflictTerm := t\<rparr>) (dec_uint 64 (aer_ConflictTerm r) v)
        else Some r)
     \<lparr>aer_Term = 0, aer_Success = False, aer_ConflictIndex = 0, aer_ConflictTerm = 0\<rparr>"

section \<open>TCPTransport\<close>

record TCPTransport =
  tcp_node :: "Node option"
  tcp_addrs :: "bytes \<rightharpoonup> bytes"
  tcp_listener :: "listener option"

definition NewTCPTransport :: "(bytes \<rightharpoonup> bytes) \<Rightarrow> TCPTransport" where
  "NewTCPTransport addrs = \<lparr>tcp_node = None, tcp_addrs = addrs, tcp_listener = None\<rparr>"

definition TCP_Register :: "bytes \<Rightarrow> Node \<Rightarrow> TCPTransport \<Rightarrow> TCPTransport" where
  "TCP_Register i node t = t\<lparr>tcp_node := Some node\<rparr>"

text \<open>
  \<open>listen\<close> tells whether \<^verbatim>\<open>net.Listen\<close> succeeds; the result holds the connections given to
  goroutines when the loop has run through \<open>accepts\<close>.
\<close>

definition TCP_Serve ::
  "bytes \<Rightarrow> bool \<Rightarrow> 'c option list \<Rightarrow> TCPTransport \<Rightarrow> (rpc_error + 'c list \<times> bool) \<times> TCPTransport" where
  "TCP_Serve i listen accepts t =
     (case tcp_addrs t i of
        None \<Rightarrow> (Inl ErrNoAddress, t)
      | Some addr \<Rightarrow>
          (if \<not> listen then (Inl ErrListen, t)
           else (Inr (accept_loop accepts), t\<lparr>tcp_listener := Some \<lparr>ln_addr = addr, ln_closed = False\<rparr>\<rparr>)))"

definition TCP_Close :: "TCPTransport \<Rightarrow> bool \<times> TCPTransport" where
  "TCP_Close t =
     (case tcp_listener t of
        None \<Rightarrow> (True, t)
      | Some l \<Rightarrow> (\<not> ln_closed l, t\<lparr>tcp_listener := Some (l\<lparr>ln_closed := True\<rparr>)\<rparr>))"

text \<open>
  The connection of \<^verbatim>\<open>handleConn\<close>: the bytes that arrive on it and the file the reply is written
  to. The result is what was sent.
\<close>

definition TCP_handleConn :: "int \<Rightarrow> osfile \<Rightarrow> bytes \<Rightarrow> TCPTransport \<Rightarrow> bytes \<times> TCPTransport" where
  "TCP_handleConn now conn r t =
     (let w = NewWriter conn;
          answer = (\<lambda>typ data. content (dst (snd (bufio_Flush (snd (writeEnvelope \<lparr>env_Type = typ, env_Payload = data\<rparr> w))))))
      in case readEnvelope r of
           Inl _ \<Rightarrow> (content conn, t)
         | Inr env \<Rightarrow>
             (case tcp_node t of
                None \<Rightarrow> (content conn, t)
              | Some node \<Rightarrow>
                  (if env_Type env = rpcRequestVote then
                     (case Option.bind (json_parse (env_Payload env)) dec_RequestVoteArgs of
                        None \<Rightarrow> (content conn, t)
                      | Some args \<Rightarrow>
                          (case HandleRequestVote now args node of
                             (reply, node) \<Rightarrow>
                               (answer rpcRequestVote (Marshal (enc_RequestVoteReply reply)), t\<lparr>tcp_node := Some node\<rparr>)))
                   else if env_Type env = rpcAppendEntries then
                     (case Option.bind (json_parse (env_Payload env)) dec_AppendEntriesArgs of
                        None \<Rightarrow> (content conn, t)
                      | Some args \<Rightarrow>
                          (case HandleAppendEntries now args node of
                             (reply, node) \<Rightarrow>
                               (answer rpcAppendEntries (Marshal (enc_AppendEntriesReply reply)), t\<lparr>tcp_node := Some node\<rparr>)))
                   else (content conn, t))))"

text \<open>\<open>up\<close>: whether \<^verbatim>\<open>net.DialTimeout\<close> reaches the address.\<close>

definition TCP_dial :: "(bytes \<Rightarrow> bool) \<Rightarrow> bytes \<Rightarrow> TCPTransport \<Rightarrow> rpc_error + bytes" where
  "TCP_dial up peer t =
     (case tcp_addrs t peer of
        None \<Rightarrow> Inl ErrUnknownPeer
      | Some addr \<Rightarrow> (if up addr then Inr addr else Inl ErrDial))"

text \<open>
  The client's side of a call. \<open>conn\<close> is the connection it writes to, \<open>remote\<close> the other end: from
  the bytes that were sent to it and its state, the bytes that come back and its new state. A
  deadline that fires ends the bytes that come back.
\<close>

definition TCP_call ::
  "(json \<Rightarrow> 'r option) \<Rightarrow> byte \<Rightarrow> bytes \<Rightarrow> osfile \<Rightarrow> (bytes \<Rightarrow> 's \<Rightarrow> bytes \<times> 's) \<Rightarrow> 's \<Rightarrow> (rpc_error + 'r) \<times> 's" where
  "TCP_call dec typ data conn remote s =
     (case writeEnvelope \<lparr>env_Type = typ, env_Payload = data\<rparr> (NewWriter conn) of
        (False, bw) \<Rightarrow> (Inl ErrSend, snd (remote (content (dst bw)) s))
      | (True, bw) \<Rightarrow>
          (case bufio_Flush bw of
             (False, bw) \<Rightarrow> (Inl ErrSend, snd (remote (content (dst bw)) s))
           | (True, bw) \<Rightarrow>
               (case remote (content (dst bw)) s of
                  (back, s) \<Rightarrow>
                    (case readEnvelope back of
                       Inl _ \<Rightarrow> (Inl ErrReceive, s)
                     | Inr env \<Rightarrow>
                         (case Option.bind (json_parse (env_Payload env)) dec of
                            None \<Rightarrow> (Inl ErrDecode, s)
                          | Some reply \<Rightarrow> (Inr reply, s))))))"

definition TCP_RequestVote ::
  "(bytes \<Rightarrow> bool) \<Rightarrow> osfile \<Rightarrow> (bytes \<Rightarrow> 's \<Rightarrow> bytes \<times> 's) \<Rightarrow> bytes \<Rightarrow> RequestVoteArgs \<Rightarrow> TCPTransport \<Rightarrow> 's \<Rightarrow>
     (rpc_error + RequestVoteReply) \<times> 's" where
  "TCP_RequestVote up conn remote peer args t s =
     (case TCP_dial up peer t of
        Inl e \<Rightarrow> (Inl e, s)
      | Inr _ \<Rightarrow>
          TCP_call dec_RequestVoteReply rpcRequestVote (Marshal (enc_RequestVoteArgs args)) conn remote s)"

definition TCP_AppendEntries ::
  "(bytes \<Rightarrow> bool) \<Rightarrow> osfile \<Rightarrow> (bytes \<Rightarrow> 's \<Rightarrow> bytes \<times> 's) \<Rightarrow> bytes \<Rightarrow> AppendEntriesArgs \<Rightarrow> TCPTransport \<Rightarrow> 's \<Rightarrow>
     (rpc_error + AppendEntriesReply) \<times> 's" where
  "TCP_AppendEntries up conn remote peer args t s =
     (case TCP_dial up peer t of
        Inl e \<Rightarrow> (Inl e, s)
      | Inr _ \<Rightarrow>
          TCP_call dec_AppendEntriesReply rpcAppendEntries (Marshal (enc_AppendEntriesArgs args)) conn remote s)"

end
