(* ===== verification/Raft_Replication.thy ===== *)
theory Raft_Replication
  imports Raft_Node
begin

text \<open>
  Log replication by the nodes of \<^theory_text>\<open>Raft\<close>: what \<^verbatim>\<open>HandleAppendEntries\<close> does to a log, the commit
  rule of \<^verbatim>\<open>maybeAdvanceCommitIndex\<close>, the apply loop, the exchange in which a leader brings a
  follower's log up to date, and what a snapshot does to a leader.
\<close>

section \<open>Reference definitions\<close>

text \<open>
  The log after \<^verbatim>\<open>AppendEntries\<close>, without the loop: the entries that agree in their terms are kept;
  at the first disagreement, or where the log ends, the rest of the request replaces the rest of
  the log.
\<close>

definition agreeing :: "LogEntry list \<Rightarrow> LogEntry list \<Rightarrow> nat" where
  "agreeing es tail = length (takeWhile (\<lambda>(x, y). le_Term x = le_Term y) (zip es tail))"

definition merge_log :: "nat \<Rightarrow> LogEntry list \<Rightarrow> LogEntry list \<Rightarrow> LogEntry list" where
  "merge_log idx es log =
     (let k = agreeing es (drop idx log)
      in if k = length es then log else take (idx + k) log @ drop k es)"

text \<open>The indices a leader may commit: above the commit index, of its term, on a majority.\<close>

definition committable :: "Node \<Rightarrow> nat \<Rightarrow> bool" where
  "committable n i \<longleftrightarrow>
     nd_commitIndex n < i \<and> i < length (nd_log n) \<and> le_Term (nd_log n ! i) = nd_currentTerm n \<and>
     2 * (1 + length (filter (\<lambda>p. i \<le> nd_matchIndex n p) (nd_peers n))) > length (nd_peers n) + 1"

text \<open>\<^verbatim>\<open>applyLoop\<close> after one notification, without interference: the entries up to the commit index.\<close>

function applyAll :: "Node \<Rightarrow> (ApplyMsg list \<times> Node) option" where
  "applyAll n =
     (if nd_lastApplied n < nd_commitIndex n then
        (case applyStep n of
           None \<Rightarrow> None
         | Some (m, n') \<Rightarrow>
             map_option (\<lambda>(ms, n''). ((case m of None \<Rightarrow> ms | Some x \<Rightarrow> x # ms), n'')) (applyAll n'))
      else Some ([], n))"
  by pat_completeness auto
termination
  by (relation "measure (\<lambda>n. nd_commitIndex n - nd_lastApplied n)")
    (auto simp: applyStep_def Let_def split: if_splits)

declare applyAll.simps [simp del]

definition command_at :: "LogEntry list \<Rightarrow> nat \<Rightarrow> ApplyMsg list" where
  "command_at log i =
     (case le_Command (log ! i) of None \<Rightarrow> [] | Some c \<Rightarrow> [\<lparr>am_CommandIndex = i, am_Command = c\<rparr>])"

text \<open>
  The exchange between a leader and one follower that starts with a request of the leader: the
  follower handles it, the leader handles the reply and, on a rejection, sends the next request at
  once. At most \<open>fuel\<close> requests.
\<close>

fun exchange :: "nat \<Rightarrow> int \<Rightarrow> bytes \<Rightarrow> AppendEntriesArgs \<Rightarrow> Node \<Rightarrow> Node \<Rightarrow> (Node \<times> Node) option" where
  "exchange 0 now p a ldr fol = None"
| "exchange (Suc fuel) now p a ldr fol =
     (case HandleAppendEntries now a fol of
        (r, fol') \<Rightarrow>
          (case onAppendReply p a r ldr of
             None \<Rightarrow> None
           | Some (ldr', []) \<Rightarrow> Some (ldr', fol')
           | Some (ldr', (_, a') # _) \<Rightarrow> exchange fuel now p a' ldr' fol'))"

section \<open>Lemmas: the log after AppendEntries\<close>

lemma agreeing_le: "agreeing es tail \<le> length es" "agreeing es tail \<le> length tail"
  unfolding agreeing_def by (rule order.trans [OF length_takeWhile_le], simp)+

lemma agreeing_Nil [simp]: "agreeing es [] = 0" "agreeing [] tail = 0"
  by (simp_all add: agreeing_def)

lemma agreeing_Cons [simp]:
  "agreeing (e # es) (x # tail) = (if le_Term e = le_Term x then Suc (agreeing es tail) else 0)"
  by (simp add: agreeing_def)

lemma agreeing_nth: "k < agreeing es tail \<Longrightarrow> le_Term (es ! k) = le_Term (tail ! k)"
proof (induction es arbitrary: tail k)
  case (Cons e es)
  then show ?case by (cases tail; cases k) (auto split: if_splits)
qed simp

lemma append_loop_end: "append_loop (length log) es log = log @ es"
  by (induction es arbitrary: log) (simp_all, metis append.assoc append_Cons append_Nil length_append_singleton)

lemma append_loop_merge:
  "idx \<le> length log \<Longrightarrow> append_loop idx es log = merge_log idx es log"
proof (induction es arbitrary: idx log)
  case (Cons e es)
  show ?case
  proof (cases "idx < length log")
    case False
    then have "idx = length log" using Cons.prems by simp
    then show ?thesis using append_loop_end [of "log @ [e]" es] by (simp add: merge_log_def)
  next
    case True
    then have d: "drop idx log = log ! idx # drop (Suc idx) log" by (rule Cons_nth_drop_Suc [symmetric])
    show ?thesis
    proof (cases "le_Term (log ! idx) = le_Term e")
      case eq: True
      then show ?thesis using True Cons.IH [of "Suc idx" log] by (simp add: merge_log_def Let_def d)
    next
      case False
      have "length (take idx log @ [e]) = Suc idx" using True by simp
      then have "append_loop (Suc idx) es (take idx log @ [e]) = take idx log @ e # es"
        using append_loop_end [of "take idx log @ [e]" es] by simp
      then show ?thesis using True False by (simp add: merge_log_def d eq_commute [of "le_Term e"])
    qed
  qed
qed (simp add: merge_log_def)

lemma agreeing_append_self: "agreeing es (es @ xs) = length es"
  by (induction es) simp_all

lemma agreeing_eq: "agreeing es tail = length es \<longleftrightarrow> length es \<le> length tail \<and> (\<forall>k<length es. le_Term (es ! k) = le_Term (tail ! k))"
proof
  assume a: "agreeing es tail = length es"
  then show "length es \<le> length tail \<and> (\<forall>k<length es. le_Term (es ! k) = le_Term (tail ! k))"
    using agreeing_le(2) [of es tail] agreeing_nth [of _ es tail] by simp
next
  assume "length es \<le> length tail \<and> (\<forall>k<length es. le_Term (es ! k) = le_Term (tail ! k))"
  then show "agreeing es tail = length es"
  proof (induction es arbitrary: tail)
    case (Cons e es)
    then obtain x xs where t: "tail = x # xs" by (cases tail) auto
    have "le_Term ((e # es) ! 0) = le_Term (tail ! 0)" using Cons.prems by blast
    moreover have "\<forall>k<length es. le_Term (es ! k) = le_Term (xs ! k)"
      using Cons.prems t by (metis Suc_less_eq length_Cons nth_Cons_Suc)
    ultimately show ?case using Cons t by simp
  qed simp
qed

lemma merge_log_length: "idx \<le> length log \<Longrightarrow> idx + length es \<le> length (merge_log idx es log)"
  using agreeing_le [of es "drop idx log"] by (simp add: merge_log_def Let_def min_def) linarith

lemma merge_log_prefix: "idx \<le> length log \<Longrightarrow> take idx (merge_log idx es log) = take idx log"
  using agreeing_le(2) [of es "drop idx log"] by (simp add: merge_log_def Let_def)

lemma merge_log_terms:
  assumes "idx \<le> length log" "k < length es"
  shows "le_Term (merge_log idx es log ! (idx + k)) = le_Term (es ! k)"
proof -
  let ?a = "agreeing es (drop idx log)"
  have le: "?a \<le> length es" "idx + ?a \<le> length log" using agreeing_le [of es "drop idx log"] assms(1) by simp_all
  show ?thesis
  proof (cases "k < ?a")
    case True
    then show ?thesis using agreeing_nth [OF True] le assms(1) by (simp add: merge_log_def Let_def nth_append)
  next
    case False
    then show ?thesis using le assms by (simp add: merge_log_def Let_def nth_append min_def)
  qed
qed

lemma merge_log_idem:
  assumes "idx \<le> length log"
  shows "merge_log idx es (merge_log idx es log) = merge_log idx es log"
proof -
  have "agreeing es (drop idx (merge_log idx es log)) = length es"
    using merge_log_length [OF assms, of es] merge_log_terms [OF assms] by (simp add: agreeing_eq)
  then show ?thesis by (simp add: merge_log_def [of idx es "merge_log idx es log"])
qed

lemma HandleAppendEntries_success:
  "aer_Success (fst (HandleAppendEntries now a n)) \<longleftrightarrow>
     nd_currentTerm n \<le> ae_Term a \<and> ae_PrevLogIndex a < length (nd_log n) \<and>
     le_Term (nd_log n ! ae_PrevLogIndex a) = ae_PrevLogTerm a"
  by (simp add: HandleAppendEntries_def Let_def)

lemma HandleAppendEntries_log_eq:
  "nd_log (snd (HandleAppendEntries now a n)) =
     (if aer_Success (fst (HandleAppendEntries now a n))
      then merge_log (Suc (ae_PrevLogIndex a)) (ae_Entries a) (nd_log n) else nd_log n)"
  by (cases rule: HandleAppendEntries_cases [of a n now]) (auto simp: append_loop_merge)

lemma HandleAppendEntries_term:
  "nd_currentTerm (snd (HandleAppendEntries now a n)) = max (nd_currentTerm n) (ae_Term a)"
  by (cases rule: HandleAppendEntries_cases [of a n now]) (auto simp: max_def)

section \<open>Lemmas: the commit rule and the apply loop\<close>

lemma replica_count_filter: "replica_count ps m i = 1 + length (filter (\<lambda>p. i \<le> m p) ps)"
  by (induction ps) simp_all

lemma advance_loop_commit:
  assumes "i < length (nd_log n)"
  shows "nd_commitIndex (advance_loop i n) =
     (if \<exists>j\<le>i. committable n j then Max {j. j \<le> i \<and> committable n j} else nd_commitIndex n)"
  using assms
proof (induction i)
  case 0
  then show ?case by (simp add: committable_def)
next
  case (Suc i)
  have fin: "finite {j. j \<le> m \<and> committable n j}" for m by (rule finite_subset [of _ "{..m}"]) auto
  show ?case
  proof (cases "committable n (Suc i)")
    case True
    then have "Max {j. j \<le> Suc i \<and> committable n j} = Suc i"
      by (intro Max_eqI) (auto intro: fin)
    then show ?thesis using True by (auto simp: committable_def replica_count_filter)
  next
    case False
    then have eq: "{j. j \<le> Suc i \<and> committable n j} = {j. j \<le> i \<and> committable n j}"
      "(\<exists>j\<le>Suc i. committable n j) \<longleftrightarrow> (\<exists>j\<le>i. committable n j)" using le_Suc_eq by auto
    have low: "Suc i \<le> nd_commitIndex n \<Longrightarrow> \<not> committable n j" if "j \<le> i" for j
      using that by (simp add: committable_def)
    show ?thesis
    proof (cases "Suc i \<le> nd_commitIndex n")
      case True
      then show ?thesis using low eq by auto
    next
      case ge: False
      then have adv: "advance_loop (Suc i) n = advance_loop i n"
        using False Suc.prems by (auto simp: committable_def replica_count_filter)
      show ?thesis unfolding eq adv by (rule Suc.IH) (use Suc.prems in simp)
    qed
  qed
qed

lemma applyStep_Some:
  assumes "nd_lastApplied n < nd_commitIndex n" "nd_commitIndex n < length (nd_log n)"
  obtains m where "applyStep n = Some (m, n\<lparr>nd_lastApplied := Suc (nd_lastApplied n)\<rparr>)"
    "(case m of None \<Rightarrow> [] | Some x \<Rightarrow> [x]) = command_at (nd_log n) (Suc (nd_lastApplied n))"
proof -
  let ?c = "le_Command (nd_log n ! Suc (nd_lastApplied n))"
  have "applyStep n = Some (map_option (\<lambda>c. \<lparr>am_CommandIndex = Suc (nd_lastApplied n), am_Command = c\<rparr>) ?c,
     n\<lparr>nd_lastApplied := Suc (nd_lastApplied n)\<rparr>)"
    using assms by (simp add: applyStep_def Let_def)
  then show thesis by (rule that) (simp add: command_at_def split: option.splits)
qed

lemma applyAll_eq:
  assumes "nd_lastApplied n \<le> nd_commitIndex n" "nd_commitIndex n < length (nd_log n)"
  shows "applyAll n =
     Some (concat (map (command_at (nd_log n)) [Suc (nd_lastApplied n)..<Suc (nd_commitIndex n)]),
           n\<lparr>nd_lastApplied := nd_commitIndex n\<rparr>)"
  using assms
proof (induction n rule: applyAll.induct)
  case (1 n)
  show ?case
  proof (cases "nd_lastApplied n < nd_commitIndex n")
    case False
    then have "nd_lastApplied n = nd_commitIndex n" using 1 by simp
    then show ?thesis by (simp add: applyAll.simps [of n])
  next
    case True
    let ?n = "n\<lparr>nd_lastApplied := Suc (nd_lastApplied n)\<rparr>"
    obtain m where m: "applyStep n = Some (m, ?n)"
      "(case m of None \<Rightarrow> [] | Some x \<Rightarrow> [x]) = command_at (nd_log n) (Suc (nd_lastApplied n))"
      using applyStep_Some True "1.prems"(2) by blast
    have "applyAll ?n = Some (concat (map (command_at (nd_log n)) [Suc (Suc (nd_lastApplied n))..<Suc (nd_commitIndex n)]),
        n\<lparr>nd_lastApplied := nd_commitIndex n\<rparr>)"
      using "1.IH" [OF True m(1) refl] True "1.prems" by simp
    then show ?thesis
      using True m(1) m(2) [symmetric]
      by (simp add: applyAll.simps [of n] upt_conv_Cons [of "Suc (nd_lastApplied n)"] del: upt_Suc split: option.splits)
  qed
qed

section \<open>Properties: appending, committing, applying\<close>

text \<open>
  C27: \<^verbatim>\<open>HandleAppendEntries\<close> accepts a request exactly when its term is not old and the log holds the
  preceding entry with its term. Then the log is the reference merge, so entries in front of the
  request and entries that agree are never touched, every entry of the request is at its place, and
  the log loses a suffix only from the first entry whose term disagrees; a repeated request changes
  nothing. Otherwise the log stays as it is.
\<close>

theorem HandleAppendEntries_merges_log:
  "case HandleAppendEntries now a n of (r, n') \<Rightarrow>
     (aer_Success r \<longleftrightarrow> nd_currentTerm n \<le> ae_Term a \<and> ae_PrevLogIndex a < length (nd_log n) \<and>
        le_Term (nd_log n ! ae_PrevLogIndex a) = ae_PrevLogTerm a) \<and>
     nd_log n' = (if aer_Success r then merge_log (Suc (ae_PrevLogIndex a)) (ae_Entries a) (nd_log n) else nd_log n) \<and>
     (if aer_Success r then
        take (Suc (ae_PrevLogIndex a)) (nd_log n') = take (Suc (ae_PrevLogIndex a)) (nd_log n) \<and>
        map le_Term (take (length (ae_Entries a)) (drop (Suc (ae_PrevLogIndex a)) (nd_log n'))) = map le_Term (ae_Entries a) \<and>
        (case HandleAppendEntries later a n' of (r', n'') \<Rightarrow> aer_Success r' \<and> nd_log n'' = nd_log n')
      else True)"
proof (cases "aer_Success (fst (HandleAppendEntries now a n))")
  case False
  then show ?thesis
    using HandleAppendEntries_success [of now a n] HandleAppendEntries_log_eq [of now a n]
    unfolding case_prod_beta by argo
next
  case True
  let ?i = "Suc (ae_PrevLogIndex a)" and ?n' = "snd (HandleAppendEntries now a n)"
  have i: "?i \<le> length (nd_log n)" and t: "nd_currentTerm n \<le> ae_Term a"
    and p: "le_Term (nd_log n ! ae_PrevLogIndex a) = ae_PrevLogTerm a"
    using True HandleAppendEntries_success [of now a n] by simp_all
  have l: "nd_log ?n' = merge_log ?i (ae_Entries a) (nd_log n)" using True HandleAppendEntries_log_eq [of now a n] by simp
  note len = merge_log_length [OF i, of "ae_Entries a"] and pre = merge_log_prefix [OF i, of "ae_Entries a"]
  have m: "map le_Term (take (length (ae_Entries a)) (drop ?i (nd_log ?n'))) = map le_Term (ae_Entries a)"
    unfolding l by (rule nth_equalityI) (use len merge_log_terms [OF i] in simp_all)
  have "nd_log ?n' ! ae_PrevLogIndex a = nd_log n ! ae_PrevLogIndex a"
    using arg_cong [OF pre, of "\<lambda>xs. xs ! ae_PrevLogIndex a"] len unfolding l by simp
  then have s: "aer_Success (fst (HandleAppendEntries later a ?n'))"
    using HandleAppendEntries_success [of later a ?n'] HandleAppendEntries_term [of now a n] t p len l by simp
  then have "nd_log (snd (HandleAppendEntries later a ?n')) = nd_log ?n'"
    using HandleAppendEntries_log_eq [of later a ?n'] merge_log_idem [OF i] l by simp
  then show ?thesis using True s m pre l i t p by (simp add: case_prod_beta)
qed

text \<open>
  C27: \<^verbatim>\<open>maybeAdvanceCommitIndex\<close> moves the commit index to the highest index above it whose entry is of
  the current term and is stored on a majority counting the leader itself, and leaves it when there
  is none; nothing else of the log, the term or the role changes.
\<close>

theorem maybeAdvanceCommitIndex_highest:
  assumes "nd_log n \<noteq> []"
  shows "nd_commitIndex (maybeAdvanceCommitIndex n) =
      (if \<exists>i. committable n i then Max {i. committable n i} else nd_commitIndex n) \<and>
    nd_log (maybeAdvanceCommitIndex n) = nd_log n \<and> nd_currentTerm (maybeAdvanceCommitIndex n) = nd_currentTerm n \<and>
    nd_role (maybeAdvanceCommitIndex n) = nd_role n"
proof -
  have "committable n i \<Longrightarrow> i \<le> length (nd_log n) - 1" for i by (auto simp: committable_def)
  then have eq: "{j. j \<le> length (nd_log n) - 1 \<and> committable n j} = {j. committable n j}"
    "(\<exists>j\<le>length (nd_log n) - 1. committable n j) \<longleftrightarrow> (\<exists>j. committable n j)" by auto
  have "length (nd_log n) - 1 < length (nd_log n)" using assms by simp
  from advance_loop_commit [OF this, unfolded eq, folded maybeAdvanceCommitIndex_def] show ?thesis by simp
qed


definition demo_leader :: Node where
  "demo_leader = (demo_node [])\<lparr>nd_role := Leader, nd_currentTerm := 2,
     nd_log := [sentinel 0, \<lparr>le_Term = 1, le_Command = Some (str ''x'')\<rparr>, \<lparr>le_Term = 2, le_Command = None\<rparr>,
                \<lparr>le_Term = 2, le_Command = Some (str ''y'')\<rparr>],
     nd_nextIndex := \<lambda>_. 4, nd_matchIndex := (\<lambda>_. 0)(str ''b'' := 3)\<rparr>"

theorem maybeAdvanceCommitIndex_highest_witness:
  "nd_commitIndex (maybeAdvanceCommitIndex demo_leader) = 3"
proof -
  have "committable demo_leader i \<longleftrightarrow> i = 2 \<or> i = 3" for i
    by (auto simp: committable_def demo_leader_def demo_node_simps less_Suc_eq numeral_eq_Suc)
  then have "{i. committable demo_leader i} = {2, 3}" "\<exists>i. committable demo_leader i" by auto
  then show ?thesis using maybeAdvanceCommitIndex_highest [of demo_leader] by (simp add: demo_leader_def)
qed


section \<open>Lemmas: the exchange with a follower\<close>

lemma conflict_index_bounds: "conflict_index log t i \<le> i" "0 < i \<Longrightarrow> 0 < conflict_index log t i"
proof (induction i)
  case (Suc i)
  { case 1 then show ?case using Suc by simp }
  { case 2 then show ?case using Suc by simp }
qed simp_all

lemma last_of_term_pos: "0 < last_of_term t log i \<Longrightarrow> last_of_term t log i \<le> i \<and> le_Term (log ! last_of_term t log i) = t"
  by (induction i) (auto split: if_splits)

text \<open>
  What is known of a leader's log \<open>L\<close> and a follower's log \<open>F\<close>: they start with the same entry,
  equal terms at an index mean equal logs up to there, and a term that occurs in both has its
  entries of \<open>L\<close> start no later than those of \<open>F\<close>.
\<close>

definition logs_match :: "LogEntry list \<Rightarrow> LogEntry list \<Rightarrow> bool" where
  "logs_match L F \<longleftrightarrow>
     L \<noteq> [] \<and> F \<noteq> [] \<and> L ! 0 = F ! 0 \<and>
     (\<forall>i < min (length L) (length F). le_Term (F ! i) = le_Term (L ! i) \<longrightarrow> take (Suc i) F = take (Suc i) L) \<and>
     (\<forall>i < length L. \<forall>j < length F. j \<le> i \<longrightarrow> le_Term (L ! i) = le_Term (F ! j) \<longrightarrow> le_Term (L ! j) = le_Term (F ! j))"

lemma sendAppendEntries_Some:
  assumes "sendAppendEntries p n = Some a"
  shows "ae_PrevLogIndex a = max 1 (nd_nextIndex n p) - 1" "ae_PrevLogIndex a < length (nd_log n)"
    "ae_PrevLogTerm a = le_Term (nd_log n ! ae_PrevLogIndex a)" "ae_Term a = nd_currentTerm n"
    "ae_Entries a = drop (Suc (ae_PrevLogIndex a)) (nd_log n)" "ae_LeaderCommit a = nd_commitIndex n"
    "ae_LeaderId a = nd_id n"
  using assms by (auto simp: sendAppendEntries_def Let_def split: if_splits)

lemma sendAppendEntries_ok:
  assumes "max 1 (nd_nextIndex n p) \<le> length (nd_log n)"
  obtains a where "sendAppendEntries p n = Some a"
proof -
  have "\<not> (if nd_nextIndex n p < 1 then 1 else nd_nextIndex n p) - 1 \<ge> length (nd_log n)" using assms by auto
  then have "sendAppendEntries p n \<noteq> None" unfolding sendAppendEntries_def Let_def by auto
  then show thesis using that by blast
qed

text \<open>A rejection moves the leader strictly back.\<close>

lemma rejection_moves_back:
  assumes l: "nd_role ldr = Leader" "nd_currentTerm fol \<le> nd_currentTerm ldr" "logs_match (nd_log ldr) (nd_log fol)"
    and a: "sendAppendEntries p ldr = Some a"
    and h: "HandleAppendEntries now a fol = (r, fol')" "\<not> aer_Success r"
  obtains x where "max 1 x < max 1 (nd_nextIndex ldr p)"
    "onAppendReply p a r ldr = map_option (\<lambda>a'. (ldr\<lparr>nd_nextIndex := (nd_nextIndex ldr)(p := x)\<rparr>, [(p, a')]))
       (sendAppendEntries p (ldr\<lparr>nd_nextIndex := (nd_nextIndex ldr)(p := x)\<rparr>))"
proof -
  let ?prev = "ae_PrevLogIndex a" and ?F = "nd_log fol" and ?L = "nd_log ldr"
  note s = sendAppendEntries_Some [OF a]
  have rej: "?prev < length ?F \<Longrightarrow> le_Term (?F ! ?prev) \<noteq> le_Term (?L ! ?prev)"
    using h HandleAppendEntries_success [of now a fol] l(2) s(3,4) by simp
  have pos: "0 < ?prev"
  proof (rule ccontr)
    assume "\<not> 0 < ?prev"
    then show False using rej l(3) by (auto simp: logs_match_def)
  qed
  define x where "x = (if aer_ConflictTerm r \<noteq> 0 then
        (let found = last_of_term (aer_ConflictTerm r) ?L (length ?L - 1)
         in if found > 0 then found + 1 else aer_ConflictIndex r)
      else if aer_ConflictIndex r > 0 then aer_ConflictIndex r
      else if nd_nextIndex ldr p > 1 then nd_nextIndex ldr p - 1
      else nd_nextIndex ldr p)"
  have r: "aer_Term r = ae_Term a"
    "?prev < length ?F \<Longrightarrow> aer_ConflictTerm r = le_Term (?F ! ?prev) \<and>
        aer_ConflictIndex r = conflict_index ?F (le_Term (?F ! ?prev)) ?prev"
    "\<not> ?prev < length ?F \<Longrightarrow> aer_ConflictTerm r = 0 \<and> aer_ConflictIndex r = length ?F"
    using h l(2) s(3,4) by (auto simp: HandleAppendEntries_def Let_def split: if_splits)
  have ci: "0 < aer_ConflictIndex r" "aer_ConflictIndex r \<le> ?prev"
    using r(2,3) conflict_index_bounds [where i = ?prev] pos l(3) by (cases "?prev < length ?F"; simp add: logs_match_def)+
  have "x \<le> ?prev"
  proof (cases "aer_ConflictTerm r \<noteq> 0 \<and> 0 < last_of_term (aer_ConflictTerm r) ?L (length ?L - 1)")
    case True
    then have p: "?prev < length ?F" and ct: "aer_ConflictTerm r = le_Term (?F ! ?prev)" using r(2,3) by (metis)+
    let ?f = "last_of_term (aer_ConflictTerm r) ?L (length ?L - 1)"
    have "?f \<le> length ?L - 1 \<and> le_Term (?L ! ?f) = le_Term (?F ! ?prev)"
      using last_of_term_pos [of "aer_ConflictTerm r" ?L "length ?L - 1"] True ct by simp
    then have f: "?f < length ?L" "le_Term (?L ! ?f) = le_Term (?F ! ?prev)" using s(2) by linarith+
    have "\<not> ?prev \<le> ?f" using f p rej l(3) unfolding logs_match_def by metis
    then show ?thesis using True by (simp add: x_def Let_def)
  next
    case False
    then show ?thesis using ci by (auto simp: x_def Let_def)
  qed
  then have "max 1 x < max 1 (nd_nextIndex ldr p)" using pos s(1) by (auto simp: max_def split: if_splits)
  moreover have "onAppendReply p a r ldr = map_option (\<lambda>a'. (ldr\<lparr>nd_nextIndex := (nd_nextIndex ldr)(p := x)\<rparr>, [(p, a')]))
       (sendAppendEntries p (ldr\<lparr>nd_nextIndex := (nd_nextIndex ldr)(p := x)\<rparr>))"
    using l(1) s(4) r(1) h(2) unfolding onAppendReply_def x_def by (simp add: Let_def)
  ultimately show thesis by (rule that)
qed

text \<open>An accepted request leaves the leader's log as a prefix of the follower's.\<close>

lemma merge_catches_up:
  assumes m: "logs_match L F" and p: "prev < length F" "prev < length L" "le_Term (F ! prev) = le_Term (L ! prev)"
  shows "take (length L) (merge_log (Suc prev) (drop (Suc prev) L) F) = L"
proof -
  let ?es = "drop (Suc prev) L" and ?t = "drop (Suc prev) F"
  let ?k = "agreeing ?es ?t"
  have k: "Suc prev + ?k \<le> length L" "Suc prev + ?k \<le> length F" using agreeing_le [of ?es ?t] p by simp_all
  have "le_Term (F ! (prev + ?k)) = le_Term (L ! (prev + ?k))"
  proof (cases ?k)
    case (Suc j)
    then have "j < ?k" by simp
    from agreeing_nth [OF this] Suc k show ?thesis by simp
  qed (use p in simp)
  then have eq: "take (Suc prev + ?k) F = take (Suc prev + ?k) L"
    using m k unfolding logs_match_def by (metis Suc_le_lessD add_Suc min_less_iff_conj)
  show ?thesis
  proof (cases "?k = length ?es")
    case True
    then have "Suc prev + ?k = length L" using p(2) by simp
    from eq [unfolded this] True show ?thesis by (simp add: merge_log_def)
  next
    case False
    then have "merge_log (Suc prev) ?es F = take (Suc prev + ?k) L @ drop (Suc prev + ?k) L"
      using eq by (simp add: merge_log_def Let_def add.commute)
    then show ?thesis by simp
  qed
qed

lemma exchange_catches_up_fuel:
  assumes "nd_role ldr = Leader" "nd_currentTerm fol \<le> nd_currentTerm ldr" "logs_match (nd_log ldr) (nd_log fol)"
    and "sendAppendEntries p ldr = Some a" "max 1 (nd_nextIndex ldr p) \<le> fuel"
  shows "\<exists>ldr' fol'. exchange fuel now p a ldr fol = Some (ldr', fol') \<and>
     take (length (nd_log ldr)) (nd_log fol') = nd_log ldr \<and> nd_log ldr' = nd_log ldr \<and>
     nd_matchIndex ldr' p = max (length (nd_log ldr) - 1) (nd_matchIndex ldr p)"
  using assms
proof (induction fuel arbitrary: ldr fol a)
  case (Suc fuel)
  note s = sendAppendEntries_Some [OF Suc.prems(4)]
  obtain r fol' where h: "HandleAppendEntries now a fol = (r, fol')" by (metis prod.exhaust)
  show ?case
  proof (cases "aer_Success r")
    case True
    then have c: "ae_PrevLogIndex a < length (nd_log fol)"
      "le_Term (nd_log fol ! ae_PrevLogIndex a) = le_Term (nd_log ldr ! ae_PrevLogIndex a)"
      using HandleAppendEntries_success [of now a fol] h s(3) by simp_all
    have "nd_log fol' = merge_log (Suc (ae_PrevLogIndex a)) (drop (Suc (ae_PrevLogIndex a)) (nd_log ldr)) (nd_log fol)"
      using True HandleAppendEntries_log_eq [of now a fol] h s(5) by simp
    moreover have "aer_Term r = nd_currentTerm ldr"
      using h Suc.prems(2) s(4) by (auto simp: HandleAppendEntries_def Let_def split: if_splits)
    moreover have "ae_PrevLogIndex a + length (ae_Entries a) = length (nd_log ldr) - 1" using s(2,5) by simp
    ultimately show ?thesis
      using merge_catches_up [OF Suc.prems(3) c(1) s(2) c(2)] True Suc.prems(1) s(4) h
      by (auto simp: onAppendReply_def Let_def)
  next
    case False
    obtain x where x: "max 1 x < max 1 (nd_nextIndex ldr p)"
      "onAppendReply p a r ldr = map_option (\<lambda>a'. (ldr\<lparr>nd_nextIndex := (nd_nextIndex ldr)(p := x)\<rparr>, [(p, a')]))
         (sendAppendEntries p (ldr\<lparr>nd_nextIndex := (nd_nextIndex ldr)(p := x)\<rparr>))"
      by (rule rejection_moves_back [OF Suc.prems(1-4) h False])
    let ?l = "ldr\<lparr>nd_nextIndex := (nd_nextIndex ldr)(p := x)\<rparr>"
    have "max 1 (nd_nextIndex ?l p) \<le> length (nd_log ?l)" using x(1) s(1,2) by (auto simp: max_def split: if_splits)
    then obtain a' where a': "sendAppendEntries p ?l = Some a'" by (rule sendAppendEntries_ok)
    have "nd_log fol' = nd_log fol" "nd_currentTerm fol' = nd_currentTerm ldr"
      using False HandleAppendEntries_log_eq [of now a fol] HandleAppendEntries_term [of now a fol] h Suc.prems(2) s(4) by simp_all
    moreover have "max 1 x \<le> fuel" using x(1) Suc.prems(5) by linarith
    ultimately show ?thesis
      using Suc.IH [of ?l fol' a'] Suc.prems(1-4) a' x(2) h by simp
  qed
qed simp

lemma all_some_None: "None \<in> set xs \<Longrightarrow> all_some xs = None"
  by (induction xs) (auto split: option.splits)

section \<open>Properties: catching up, snapshots\<close>


definition demo_follower :: Node where
  "demo_follower = (demo_node [])\<lparr>nd_id := str ''b'', nd_currentTerm := 2,
     nd_log := [sentinel 0, \<lparr>le_Term = 1, le_Command = Some (str ''x'')\<rparr>, \<lparr>le_Term = 1, le_Command = Some (str ''z'')\<rparr>]\<rparr>"


text \<open>
  C31: a snapshot breaks a leader. \<^verbatim>\<open>TakeSnapshot\<close> cuts the log without keeping the index of its first
  entry, so when a follower has everything up to the end of the log, the next heartbeat after a
  snapshot at an index above 0 reads beyond the log and panics.
\<close>

theorem snapshot_then_heartbeat_panics:
  assumes "TakeSnapshot i d n = (None, n')" "0 < i" "nd_snapshotIndex n \<le> i"
    and "nd_role n = Leader" "p \<in> set (nd_peers n)" "nd_nextIndex n p = length (nd_log n)"
  shows "heartbeatTick n' = None"
proof -
  have i: "i < length (nd_log n)" using assms(1,3) by (auto simp: TakeSnapshot_def split: if_splits)
  obtain ok n1 where w: "writeSnapshot i (le_Term (nd_log n ! i)) d n = (ok, n1)" by (metis prod.exhaust)
  have n1: "n1 = n \<or> (\<exists>fs. n1 = n\<lparr>nd_fs := fs\<rparr>)"
    using w by (auto simp: writeSnapshot_def split: if_splits option.splits prod.splits)
  have ok using assms(1,3) i w by (cases ok) (simp_all add: TakeSnapshot_def Let_def split: if_splits)
  then have n': "n' = snd (persist (n1\<lparr>nd_log := sentinel (le_Term (nd_log n ! i)) # drop (Suc i) (nd_log n1),
                 nd_snapshotIndex := i, nd_snapshotTerm := le_Term (nd_log n ! i)\<rparr>))"
    using assms(1,3) i w by (simp add: TakeSnapshot_def Let_def sentinel_def case_prod_beta split: if_splits)
  have f: "nd_peers n' = nd_peers n" "nd_role n' = Leader" "nd_nextIndex n' p = length (nd_log n)"
    "length (nd_log n') = length (nd_log n) - i" "nd_log n \<noteq> []"
    using n1 i assms(4,6) by (auto simp: n')
  have "sendAppendEntries p n' = None"
    unfolding sendAppendEntries_def Let_def using f(3-5) assms(2) i by simp
  then have "None \<in> set (map (\<lambda>peer. map_option (Pair peer) (sendAppendEntries peer n')) (nd_peers n'))"
    using assms(5) f(1) by (auto intro!: image_eqI [of _ _ p])
  from all_some_None [OF this] show ?thesis by (simp add: heartbeatTick_def broadcastAppendEntries_def f(2))
qed

theorem snapshot_then_heartbeat_panics_witness:
  "\<exists>n'. TakeSnapshot 2 (Some (str ''{}'')) (demo_leader\<lparr>nd_commitIndex := 3, nd_statePath := []\<rparr>) = (None, n') \<and> heartbeatTick n' = None"
proof -
  let ?n = "demo_leader\<lparr>nd_commitIndex := 3, nd_statePath := []\<rparr>"
  obtain n' where "TakeSnapshot 2 (Some (str ''{}'')) ?n = (None, n')"
    by (auto simp: TakeSnapshot_def writeSnapshot_def persist_def demo_leader_def demo_node_def blank_node_def Let_def)
  with snapshot_then_heartbeat_panics [OF this, of "str ''b''"] show ?thesis
    by (auto simp: demo_leader_def demo_node_def blank_node_def)
qed

end
