(* ===== verification/Transport_Correct.thy ===== *)
theory Transport_Correct
  imports Transport Raft_Replication
begin

text \<open>
  What a node may rely on from its transport. The locale \<open>rpc_transport\<close> is the contract of the two
  in-process transports: a call either fails and touches no node, or is one run of the handler of
  exactly the peer it names. For the TCP transport: envelopes and messages survive the wire, a call
  over a healthy connection is a direct call of the peer's handler, and a request above the size
  limit never arrives.
\<close>

section \<open>In-process transports\<close>

locale rpc_transport =
  fixes nodes :: "'t \<Rightarrow> bytes \<rightharpoonup> Node"
    and blocked :: "bytes \<Rightarrow> bytes \<Rightarrow> 't \<Rightarrow> bool"
    and request_vote :: "int \<Rightarrow> bytes \<Rightarrow> RequestVoteArgs \<Rightarrow> 't \<Rightarrow> (rpc_error + RequestVoteReply) \<times> 't"
    and append_entries :: "int \<Rightarrow> bytes \<Rightarrow> AppendEntriesArgs \<Rightarrow> 't \<Rightarrow> (rpc_error + AppendEntriesReply) \<times> 't"
  assumes vote_failed: "request_vote now p a t = (Inl e, t') \<Longrightarrow> nodes t' = nodes t"
    and vote_done: "request_vote now p a t = (Inr r, t') \<Longrightarrow>
      \<exists>n. nodes t p = Some n \<and> r = fst (HandleRequestVote now a n) \<and>
        nodes t' = (nodes t)(p \<mapsto> snd (HandleRequestVote now a n))"
    and vote_blocked: "blocked (rv_CandidateId a) p t \<Longrightarrow> \<exists>e. fst (request_vote now p a t) = Inl e"
    and vote_delivered: "\<not> blocked (rv_CandidateId a) p t \<Longrightarrow> nodes t p = Some n \<Longrightarrow> \<exists>r. fst (request_vote now p a t) = Inr r"
    and append_failed: "append_entries now p b t = (Inl e, t') \<Longrightarrow> nodes t' = nodes t"
    and append_done: "append_entries now p b t = (Inr s, t') \<Longrightarrow>
      \<exists>n. nodes t p = Some n \<and> s = fst (HandleAppendEntries now b n) \<and>
        nodes t' = (nodes t)(p \<mapsto> snd (HandleAppendEntries now b n))"
    and append_blocked: "blocked (ae_LeaderId b) p t \<Longrightarrow> \<exists>e. fst (append_entries now p b t) = Inl e"
begin

lemma vote_isolated:
  assumes "blocked (rv_CandidateId a) p t"
  shows "(\<exists>e. fst (request_vote now p a t) = Inl e) \<and> nodes (snd (request_vote now p a t)) = nodes t"
  using vote_blocked [OF assms, of now] vote_failed [of now p a t] by (cases "request_vote now p a t") auto

lemma append_isolated:
  assumes "blocked (ae_LeaderId b) p t"
  shows "(\<exists>e. fst (append_entries now p b t) = Inl e) \<and> nodes (snd (append_entries now p b t)) = nodes t"
  using append_blocked [OF assms, of now] append_failed [of now p b t] by (cases "append_entries now p b t") auto

text \<open>The calls of an election, one after the other, and the replies that come ret.\<close>

fun vote_round :: "int \<Rightarrow> (bytes \<times> RequestVoteArgs) list \<Rightarrow> 't \<Rightarrow> RequestVoteReply list \<times> 't" where
  "vote_round now [] t = ([], t)"
| "vote_round now ((p, a) # rpcs) t =
     (case request_vote now p a t of
        (Inl _, t) \<Rightarrow> vote_round now rpcs t
      | (Inr r, t) \<Rightarrow> (case vote_round now rpcs t of (rs, t) \<Rightarrow> (r # rs, t)))"

lemma vote_other: "q \<noteq> p \<Longrightarrow> nodes (snd (request_vote now p a t)) q = nodes t q"
  using vote_failed [of now p a t] vote_done [of now p a t]
  by (cases "request_vote now p a t"; cases "fst (request_vote now p a t)") auto

lemma round_other: "q \<notin> fst ` set rpcs \<Longrightarrow> nodes (snd (vote_round now rpcs t)) q = nodes t q"
proof (induction rpcs arbitrary: t)
  case (Cons x rpcs)
  obtain p a where x: "x = (p, a)" by (metis prod.exhaust)
  obtain y t1 where y: "request_vote now p a t = (y, t1)" by (metis prod.exhaust)
  have "nodes t1 q = nodes t q" using vote_other [of q p now a t] Cons.prems x y by simp
  then show ?case using Cons.IH [of t1] Cons.prems x y by (auto split: sum.splits prod.splits)
qed simp

end

text \<open>Links that stay as they are while calls are made.\<close>

locale stable_transport = rpc_transport +
  assumes stable: "blocked f q (snd (request_vote now p a t)) \<longleftrightarrow> blocked f q t"
begin

lemma round_delivers:
  assumes "distinct (map fst rpcs)"
    and "\<And>p a. (p, a) \<in> set rpcs \<Longrightarrow> \<not> blocked (rv_CandidateId a) p t"
    and "\<And>p a. (p, a) \<in> set rpcs \<Longrightarrow> nodes t p = Some (m p)"
  shows "fst (vote_round now rpcs t) = map (\<lambda>(p, a). fst (HandleRequestVote now a (m p))) rpcs"
  using assms
proof (induction rpcs arbitrary: t)
  case (Cons x rpcs)
  obtain p a where x: "x = (p, a)" by (metis prod.exhaust)
  obtain y t1 where y: "request_vote now p a t = (y, t1)" by (metis prod.exhaust)
  obtain r where r: "y = Inr r" using vote_delivered [of a p t "m p" now] Cons.prems(2,3) [of p a] x y by auto
  have "r = fst (HandleRequestVote now a (m p))" using vote_done [of now p a t r t1] Cons.prems(3) [of p a] x y r by auto
  moreover have "fst (vote_round now rpcs t1) = map (\<lambda>(p, a). fst (HandleRequestVote now a (m p))) rpcs"
  proof (rule Cons.IH)
    show "distinct (map fst rpcs)" using Cons.prems(1) by simp
    show "\<not> blocked (rv_CandidateId b) q t1" if "(q, b) \<in> set rpcs" for q b
      using stable [of "rv_CandidateId b" q now p a t] Cons.prems(2) [of q b] that y by simp
    show "nodes t1 q = Some (m q)" if "(q, b) \<in> set rpcs" for q b
    proof -
      have "q \<noteq> p" using Cons.prems(1) x that by force
      then show ?thesis using vote_other [of q p now a t] Cons.prems(3) [of q b] that y by simp
    qed
  qed
  ultimately show ?case using x y r by (auto split: prod.splits)
qed simp

end

interpretation mem: stable_transport mt_nodes Mem_isPartitioned Mem_RequestVote Mem_AppendEntries
  by unfold_locales
    (auto simp: Mem_RequestVote_def Mem_AppendEntries_def Mem_getNode_def Mem_isPartitioned_def case_prod_beta
      split: if_splits option.splits)

text \<open>For the simulated transport a link is blocked when the next value of the generator drops the call.\<close>

interpretation sim: rpc_transport sim_nodes "\<lambda>f p t. fst (Sim_shouldDrop float64s f p t)"
  "Sim_RequestVote float64s" "Sim_AppendEntries float64s" for float64s
  by unfold_locales
    (auto simp: Sim_RequestVote_def Sim_AppendEntries_def Sim_getNode_def Sim_shouldDrop_def Sim_record_def Let_def
      case_prod_beta split: if_splits option.splits)

section \<open>An election over a transport\<close>

text \<open>The replies of one election, handled one after the other; \<open>None\<close> is a panic.\<close>

fun on_replies :: "nat \<Rightarrow> nat \<Rightarrow> RequestVoteReply list \<Rightarrow> Node \<Rightarrow> Node option" where
  "on_replies trm votes [] n = Some n"
| "on_replies trm votes (r # rs) n =
     (case onVoteReply trm votes r n of None \<Rightarrow> None | Some (votes, n, _) \<Rightarrow> on_replies trm votes rs n)"

text \<open>An election of node \<open>n\<close> over the in-process transport \<open>t\<close>, the calls made one by one.\<close>

definition mem_election :: "int \<Rightarrow> Node \<Rightarrow> MemTransport \<Rightarrow> Node option \<times> MemTransport" where
  "mem_election now n t =
     (case startElection now n of
        (n, rpcs) \<Rightarrow>
          (case mem.vote_round now rpcs t of (rs, t) \<Rightarrow> (on_replies (nd_currentTerm n) 1 rs n, t)))"

lemma becomeLeader_works:
  assumes "nd_log n \<noteq> []"
  obtains n' rpcs where "becomeLeader n = Some (n', rpcs)" "nd_role n' = Leader" "nd_currentTerm n' = nd_currentTerm n"
proof -
  let ?n = "n\<lparr>nd_role := Leader, nd_leaderId := nd_id n,
      nd_nextIndex := \<lambda>p. if p \<in> set (nd_peers n) then fst (lastLogIndexAndTerm n) + 1 else 0, nd_matchIndex := \<lambda>_. 0\<rparr>"
  have "sendAppendEntries p ?n \<noteq> None" if "p \<in> set (nd_peers n)" for p
    using that assms by (cases "nd_log n") (simp_all add: sendAppendEntries_def lastLogIndexAndTerm_def Let_def)
  then have "broadcastAppendEntries ?n \<noteq> None"
    using all_some_map [of "nd_peers n" "\<lambda>p. map_option (Pair p) (sendAppendEntries p ?n)"
      "\<lambda>p. (p, the (sendAppendEntries p ?n))"] by (auto simp: broadcastAppendEntries_def)
  then show thesis using that by (auto simp: becomeLeader_def Let_def)
qed

lemma on_replies_ignored:
  assumes "nd_role n = Leader" "\<forall>r \<in> set rs. rvr_Term r \<le> nd_currentTerm n"
  shows "on_replies trm votes rs n = Some n"
  using assms by (induction rs) (auto simp: onVoteReply_def)

lemma on_replies_win:
  assumes "nd_role n = Candidate" "nd_currentTerm n = trm" "nd_log n \<noteq> []"
    and "\<forall>r \<in> set rs. rvr_VoteGranted r \<and> rvr_Term r = trm"
    and "votes < votes_needed n" "votes_needed n \<le> votes + length rs"
  shows "\<exists>n'. on_replies trm votes rs n = Some n' \<and> nd_role n' = Leader \<and> nd_currentTerm n' = trm"
  using assms
proof (induction rs arbitrary: votes)
  case (Cons r rs)
  have r: "rvr_VoteGranted r" "rvr_Term r = nd_currentTerm n" "\<forall>r \<in> set rs. rvr_VoteGranted r \<and> rvr_Term r = trm"
    using Cons.prems(2,4) by simp_all
  show ?case
  proof (cases "votes_needed n \<le> votes + 1")
    case True
    obtain n' rpcs where l: "becomeLeader n = Some (n', rpcs)" "nd_role n' = Leader" "nd_currentTerm n' = nd_currentTerm n"
      using becomeLeader_works [OF Cons.prems(3)] .
    have "onVoteReply trm votes r n = Some (votes + 1, n', rpcs)"
      unfolding onVoteReply_def using True Cons.prems(1,2) r(1,2) l(1) by simp
    moreover have "on_replies trm (votes + 1) rs n' = Some n'"
      by (rule on_replies_ignored) (use l Cons.prems(2) r(3) in auto)
    ultimately show ?thesis using l(2,3) Cons.prems(2) by simp
  next
    case False
    have "onVoteReply trm votes r n = Some (votes + 1, n, [])"
      unfolding onVoteReply_def using False Cons.prems(1,2) r(1,2) by simp
    moreover have "votes_needed n \<le> votes + 1 + length rs" using Cons.prems(6) by simp
    ultimately show ?thesis using Cons.IH [OF Cons.prems(1-3) r(3), of "votes + 1"] False by simp
  qed
qed simp

lemma HandleRequestVote_fresh_term:
  assumes "nd_currentTerm m < rv_Term a"
    and "rv_LastLogTerm a > le_Term (last (nd_log m)) \<or>
      rv_LastLogTerm a = le_Term (last (nd_log m)) \<and> rv_LastLogIndex a \<ge> length (nd_log m) - 1"
  shows "rvr_VoteGranted (fst (HandleRequestVote now a m)) \<and> rvr_Term (fst (HandleRequestVote now a m)) = rv_Term a"
  using assms by (auto simp: HandleRequestVote_def Let_def lastLogIndexAndTerm_def)

section \<open>Properties: in-process transports\<close>


definition demo_peer :: "bytes \<Rightarrow> Node" where
  "demo_peer i = (demo_node [])\<lparr>nd_id := i\<rparr>"


text \<open>
  In the simulated transport a partitioned link carries nothing and a healed one everything.
  Given that \<^verbatim>\<open>Float64\<close> lies in [0, 1), every call over a partitioned link fails, leaves all nodes as
  they are and is recorded as dropped; no call over a healed link is dropped; a partition of one
  link changes the drop rate of no other.
\<close>

theorem sim_partition_isolates:
  assumes "\<And>s k. 0 \<le> float64s s k \<and> float64s s k < 1"
  shows "(case Sim_RequestVote float64s now q (a\<lparr>rv_CandidateId := p\<rparr>) (Sim_Partition p q t) of (x, t') \<Rightarrow>
            x = Inl ErrDropped \<and> sim_nodes t' = sim_nodes t \<and>
            Sim_History t' = Sim_History t @ [\<lparr>se_From = p, se_To = q, se_Type = str ''RequestVote'', se_Dropped = True\<rparr>]) \<and>
    (case Sim_AppendEntries float64s now q (b\<lparr>ae_LeaderId := p\<rparr>) (Sim_Partition p q t) of (x, t') \<Rightarrow>
            x = Inl ErrDropped \<and> sim_nodes t' = sim_nodes t \<and>
            Sim_History t' = Sim_History t @ [\<lparr>se_From = p, se_To = q, se_Type = str ''AppendEntries'', se_Dropped = True\<rparr>]) \<and>
    \<not> fst (Sim_shouldDrop float64s p q (Sim_Heal p q t)) \<and>
    ((p', q') \<noteq> (p, q) \<longrightarrow>
      fst (Sim_shouldDrop float64s p' q' (Sim_Partition p q t)) = fst (Sim_shouldDrop float64s p' q' t))"
  using assms
  by (auto simp: Sim_RequestVote_def Sim_AppendEntries_def Sim_shouldDrop_def Sim_Partition_def Sim_Heal_def Sim_SetDropRate_def
      Sim_record_def Sim_History_def Let_def not_less split: option.splits)

theorem sim_partition_isolates_witness:
  "fst (Sim_RequestVote (\<lambda>s k. 1 / 2) 0 (str ''b'') (demo_request\<lparr>rv_CandidateId := str ''a''\<rparr>)
      (Sim_Partition (str ''a'') (str ''b'') (NewSimTransport 42))) = Inl ErrDropped"
  using sim_partition_isolates [where float64s = "\<lambda>s k. 1 / 2" and now = 0 and q = "str ''b''" and a = demo_request
      and p = "str ''a''" and t = "NewSimTransport 42"]
  by (auto simp: case_prod_beta)

section \<open>Lemmas: the wire\<close>

definition envelope_bytes :: "rpcEnvelope \<Rightarrow> bytes" where
  "envelope_bytes env = env_Type env # PutUint32 (word_of_nat (length (env_Payload env))) @ env_Payload env"

lemma readEnvelope_bytes:
  assumes "length (env_Payload env) \<le> 33554432"
  shows "readEnvelope (envelope_bytes env @ rest) = Inr env"
proof -
  let ?hdr = "env_Type env # PutUint32 (word_of_nat (length (env_Payload env)))"
  have l: "unat (word_of_nat (length (env_Payload env)) :: u32) = length (env_Payload env)"
    using assms by (simp add: unat_of_nat)
  then have "\<not> maxPayload < word_of_nat (length (env_Payload env))"
    using assms by (simp add: maxPayload_def word_less_nat_alt)
  moreover have "ReadFull 5 (envelope_bytes env @ rest) = (Inr ?hdr, env_Payload env @ rest)"
    using ReadFull_append [of ?hdr 5 "env_Payload env @ rest"] by (simp add: envelope_bytes_def)
  ultimately show ?thesis using l by (simp add: readEnvelope_def Let_def)
qed

lemma readEnvelope_too_large:
  assumes "33554432 < length (env_Payload env)" "length (env_Payload env) < 2 ^ 32"
  shows "readEnvelope (take k (envelope_bytes env) @ rest) \<noteq> Inr e \<or> k < 5"
proof -
  let ?hdr = "env_Type env # PutUint32 (word_of_nat (length (env_Payload env)))"
  have "unat (word_of_nat (length (env_Payload env)) :: u32) = length (env_Payload env)"
    using assms by (simp add: unat_of_nat)
  then have m: "maxPayload < word_of_nat (length (env_Payload env))"
    using assms by (simp add: maxPayload_def word_less_nat_alt)
  show ?thesis
  proof (cases "k < 5")
    case False
    then have "take k (envelope_bytes env) @ rest = ?hdr @ take (k - 5) (env_Payload env) @ rest"
      by (cases k) (simp_all add: envelope_bytes_def take_Cons')
    then have "ReadFull 5 (take k (envelope_bytes env) @ rest) = (Inr ?hdr, take (k - 5) (env_Payload env) @ rest)"
      using ReadFull_append [of ?hdr 5] by simp
    then show ?thesis using m by (simp add: readEnvelope_def Let_def)
  qed simp
qed

lemma writeEnvelope_healthy:
  assumes "faults conn = []" "content conn = []"
  obtains bw bw' where "writeEnvelope env (NewWriter conn) = (True, bw)" "bufio_Flush bw = (True, bw')"
    "content (dst bw') = envelope_bytes env"
proof -
  let ?hdr = "env_Type env # PutUint32 (word_of_nat (length (env_Payload env)))"
  obtain o1 w1 where 1: "bufio_Write ?hdr (NewWriter conn) = (o1, w1)" by (metis prod.exhaust)
  have s1: "o1" "\<not> werr w1" "logical w1 = ?hdr" "faults (dst w1) = []"
    using bufio_Write_spec [OF 1] assms by simp_all
  obtain o2 w2 where 2: "bufio_Write (env_Payload env) w1 = (o2, w2)" by (metis prod.exhaust)
  have s2: "o2" "\<not> werr w2" "logical w2 = envelope_bytes env" "faults (dst w2) = []"
    using bufio_Write_spec [OF 2] s1 by (simp_all add: envelope_bytes_def)
  obtain o3 w3 where 3: "bufio_Flush w2 = (o3, w3)" by (metis prod.exhaust)
  have s3: "o3" "content (dst w3) = logical w2" using bufio_Flush_cases(4,7) [OF 3] s2 by simp_all
  show thesis using that [of w2 w3] 1 2 3 s1(1) s2(1,3) s3 by (simp add: writeEnvelope_def)
qed

lemma wire_names:
  "valid_utf8 (str ''CandidateId'')" "valid_utf8 (str ''LastLogIndex'')" "valid_utf8 (str ''LastLogTerm'')"
  "valid_utf8 (str ''VoteGranted'')" "valid_utf8 (str ''LeaderId'')" "valid_utf8 (str ''PrevLogIndex'')"
  "valid_utf8 (str ''PrevLogTerm'')" "valid_utf8 (str ''Entries'')" "valid_utf8 (str ''LeaderCommit'')"
  "valid_utf8 (str ''Success'')" "valid_utf8 (str ''ConflictIndex'')" "valid_utf8 (str ''ConflictTerm'')"
  by (rule valid_utf8_ascii; simp add: str_def)+

lemmas wire_fields = field_is_def fold_name_def fold_rune_def str_def

definition vote_args_ok :: "RequestVoteArgs \<Rightarrow> bool" where
  "vote_args_ok a \<longleftrightarrow> rv_Term a < 2 ^ 64 \<and> valid_utf8 (rv_CandidateId a) \<and> rv_LastLogIndex a < 2 ^ 64 \<and> rv_LastLogTerm a < 2 ^ 64"

definition append_args_ok :: "AppendEntriesArgs \<Rightarrow> bool" where
  "append_args_ok a \<longleftrightarrow> ae_Term a < 2 ^ 64 \<and> valid_utf8 (ae_LeaderId a) \<and> ae_PrevLogIndex a < 2 ^ 64 \<and>
     ae_PrevLogTerm a < 2 ^ 64 \<and> ae_LeaderCommit a < 2 ^ 64 \<and> (\<forall>e \<in> set (ae_Entries a). le_Term e < 2 ^ 64)"

lemma vote_args_wire:
  assumes "vote_args_ok a"
  shows "Option.bind (json_parse (Marshal (enc_RequestVoteArgs a))) dec_RequestVoteArgs = Some a"
proof -
  have "json_ok (enc_RequestVoteArgs a)"
    using assms by (simp add: enc_RequestVoteArgs_def vote_args_ok_def ascii_literals wire_names json_ok_uint)
  moreover have "dec_RequestVoteArgs (enc_RequestVoteArgs a) = Some a"
    using assms
    by (simp add: dec_RequestVoteArgs_def enc_RequestVoteArgs_def dec_struct_def wire_fields dec_uint_enc dec_string_def vote_args_ok_def)
  ultimately show ?thesis by (simp only: json_parse_Marshal bind.simps)
qed

lemma vote_reply_wire:
  assumes "rvr_Term r < 2 ^ 64"
  shows "Option.bind (json_parse (Marshal (enc_RequestVoteReply r))) dec_RequestVoteReply = Some r"
proof -
  have "json_ok (enc_RequestVoteReply r)"
    by (simp add: enc_RequestVoteReply_def ascii_literals wire_names json_ok_uint)
  moreover have "dec_RequestVoteReply (enc_RequestVoteReply r) = Some r"
    using assms
    by (simp add: dec_RequestVoteReply_def enc_RequestVoteReply_def dec_struct_def wire_fields dec_uint_enc dec_bool_def)
  ultimately show ?thesis by (simp only: json_parse_Marshal bind.simps)
qed

lemma append_args_wire:
  assumes "append_args_ok a"
  shows "Option.bind (json_parse (Marshal (enc_AppendEntriesArgs a))) dec_AppendEntriesArgs = Some a"
proof -
  have "json_ok (enc_AppendEntriesArgs a)"
    using assms by (simp add: enc_AppendEntriesArgs_def append_args_ok_def ascii_literals wire_names json_ok_uint
        list_all_iff json_ok_LogEntry)
  moreover have e: "dec_slice dec_LogEntry (if ae_Entries a = [] then JNull else JArr (map enc_LogEntry (ae_Entries a))) = Some (ae_Entries a)"
    using all_some_map [of "ae_Entries a" "dec_LogEntry \<circ> enc_LogEntry" "\<lambda>e. e"] assms
    by (simp add: dec_slice_def append_args_ok_def dec_LogEntry_enc)
  moreover have "dec_AppendEntriesArgs (enc_AppendEntriesArgs a) = Some a"
    unfolding dec_AppendEntriesArgs_def enc_AppendEntriesArgs_def
    using assms
    by (simp add: dec_struct_def wire_fields dec_uint_enc dec_string_def append_args_ok_def e)
  ultimately show ?thesis by (simp only: json_parse_Marshal bind.simps)
qed

lemma append_reply_wire:
  assumes "aer_Term r < 2 ^ 64" "aer_ConflictIndex r < 2 ^ 64" "aer_ConflictTerm r < 2 ^ 64"
  shows "Option.bind (json_parse (Marshal (enc_AppendEntriesReply r))) dec_AppendEntriesReply = Some r"
proof -
  have "json_ok (enc_AppendEntriesReply r)"
    by (simp add: enc_AppendEntriesReply_def ascii_literals wire_names json_ok_uint)
  moreover have "dec_AppendEntriesReply (enc_AppendEntriesReply r) = Some r"
    using assms
    by (simp add: dec_AppendEntriesReply_def enc_AppendEntriesReply_def dec_struct_def wire_fields dec_uint_enc dec_bool_def)
  ultimately show ?thesis by (simp only: json_parse_Marshal bind.simps)
qed

section \<open>Lemmas: sizes on the wire\<close>

lemma length_fmt_d64: "n < 2 ^ 64 \<Longrightarrow> length (fmt_d n) \<le> 20"
  by (rule length_fmt_d) auto

lemma length_json_quote: "length (json_quote s) \<le> 6 * length s + 2"
proof -
  have e: "length (json_escape (r, raw)) \<le> 6 * length raw" if "raw \<noteq> []" for r raw
    using that by (cases raw) (auto simp: json_escape_def esc_def hex_4)
  have "length (concat (map json_escape (runes s))) \<le> 6 * length s"
  proof (induction s rule: runes.induct)
    case (1 s)
    show ?case
    proof (cases "s = []")
      case False
      obtain r n where d: "DecodeRune s = (r, n)" by (metis prod.exhaust)
      then have n: "1 \<le> n" "n \<le> length s" using DecodeRune_width [OF False] by simp_all
      then have "length (json_escape (r, take n s)) \<le> 6 * n" using e [of "take n s" r] False by simp
      then show ?thesis using "1.IH" [OF False d [symmetric]] n False d by (simp add: runes.simps [of s])
    qed (simp add: runes.simps [of s])
  qed
  then show ?thesis by (simp add: json_quote_unfold)
qed

lemma length_join: "length (join xs) \<le> sum_list (map length xs) + length xs"
  by (induction xs rule: join.induct) simp_all

lemma length_Marshal_obj:
  "length (Marshal (JObj ms)) \<le> 2 + (\<Sum>(k, v) \<leftarrow> ms. 6 * length k + length (Marshal v) + 4)"
proof -
  have "sum_list (map length (map (\<lambda>(k, v). json_quote k @ 58 # Marshal v) ms)) + length ms \<le>
      (\<Sum>(k, v) \<leftarrow> ms. 6 * length k + length (Marshal v) + 4)"
  proof (induction ms)
    case (Cons m ms)
    obtain k v where "m = (k, v)" by (metis prod.exhaust)
    then show ?case using Cons length_json_quote [of k] by simp
  qed simp
  then show ?thesis using length_join [of "map (\<lambda>(k, v). json_quote k @ 58 # Marshal v) ms"] by simp
qed

lemma vote_reply_size: "rvr_Term r < 2 ^ 64 \<Longrightarrow> length (Marshal (enc_RequestVoteReply r)) \<le> 33554432"
  using length_Marshal_obj [of "[(str ''Term'', enc_uint (rvr_Term r)), (str ''VoteGranted'', JBool (rvr_VoteGranted r))]"]
    length_fmt_d64 [of "rvr_Term r"]
  by (simp add: enc_RequestVoteReply_def enc_uint_def split: if_splits)

lemma append_reply_size:
  "aer_Term r < 2 ^ 64 \<Longrightarrow> aer_ConflictIndex r < 2 ^ 64 \<Longrightarrow> aer_ConflictTerm r < 2 ^ 64 \<Longrightarrow>
     length (Marshal (enc_AppendEntriesReply r)) \<le> 33554432"
  using length_Marshal_obj [of "[(str ''Term'', enc_uint (aer_Term r)), (str ''Success'', JBool (aer_Success r)),
           (str ''ConflictIndex'', enc_uint (aer_ConflictIndex r)), (str ''ConflictTerm'', enc_uint (aer_ConflictTerm r))]"]
    length_fmt_d64 [of "aer_Term r"] length_fmt_d64 [of "aer_ConflictIndex r"] length_fmt_d64 [of "aer_ConflictTerm r"]
  by (simp add: enc_AppendEntriesReply_def enc_uint_def split: if_splits)

text \<open>A call whose request and reply fit into envelopes, over a connection without failures.\<close>

definition healthy_conn :: "osfile \<Rightarrow> bool" where
  "healthy_conn f \<longleftrightarrow> faults f = [] \<and> content f = []"

lemma TCP_call_healthy:
  assumes "healthy_conn conn" "remote (envelope_bytes \<lparr>env_Type = typ, env_Payload = data\<rparr>) s = (envelope_bytes env, s')"
    and "length (env_Payload env) \<le> 33554432" "Option.bind (json_parse (env_Payload env)) dec = Some reply"
  shows "TCP_call dec typ data conn remote s = (Inr reply, s')"
proof -
  obtain bw bw' where "writeEnvelope \<lparr>env_Type = typ, env_Payload = data\<rparr> (NewWriter conn) = (True, bw)"
    "bufio_Flush bw = (True, bw')" "content (dst bw') = envelope_bytes \<lparr>env_Type = typ, env_Payload = data\<rparr>"
    using writeEnvelope_healthy assms(1) unfolding healthy_conn_def by metis
  then show ?thesis using assms(2-4) readEnvelope_bytes [of env "[]"] by (simp add: TCP_call_def)
qed

lemma answer_healthy:
  assumes "healthy_conn ret"
  shows "content (dst (snd (bufio_Flush (snd (writeEnvelope env (NewWriter ret)))))) = envelope_bytes env"
  using writeEnvelope_healthy [of ret env] assms unfolding healthy_conn_def by (metis snd_conv)

lemma TCP_handleConn_vote:
  assumes "healthy_conn ret" "tcp_node t = Some n" "vote_args_ok a" "length (Marshal (enc_RequestVoteArgs a)) \<le> 33554432"
  shows "TCP_handleConn now ret (envelope_bytes \<lparr>env_Type = rpcRequestVote, env_Payload = Marshal (enc_RequestVoteArgs a)\<rparr>) t =
     (envelope_bytes \<lparr>env_Type = rpcRequestVote, env_Payload = Marshal (enc_RequestVoteReply (fst (HandleRequestVote now a n)))\<rparr>,
      t\<lparr>tcp_node := Some (snd (HandleRequestVote now a n))\<rparr>)"
  using assms(2,4) readEnvelope_bytes [of "\<lparr>env_Type = rpcRequestVote, env_Payload = Marshal (enc_RequestVoteArgs a)\<rparr>" "[]"]
    vote_args_wire [OF assms(3)] answer_healthy [OF assms(1)]
  by (simp add: TCP_handleConn_def Let_def case_prod_beta)

lemma TCP_handleConn_append:
  assumes "healthy_conn ret" "tcp_node t = Some n" "append_args_ok a" "length (Marshal (enc_AppendEntriesArgs a)) \<le> 33554432"
  shows "TCP_handleConn now ret (envelope_bytes \<lparr>env_Type = rpcAppendEntries, env_Payload = Marshal (enc_AppendEntriesArgs a)\<rparr>) t =
     (envelope_bytes \<lparr>env_Type = rpcAppendEntries, env_Payload = Marshal (enc_AppendEntriesReply (fst (HandleAppendEntries now a n)))\<rparr>,
      t\<lparr>tcp_node := Some (snd (HandleAppendEntries now a n))\<rparr>)"
  using assms(2,4) readEnvelope_bytes [of "\<lparr>env_Type = rpcAppendEntries, env_Payload = Marshal (enc_AppendEntriesArgs a)\<rparr>" "[]"]
    append_args_wire [OF assms(3)] answer_healthy [OF assms(1)]
  by (simp add: TCP_handleConn_def Let_def case_prod_beta rpcAppendEntries_def rpcRequestVote_def)

lemma HandleRequestVote_reply_term:
  "rvr_Term (fst (HandleRequestVote now a n)) = max (nd_currentTerm n) (rv_Term a)"
  by (auto simp: HandleRequestVote_def Let_def lastLogIndexAndTerm_def max_def)

lemma HandleAppendEntries_reply_bounds:
  assumes "node_wf n" "ae_Term a < 2 ^ 64" "length (nd_log n) < 2 ^ 64"
  shows "aer_Term (fst (HandleAppendEntries now a n)) < 2 ^ 64" "aer_ConflictIndex (fst (HandleAppendEntries now a n)) < 2 ^ 64"
    "aer_ConflictTerm (fst (HandleAppendEntries now a n)) < 2 ^ 64"
proof -
  let ?p = "ae_PrevLogIndex a"
  have "?p < length (nd_log n) \<Longrightarrow> le_Term (nd_log n ! ?p) < 2 ^ 64" using assms(1) by (simp add: node_wf_iff)
  moreover have "?p < length (nd_log n) \<Longrightarrow> conflict_index (nd_log n) c ?p < 2 ^ 64" for c
    using conflict_index_bounds(1) [of "nd_log n" c ?p] assms(3) by simp
  ultimately show "aer_Term (fst (HandleAppendEntries now a n)) < 2 ^ 64" "aer_ConflictIndex (fst (HandleAppendEntries now a n)) < 2 ^ 64"
    "aer_ConflictTerm (fst (HandleAppendEntries now a n)) < 2 ^ 64"
    using assms by (simp_all add: HandleAppendEntries_def Let_def node_wf_iff)
qed

lemma TCP_handleConn_refuses:
  assumes "\<And>e. readEnvelope r \<noteq> Inr e"
  shows "TCP_handleConn now ret r t = (content ret, t)"
  using assms by (cases "readEnvelope r") (auto simp: TCP_handleConn_def Let_def)

lemma readEnvelope_prefix_too_large:
  assumes "33554432 < length (env_Payload env)" "length (env_Payload env) < 2 ^ 32" "prefix bs (envelope_bytes env)"
  shows "readEnvelope bs \<noteq> Inr e"
proof (cases "length bs < 5")
  case True
  then show ?thesis by (simp add: readEnvelope_def ReadFull_short)
next
  case False
  then show ?thesis using readEnvelope_too_large [OF assms(1,2), of "length bs" "[]" e] prefix_take [OF assms(3)] by auto
qed

lemma writeEnvelope_prefix:
  assumes "content conn = []" "writeEnvelope env (NewWriter conn) = (ok, bw)"
  shows "prefix (content (dst bw)) (envelope_bytes env) \<and> (ok \<longrightarrow> logical bw = envelope_bytes env)"
proof -
  let ?hdr = "env_Type env # PutUint32 (word_of_nat (length (env_Payload env)))"
  obtain o1 w1 where 1: "bufio_Write ?hdr (NewWriter conn) = (o1, w1)" by (metis prod.exhaust)
  note s1 = bufio_Write_spec [OF 1]
  show ?thesis
  proof (cases o1)
    case False
    then have "bw = w1" "\<not> ok" using assms(2) 1 by (simp_all add: writeEnvelope_def)
    moreover have "prefix ?hdr (envelope_bytes env)" by (simp add: envelope_bytes_def)
    ultimately show ?thesis using s1 False assms(1) by (auto intro: prefix_order.trans)
  next
    case True
    then have 2: "bufio_Write (env_Payload env) w1 = (ok, bw)" using assms(2) 1 by (simp add: writeEnvelope_def)
    have l: "logical w1 @ env_Payload env = envelope_bytes env" using s1 True assms(1) by (simp add: envelope_bytes_def)
    show ?thesis
    proof (cases ok)
      case True
      then have "logical bw = envelope_bytes env" using bufio_Write_spec [OF 2] l by simp
      then show ?thesis unfolding logical_def by (metis prefixI)
    next
      case False
      then show ?thesis using bufio_Write_spec [OF 2] l by simp
    qed
  qed
qed

section \<open>Properties: TCP\<close>


definition demo_conn :: osfile where
  "demo_conn = \<lparr>content = [], synced = 0, faults = []\<rparr>"

definition demo_append :: "LogEntry list \<Rightarrow> AppendEntriesArgs" where
  "demo_append es = \<lparr>ae_Term = 1, ae_LeaderId = str ''a'', ae_PrevLogIndex = 0, ae_PrevLogTerm = 0, ae_Entries = es, ae_LeaderCommit = 0\<rparr>"

definition demo_addrs :: "bytes \<rightharpoonup> bytes" where
  "demo_addrs = [str ''b'' \<mapsto> str '':7001'']"

lemma demo_sizes:
  "length (Marshal (enc_RequestVoteArgs demo_request)) \<le> 33554432"
  "length (Marshal (enc_AppendEntriesArgs (demo_append []))) \<le> 33554432"
  using length_Marshal_obj [of "[(str ''Term'', enc_uint 0), (str ''CandidateId'', JStr (str ''b'')),
           (str ''LastLogIndex'', enc_uint 0), (str ''LastLogTerm'', enc_uint 0)]"]
    length_Marshal_obj [of "[(str ''Term'', enc_uint 1), (str ''LeaderId'', JStr (str ''a'')),
           (str ''PrevLogIndex'', enc_uint 0), (str ''PrevLogTerm'', enc_uint 0), (str ''Entries'', JNull), (str ''LeaderCommit'', enc_uint 0)]"]
    length_fmt_d64 [of 0] length_fmt_d64 [of 1] length_json_quote [of "str ''a''"] length_json_quote [of "str ''b''"]
  by (simp_all add: enc_RequestVoteArgs_def demo_request_def enc_AppendEntriesArgs_def demo_append_def enc_uint_def)


text \<open>
  A request above the 32 MiB limit of \<^verbatim>\<open>readEnvelope\<close> never arrives. Whatever the connection does,
  the caller gets an error and the peer's node does not move. The leader sends everything from the
  follower's next index on in one request, so a follower that lags behind by more than this is
  never brought up to date.
\<close>

theorem oversized_append_never_arrives:
  assumes "33554432 < length (Marshal (enc_AppendEntriesArgs a))" "length (Marshal (enc_AppendEntriesArgs a)) < 2 ^ 32"
    and "content conn = []" "content ret = []"
  shows "\<exists>e. TCP_AppendEntries up conn (TCP_handleConn now ret) peer a t rt = (Inl e, rt)"
proof (cases "TCP_dial up peer t")
  case (Inl e)
  then show ?thesis by (simp add: TCP_AppendEntries_def)
next
  case (Inr addr)
  let ?env = "\<lparr>env_Type = rpcAppendEntries, env_Payload = Marshal (enc_AppendEntriesArgs a)\<rparr>"
  obtain ok bw where w: "writeEnvelope ?env (NewWriter conn) = (ok, bw)" by (metis prod.exhaust)
  obtain fl bw' where f: "bufio_Flush bw = (fl, bw')" by (metis prod.exhaust)
  have rf: "TCP_handleConn now ret bs rt = ([], rt)" if "prefix bs (envelope_bytes ?env)" for bs
    using readEnvelope_prefix_too_large [of ?env bs] assms(1,2,4) that by (simp add: TCP_handleConn_refuses)
  have p: "prefix (content (dst bw)) (envelope_bytes ?env)" using writeEnvelope_prefix [OF assms(3) w] by simp
  have p': "prefix (content (dst bw')) (envelope_bytes ?env)" if ok
    using bufio_Flush_cases(2) [OF f] writeEnvelope_prefix [OF assms(3) w] that
    unfolding logical_def by (metis prefixI)
  have "readEnvelope [] = Inl (ErrEnvelopeRead EOF)" by (simp add: readEnvelope_def ReadFull_def)
  then show ?thesis
    using Inr w f rf [OF p] rf [OF p']
    by (cases ok; cases fl) (simp_all add: TCP_AppendEntries_def TCP_call_def)
qed

text \<open>A request with one command of 30 MB, which base64 makes 40 MB.\<close>

lemma b64_encode_zeros: "b64_encode (replicate (3 * m) 0) = replicate (4 * m) 65"
proof (induction m)
  case (Suc m)
  have "replicate (3 * Suc m) 0 = 0 # 0 # 0 # replicate (3 * m) (0 :: byte)"
    "replicate (4 * Suc m) 65 = [65, 65, 65, 65] @ replicate (4 * m) (65 :: byte)" by (simp_all add: numeral_eq_Suc)
  then show ?case using Suc by (simp only: b64_encode.simps) (simp add: b64_char_def)
qed simp

lemma json_quote_zeros: "json_quote (replicate n 65) = 34 # replicate n 65 @ [34]"
proof -
  have "concat (map json_escape (runes (replicate n 65))) = replicate n 65"
  proof (induction n)
    case (Suc n)
    have "DecodeRune (65 # replicate n 65) = (65, 1)" by (simp add: DecodeRune_def)
    then have "runes (replicate (Suc n) 65) = (65, [65]) # runes (replicate n 65)" by (simp add: runes.simps [of "65 # _"])
    then show ?case using Suc by (simp add: json_escape_def RuneError_def)
  qed (simp add: runes.simps [of "[]"])
  then show ?thesis by (simp add: json_quote_unfold)
qed

lemma length_join_member: "x \<in> set xs \<Longrightarrow> length x \<le> length (join xs)"
  by (induction xs rule: join.induct) auto

lemma length_Marshal_member: "(k, v) \<in> set ms \<Longrightarrow> length (Marshal v) \<le> length (Marshal (JObj ms))"
  using length_join_member [of "json_quote k @ 58 # Marshal v" "map (\<lambda>(k, v). json_quote k @ 58 # Marshal v) ms"]
  by (force simp: image_iff)

definition big_entry :: "nat \<Rightarrow> LogEntry" where
  "big_entry m = \<lparr>le_Term = 1, le_Command = Some (replicate (3 * m) 0)\<rparr>"

lemma big_append_size:
  "4 * m \<le> length (Marshal (enc_AppendEntriesArgs (demo_append [big_entry m])))"
  "length (Marshal (enc_AppendEntriesArgs (demo_append [big_entry m]))) \<le> 4 * m + 1000"
proof -
  let ?c = "enc_bytes (le_Command (big_entry m))"
  let ?es = "[(str ''Term'', enc_uint 1), (str ''Command'', ?c)]"
  let ?ms = "[(str ''Term'', enc_uint 1), (str ''LeaderId'', JStr (str ''a'')), (str ''PrevLogIndex'', enc_uint 0),
     (str ''PrevLogTerm'', enc_uint 0), (str ''Entries'', JArr [JObj ?es]), (str ''LeaderCommit'', enc_uint 0)]"
  have a: "enc_AppendEntriesArgs (demo_append [big_entry m]) = JObj ?ms"
    by (simp add: enc_AppendEntriesArgs_def demo_append_def enc_LogEntry_def big_entry_def)
  have c: "length (Marshal ?c) = 4 * m + 2" by (simp add: enc_bytes_def big_entry_def b64_encode_zeros json_quote_zeros)
  have e: "length (Marshal (JArr [JObj ?es])) = length (Marshal (JObj ?es)) + 2" by simp
  have "length (Marshal ?c) \<le> length (Marshal (JObj ?es))" by (rule length_Marshal_member [of "str ''Command''"]) simp
  also have "\<dots> \<le> length (Marshal (JArr [JObj ?es]))" using e by simp
  also have "\<dots> \<le> length (Marshal (JObj ?ms))" by (rule length_Marshal_member [of "str ''Entries''"]) simp
  finally show "4 * m \<le> length (Marshal (enc_AppendEntriesArgs (demo_append [big_entry m])))" using a c by simp
  have f: "length (Marshal (enc_uint 0)) \<le> 20" "length (Marshal (enc_uint 1)) \<le> 20"
    using length_fmt_d64 [of 0] length_fmt_d64 [of 1] by (simp_all add: enc_uint_def)
  have j: "length (Marshal (JObj ?es)) \<le> 2 + (6 * 4 + 20 + 4) + (6 * 7 + (4 * m + 2) + 4)"
    using length_Marshal_obj [of ?es] f(2) c by (simp del: Marshal.simps)
  show "length (Marshal (enc_AppendEntriesArgs (demo_append [big_entry m]))) \<le> 4 * m + 1000"
    unfolding a using length_Marshal_obj [of ?ms] f j e length_json_quote [of "str ''a''"] by (simp del: Marshal.simps(5,6))
qed

theorem oversized_append_never_arrives_witness:
  "\<exists>e. TCP_AppendEntries (\<lambda>_. True) demo_conn (TCP_handleConn 0 demo_conn) (str ''b'') (demo_append [big_entry 10000000])
      (NewTCPTransport demo_addrs) (TCP_Register (str ''b'') (demo_node []) (NewTCPTransport demo_addrs)) =
     (Inl e, TCP_Register (str ''b'') (demo_node []) (NewTCPTransport demo_addrs))"
  by (rule oversized_append_never_arrives) (use big_append_size [of 10000000] in \<open>simp_all add: demo_conn_def\<close>)

end
