(* ===== verification/Replication.thy ===== *)
theory Replication
  imports Store
begin

text \<open>
  \<^verbatim>\<open>internal/replication\<close>: a leader streams its log to followers, a follower applies the records it
  reads to a store of its own and keeps the offset it has reached in a file.

  A connection of the follower is a \<open>session\<close>: whether the dial succeeds, the file its offset is
  sent over, what the leader sends back for an offset before the connection ends, and whether the
  context is cancelled by then. Offsets are \<^verbatim>\<open>int64\<close>, kept as 64-bit words.
\<close>

section \<open>The leader\<close>

record Leader =
  ld_w :: WAL
  ld_ln :: "listener option"
  ld_done :: bool

definition NewLeader :: "WAL \<Rightarrow> Leader" where
  "NewLeader w = \<lparr>ld_w = w, ld_ln = None, ld_done = False\<rparr>"

definition Leader_Serve :: "listener \<Rightarrow> 'c option list \<Rightarrow> Leader \<Rightarrow> ('c list \<times> bool) \<times> Leader" where
  "Leader_Serve ln accepts l = (accept_loop accepts, l\<lparr>ld_ln := Some ln\<rparr>)"

text \<open>\<open>listen\<close>: what \<^verbatim>\<open>net.Listen\<close> returned.\<close>

definition Leader_ListenAndServe :: "listener option \<Rightarrow> 'c option list \<Rightarrow> Leader \<Rightarrow> ('c list \<times> bool) \<times> Leader" where
  "Leader_ListenAndServe listen accepts l =
     (case listen of None \<Rightarrow> (([], True), l) | Some ln \<Rightarrow> Leader_Serve ln accepts l)"

definition Leader_Addr :: "Leader \<Rightarrow> bytes option" where
  "Leader_Addr l = map_option ln_addr (ld_ln l)"

text \<open>Whether closing the listener succeeded; \<open>None\<close> is the panic of closing \<^verbatim>\<open>done\<close> twice.\<close>

definition Leader_Close :: "Leader \<Rightarrow> (bool \<times> Leader) option" where
  "Leader_Close l =
     (if ld_done l then None
      else Some (case ld_ln l of
        None \<Rightarrow> (True, l\<lparr>ld_done := True\<rparr>)
      | Some ln \<Rightarrow> (\<not> ln_closed ln, l\<lparr>ld_done := True, ld_ln := Some (ln\<lparr>ln_closed := True\<rparr>)\<rparr>)))"

text \<open>
  \<^verbatim>\<open>handleFollower\<close> up to the call of \<^verbatim>\<open>StreamFrom\<close>: the stream it starts, which then runs by
  \<open>stream_step\<close>; \<open>None\<close> if the offset does not arrive.
\<close>

definition Leader_handleFollower :: "bytes \<Rightarrow> osfile \<Rightarrow> stream option" where
  "Leader_handleFollower r conn =
     (case ReadFull 8 r of
        (Inl _, _) \<Rightarrow> None
      | (Inr bs, _) \<Rightarrow>
          (let fromOffset = sint (Uint64 bs);
               fromOffset = (if fromOffset < 0 then 0 else fromOffset)
           in Some (StreamFrom_start (nat fromOffset) (NewWriter conn))))"

section \<open>The follower\<close>

definition retryDelay :: int where
  "retryDelay = 100 * 1000000"

record Follower =
  fo_store :: Store
  fo_leaderAddr :: bytes
  fo_offsetPath :: bytes
  fo_fs :: fsys

definition NewFollower :: "Store \<Rightarrow> bytes \<Rightarrow> bytes \<Rightarrow> fsys \<Rightarrow> Follower" where
  "NewFollower s leaderAddr offsetPath fs =
     \<lparr>fo_store = s, fo_leaderAddr = leaderAddr, fo_offsetPath = offsetPath, fo_fs = fs\<rparr>"

datatype follow_error =
    FErrReadOffset | FErrDial | FErrSendOffset | FErrDecode wal_error | FErrApply wal_error | FErrPersistOffset

text \<open>\<open>None\<close> is an error.\<close>

definition readOffset :: "Follower \<Rightarrow> u64 option" where
  "readOffset f =
     (case os_Open (fo_offsetPath f) (fo_fs f) of
        NotExist \<Rightarrow> Some 0
      | OpenErr \<Rightarrow> None
      | Opened bs \<Rightarrow> (case ReadFull 8 bs of (Inl _, _) \<Rightarrow> None | (Inr b, _) \<Rightarrow> Some (Uint64 b)))"

definition writeOffset :: "u64 \<Rightarrow> Follower \<Rightarrow> bool \<times> Follower" where
  "writeOffset offset f =
     (case write_via_tmp (fo_offsetPath f) (PutUint64 offset) (fo_fs f) of
        (ok, fs) \<Rightarrow> (ok, f\<lparr>fo_fs := fs\<rparr>))"

text \<open>The \<^verbatim>\<open>switch\<close> on the type of a received record.\<close>

definition apply_record :: "Record \<Rightarrow> Store \<Rightarrow> wal_error option \<times> Store" where
  "apply_record r s =
     (if rec_Type r = RecordPut then Store_Put (rec_Key r) (rec_Value r) s
      else if rec_Type r = RecordDelete then Store_Delete (rec_Key r) s
      else (None, s))"

function follow_loop :: "bool \<Rightarrow> u64 \<Rightarrow> bytes \<Rightarrow> Follower \<Rightarrow> follow_error option \<times> Follower" where
  "follow_loop cancelled offset r f =
     (case ReadRecord r of
        (Inl e, _, _) \<Rightarrow> (if e = ErrRead EOF \<or> cancelled then None else Some (FErrDecode e), f)
      | (Inr rec, frameSize, r') \<Rightarrow>
          (case apply_record rec (fo_store f) of
             (Some e, s) \<Rightarrow> (Some (FErrApply e), f\<lparr>fo_store := s\<rparr>)
           | (None, s) \<Rightarrow>
               (let offset = offset + word_of_nat frameSize
                in case writeOffset offset (f\<lparr>fo_store := s\<rparr>) of
                     (False, f) \<Rightarrow> (Some FErrPersistOffset, f)
                   | (True, f) \<Rightarrow> follow_loop cancelled offset r' f)))"
  by pat_completeness auto
termination
  by (relation "measure (\<lambda>(c, off, r, f). length r)") (auto dest: ReadRecord_shrinks [OF sym])

declare follow_loop.simps [simp del]

record session =
  ss_dial :: bool
  ss_conn :: osfile
  ss_stream :: "u64 \<Rightarrow> bytes"
  ss_cancelled :: bool

definition runOnce :: "session \<Rightarrow> Follower \<Rightarrow> follow_error option \<times> Follower" where
  "runOnce ss f =
     (case readOffset f of
        None \<Rightarrow> (Some FErrReadOffset, f)
      | Some offset \<Rightarrow>
          (if \<not> ss_dial ss then (Some FErrDial, f)
           else case File_Write (PutUint64 offset) (ss_conn ss) of
             (_, ok, _) \<Rightarrow>
               (if \<not> ok then (Some FErrSendOffset, f)
                else follow_loop (ss_cancelled ss) offset (ss_stream ss offset) f)))"

text \<open>
  \<^verbatim>\<open>Run\<close> over the sessions that happen: it returns when the context is cancelled, otherwise it pauses
  for \<^verbatim>\<open>retryDelay\<close> exactly if the session ended with an error. The result lists the pauses.
\<close>

fun Follower_Run :: "session list \<Rightarrow> Follower \<Rightarrow> bool list \<times> Follower" where
  "Follower_Run [] f = ([], f)"
| "Follower_Run (ss # rest) f =
     (case runOnce ss f of
        (err, f) \<Rightarrow>
          (if ss_cancelled ss then ([], f)
           else case Follower_Run rest f of (ps, f) \<Rightarrow> ((err \<noteq> None) # ps, f)))"

section \<open>Lemmas: the follower's own log\<close>

lemma replay_take_Suc: "k < length L \<Longrightarrow> replay_all (take (Suc k) L) = replay_record (L ! k) (replay_all (take k L))"
  by (simp add: replay_all_def take_Suc_conv_app_nth)

lemma replay_record_idem: "replay_record r (replay_record r m) = replay_record r m"
  by (simp add: replay_record_def)

text \<open>
  The records a follower of \<open>L\<close> has asked its own log to write, by their indices in \<open>L\<close>: each in
  turn, and any of them several times when its sync or the write of the offset failed.
\<close>

definition steady :: "nat list \<Rightarrow> bool" where
  "steady js \<longleftrightarrow> (js \<noteq> [] \<longrightarrow> hd js = 0) \<and>
     (\<forall>n. Suc n < length js \<longrightarrow> js ! Suc n = js ! n \<or> js ! Suc n = Suc (js ! n))"

lemma steady_snoc:
  "steady (js @ [i]) \<longleftrightarrow> (if js = [] then i = 0 else steady js \<and> (i = last js \<or> i = Suc (last js)))"
proof (cases "js = []")
  case False
  have "(\<forall>n. Suc n < length (js @ [i]) \<longrightarrow> (js @ [i]) ! Suc n = (js @ [i]) ! n \<or> (js @ [i]) ! Suc n = Suc ((js @ [i]) ! n)) \<longleftrightarrow>
    (\<forall>n. Suc n < length js \<longrightarrow> js ! Suc n = js ! n \<or> js ! Suc n = Suc (js ! n)) \<and> (i = last js \<or> i = Suc (last js))"
    (is "?l \<longleftrightarrow> ?r")
  proof
    assume l: ?l
    have "i = last js \<or> i = Suc (last js)"
      using l [rule_format, of "length js - 1"] False by (simp add: nth_append last_conv_nth)
    moreover have "js ! Suc n = js ! n \<or> js ! Suc n = Suc (js ! n)" if "Suc n < length js" for n
      using l [rule_format, of n] that by (simp add: nth_append)
    ultimately show ?r by blast
  next
    assume r: ?r
    show ?l
    proof (intro allI impI)
      fix n assume n: "Suc n < length (js @ [i])"
      show "(js @ [i]) ! Suc n = (js @ [i]) ! n \<or> (js @ [i]) ! Suc n = Suc ((js @ [i]) ! n)"
      proof (cases "Suc n < length js")
        case True
        then show ?thesis using r by (simp add: nth_append)
      next
        case False
        then have "Suc n = length js" using n by simp
        then have "js ! n = last js" "n < length js" using \<open>js \<noteq> []\<close> by (auto simp: last_conv_nth simp flip: \<open>Suc n = length js\<close>)
        then show ?thesis using r \<open>Suc n = length js\<close> by (simp add: nth_append)
      qed
    qed
  qed
  then show ?thesis using False by (auto simp: steady_def)
qed (simp add: steady_def)

lemma steady_take: "steady js \<Longrightarrow> steady (take m js)"
  by (auto simp: steady_def)

lemma steady_mono: "steady js \<Longrightarrow> m \<le> n \<Longrightarrow> n < length js \<Longrightarrow> js ! m \<le> js ! n"
proof (induction n)
  case (Suc n)
  then show ?case by (cases "m = Suc n") (auto simp: steady_def)
qed simp

lemma replay_steady:
  "steady js \<Longrightarrow> js \<noteq> [] \<Longrightarrow> \<forall>i \<in> set js. i < length L \<Longrightarrow>
     replay_all (map ((!) L) js) = replay_all (take (Suc (last js)) L)"
proof (induction js rule: rev_induct)
  case (snoc i js)
  have step: "replay_all (map ((!) L) (js @ [i])) = replay_record (L ! i) (replay_all (map ((!) L) js))"
    by (simp add: replay_all_def)
  show ?case
  proof (cases "js = []")
    case True
    then have "i = 0" "0 < length L" using snoc.prems by (auto simp: steady_def)
    then show ?thesis using replay_take_Suc [of 0 L] True by (simp add: replay_all_def)
  next
    case False
    then have IH: "replay_all (map ((!) L) js) = replay_all (take (Suc (last js)) L)" and i: "i = last js \<or> i = Suc (last js)"
      using snoc by (auto simp: steady_snoc)
    have "last js < length L" "i < length L" using snoc.prems(3) False by auto
    then show ?thesis using i step IH replay_take_Suc [of "last js" L] replay_take_Suc [of i L] replay_record_idem by auto
  qed
qed simp

text \<open>
  The log of a follower whose offset stands after \<open>k\<close> records: of the records \<open>js\<close> it asked for,
  the first \<open>a\<close> are durable, and they include the first \<open>k\<close> of \<open>L\<close>.
\<close>

definition own_log :: "Record list \<Rightarrow> nat \<Rightarrow> nat list \<Rightarrow> nat \<Rightarrow> WAL \<Rightarrow> bool" where
  "own_log L k js a w \<longleftrightarrow>
     log_inv (map ((!) L) js) a w \<and> steady js \<and> (\<forall>i \<in> set js. i < length L) \<and>
     (js = [] \<longrightarrow> k = 0) \<and> (js \<noteq> [] \<longrightarrow> k \<le> Suc (last js) \<and> last js \<le> k) \<and>
     (0 < k \<longrightarrow> 0 < a \<and> k \<le> Suc (js ! (a - 1)))"

lemma own_log_crash:
  assumes "own_log L k js a w" "list_all rec_ok L"
  obtains j where "k \<le> j" "j \<le> Suc k" "j \<le> length L"
    "replay_all (Replay_loop (content (crash_file (wal_file w) n fl))) = replay_all (take j L)"
proof -
  have inv: "log_inv (map ((!) L) js) a w" and st: "steady js" "\<forall>i \<in> set js. i < length L"
    and k: "js = [] \<longrightarrow> k = 0" "js \<noteq> [] \<longrightarrow> k \<le> Suc (last js) \<and> last js \<le> k" "0 < k \<longrightarrow> 0 < a \<and> k \<le> Suc (js ! (a - 1))"
    using assms(1) by (simp_all add: own_log_def)
  have "list_all rec_ok (map ((!) L) js)" using assms(2) st(2) by (auto simp: list_all_iff)
  from log_inv_crash [OF inv this] obtain m where m: "a \<le> m" "m \<le> length js"
    "Replay_loop (content (crash_file (wal_file w) n fl)) = map ((!) L) (take m js)" by (auto simp: take_map)
  show thesis
  proof (cases "m = 0")
    case True
    then have "k = 0" using m(1) k(3) by auto
    then show thesis using that [of 0] m(3) True by (simp add: replay_all_def)
  next
    case False
    then have ne: "take m js \<noteq> []" using m(2) by auto
    then have t: "take m js \<noteq> []" "last (take m js) = js ! (m - 1)" "m - 1 < length js"
      using last_conv_nth [OF ne] m(2) False by auto
    let ?j = "Suc (js ! (m - 1))"
    have "replay_all (map ((!) L) (take m js)) = replay_all (take ?j L)"
      using replay_steady [OF steady_take [OF st(1)] t(1)] st(2) t(2) by (metis in_set_takeD)
    moreover have "k \<le> ?j"
    proof (cases "k = 0")
      case False
      then have "js ! (a - 1) \<le> js ! (m - 1)" using steady_mono [OF st(1)] m(1) t(3) by simp
      then show ?thesis using k(3) False by auto
    qed simp
    moreover have "js ! (m - 1) \<le> last js"
      using steady_mono [OF st(1), of "m - 1" "length js - 1"] t(3) by (cases "js = []") (auto simp: last_conv_nth)
    then have "?j \<le> Suc k" using k(2) t(3) by auto
    moreover have "?j \<le> length L" using st(2) t(3) by (simp add: Suc_le_eq)
    ultimately show thesis using that m(3) by simp
  qed
qed

section \<open>Lemmas: one session\<close>

text \<open>
  A follower of the log \<open>L\<close>: its offset file stands after the first \<open>k\<close> records, and its map holds
  the first \<open>j\<close>, at most one more; if \<open>d\<close>, its own log holds what it has acknowledged.
\<close>

definition follows :: "bool \<Rightarrow> Record list \<Rightarrow> nat \<Rightarrow> nat \<Rightarrow> Follower \<Rightarrow> bool" where
  "follows d L k j f \<longleftrightarrow>
     (d \<longrightarrow> (\<exists>xs. L = map op_record xs) \<and> (\<exists>js a. own_log L k js a (st_log (fo_store f)))) \<and>
     store_inv (fo_store f) \<and> st_data (fo_store f) = replay_all (take j L) \<and>
     k \<le> j \<and> j \<le> Suc k \<and> j \<le> length L \<and>
     readOffset f = Some (word_of_nat (length (encode_all (take k L))))"

definition working :: "Follower \<Rightarrow> bool" where
  "working f \<longleftrightarrow>
     \<not> werr (wal_w (st_log (fo_store f))) \<and> faults (st_file (fo_store f)) = [] \<and> fs_faults (fo_fs f) = []"

lemma apply_record_data:
  assumes "store_inv s" "apply_record r s = (e, s')"
  shows "store_inv s' \<and> st_data s' = (if e = None then replay_record r (st_data s) else st_data s)"
  using assms store.put_ok [of s "rec_Key r" "rec_Value r" s'] store.put_err [of s "rec_Key r" "rec_Value r" _ s']
    store.del_ok [of s "rec_Key r" s'] store.del_err [of s "rec_Key r" _ s']
  by (cases e) (auto simp: apply_record_def replay_record_def Store_kv_def split: if_splits)

lemma own_log_apply:
  assumes "own_log L k js a (st_log s)" "apply_record (L ! k) s = (e, s')" "k < length L" "L = map op_record xs"
  shows "own_log L k (js @ [k]) (if e = None then Suc (length js) else a) (st_log s')"
    "e = None \<Longrightarrow> own_log L (Suc k) (js @ [k]) (Suc (length js)) (st_log s')"
proof -
  have x: "L ! k = op_record (xs ! k)" using assms(3,4) by simp
  then have "kv_exec Store_kv (xs ! k) s = (e, s')"
    using assms(2) by (cases "xs ! k") (simp_all add: apply_record_def Store_kv_def RecordPut_def RecordDelete_def)
  then have l: "log_inv (map ((!) L) (js @ [k])) (if e = None then Suc (length js) else a) (st_log s')"
    using log_inv_exec assms(1) x by (fastforce simp: own_log_def)
  have "a \<le> length js" using assms(1) by (simp add: own_log_def log_inv_def)
  then have "0 < k \<longrightarrow> 0 < a \<and> k \<le> Suc ((js @ [k]) ! (a - 1))" using assms(1) by (auto simp: own_log_def nth_append)
  moreover have "steady (js @ [k])" using assms(1) by (auto simp: own_log_def steady_snoc)
  ultimately show "own_log L k (js @ [k]) (if e = None then Suc (length js) else a) (st_log s')"
    "e = None \<Longrightarrow> own_log L (Suc k) (js @ [k]) (Suc (length js)) (st_log s')"
    using l assms(1,3) by (auto simp: own_log_def)
qed

lemma apply_record_working:
  assumes "\<not> werr (wal_w (st_log s))" "faults (st_file s) = []" "apply_record r s = (e, s')"
  shows "e = None \<and> \<not> werr (wal_w (st_log s')) \<and> faults (st_file s') = []"
  using assms Store_exec_no_faults [OF assms(1,2), of "KPut (rec_Key r) (rec_Value r)" e s']
    Store_exec_no_faults [OF assms(1,2), of "KDel (rec_Key r)" e s']
  by (auto simp: apply_record_def Store_kv_def split: if_splits)

lemma readOffset_cong:
  "fo_offsetPath f' = fo_offsetPath f \<Longrightarrow> fo_fs f' = fo_fs f \<Longrightarrow> readOffset f' = readOffset f"
  by (simp add: readOffset_def)

lemma writeOffset_spec:
  assumes "writeOffset offset f = (ok, f')"
  shows "fo_store f' = fo_store f" "fo_offsetPath f' = fo_offsetPath f"
    "readOffset f \<noteq> None \<Longrightarrow> readOffset f' = (if ok then Some offset else readOffset f)"
    "fs_faults (fo_fs f) = [] \<Longrightarrow> ok \<and> fs_faults (fo_fs f') = []"
proof -
  obtain ok' fs where w: "write_via_tmp (fo_offsetPath f) (PutUint64 offset) (fo_fs f) = (ok', fs)" by (metis prod.exhaust)
  have e: "ok' = ok" "f' = f\<lparr>fo_fs := fs\<rparr>" using assms w by (simp_all add: writeOffset_def)
  note sp = write_via_tmp_spec [OF w]
  show "fo_store f' = fo_store f" "fo_offsetPath f' = fo_offsetPath f" by (simp_all add: e)
  show "fs_faults (fo_fs f) = [] \<Longrightarrow> ok \<and> fs_faults (fo_fs f') = []" using sp(4) e by simp
  show "readOffset f' = (if ok then Some offset else readOffset f)" if "readOffset f \<noteq> None"
    using that sp(1,3) e ReadFull_append [of "PutUint64 offset" 8 "[]"]
    by (auto simp: readOffset_def os_Open_def split: if_splits option.splits)
qed

text \<open>Applying the next record again, or for the first time.\<close>

lemma replay_next:
  assumes "k \<le> j" "j \<le> Suc k" "j \<le> length L" "k < length L"
  shows "replay_record (L ! k) (replay_all (take j L)) = replay_all (take (Suc k) L)"
proof -
  have "j = k \<or> j = Suc k" using assms by linarith
  then show ?thesis using replay_take_Suc [OF assms(4)] replay_record_idem by auto
qed

lemma encode_all_drop: "k < length L \<Longrightarrow> encode_all (drop k L) = encode (L ! k) @ encode_all (drop (Suc k) L)"
  by (metis Cons_nth_drop_Suc encode_all_simps(2))

lemma encode_all_take_Suc: "k < length L \<Longrightarrow> length (encode_all (take (Suc k) L)) = length (encode_all (take k L)) + length (encode (L ! k))"
  by (simp add: take_Suc_conv_app_nth)

lemma follow_loop_spec:
  assumes "list_all rec_ok L" "follows d L k j f" "offset = word_of_nat (length (encode_all (take k L)))"
    and "prefix r (encode_all (drop k L))" "follow_loop c offset r f = (e, f')"
  shows "\<exists>k' j'. k \<le> k' \<and> j \<le> j' \<and> follows d L k' j' f' \<and>
    (working f \<and> r = encode_all (drop k L) \<longrightarrow> e = None \<and> working f' \<and> k' = length L)"
  using assms(2-)
proof (induction "length r" arbitrary: r k j f offset rule: less_induct)
  case less
  note inv = less.prems(1)
  have jk: "k \<le> j" "j \<le> Suc k" "j \<le> length L" using inv by (simp_all add: follows_def)
  show ?case
  proof (cases "k < length L")
    case False
    then have "r = []" "j = k" "k = length L" using less.prems(3) jk by simp_all
    then have "(e, f') = (None, f)" using less.prems(4)
      by (simp add: follow_loop.simps [of c offset "[]" f] ReadRecord_def ReadFull_def)
    then show ?thesis using inv \<open>k = length L\<close> \<open>j = k\<close> by auto
  next
    case True
    let ?x = "L ! k"
    have ok: "rec_ok ?x" using assms(1) True by (simp add: list_all_length)
    have len: "0 < length (encode ?x)" by (simp add: wire_len)
    have pre: "prefix r (encode ?x @ encode_all (drop (Suc k) L))" using less.prems(3) encode_all_drop [OF True] by simp
    show ?thesis
    proof (cases "length r < length (encode ?x)")
      case short: True
      then have "r = take (length r) (encode ?x)" using pre by (auto simp: prefix_def append_eq_append_conv_if)
      then obtain e' m where "ReadRecord r = (Inl (ErrRead e'), m, [])" using ReadRecord_torn [OF ok short] by metis
      then have "f' = f" using less.prems(4) by (simp add: follow_loop.simps [of c offset r f])
      moreover have "r \<noteq> encode_all (drop k L)" using short encode_all_drop [OF True] by auto
      ultimately show ?thesis using inv by auto
    next
      case False
      then obtain r' where r: "r = encode ?x @ r'" and r': "prefix r' (encode_all (drop (Suc k) L))"
        using pre by (auto simp: prefix_def append_eq_append_conv_if) (metis append_take_drop_id)
      have rd: "ReadRecord r = (Inr ?x, length (encode ?x), r')" unfolding r by (rule ReadRecord_encode [OF ok])
      obtain e1 s1 where a: "apply_record ?x (fo_store f) = (e1, s1)" by (metis prod.exhaust)
      have sd: "store_inv s1" "st_data s1 = (if e1 = None then replay_all (take (Suc k) L) else st_data (fo_store f))"
        using apply_record_data [OF _ a] inv replay_next [OF jk True] by (simp_all add: follows_def)
      have ow: "d \<longrightarrow> (\<exists>xs. L = map op_record xs) \<and> (\<exists>js a. own_log L k js a (st_log s1))"
        "e1 = None \<Longrightarrow> d \<longrightarrow> (\<exists>xs. L = map op_record xs) \<and> (\<exists>js a. own_log L (Suc k) js a (st_log s1))"
        using inv own_log_apply [OF _ a True] unfolding follows_def by blast+
      show ?thesis
      proof (cases e1)
        case (Some y)
        then have "f' = f\<lparr>fo_store := s1\<rparr>" "e \<noteq> None" using less.prems(4) rd a by (auto simp: follow_loop.simps [of c offset r f])
        moreover have "\<not> working f" using apply_record_working [OF _ _ a] Some by (auto simp: working_def)
        moreover have "readOffset (f\<lparr>fo_store := s1\<rparr>) = readOffset f" by (rule readOffset_cong) simp_all
        ultimately show ?thesis using inv sd ow(1) Some by (auto simp: follows_def)
      next
        case None
        let ?off = "offset + word_of_nat (length (encode ?x))"
        have off: "?off = word_of_nat (length (encode_all (take (Suc k) L)))"
          using less.prems(2) encode_all_take_Suc [OF True] by simp
        obtain ok f1 where w: "writeOffset ?off (f\<lparr>fo_store := s1\<rparr>) = (ok, f1)" by (metis prod.exhaust)
        note wo = writeOffset_spec [OF w]
        have ro: "readOffset (f\<lparr>fo_store := s1\<rparr>) = readOffset f" by (rule readOffset_cong) simp_all
        show ?thesis
        proof (cases ok)
          case no: False
          then have "f' = f1" using less.prems(4) rd a None w by (auto simp: follow_loop.simps [of c offset r f] Let_def)
          moreover have "follows d L k (Suc k) f1" using inv sd ow(1) wo ro no None True by (simp add: follows_def)
          moreover have "\<not> working f" using wo(4) no by (auto simp: working_def)
          ultimately show ?thesis using jk(2) by (intro exI [of _ k] exI [of _ "Suc k"]) simp
        next
          case yes: True
          have f1: "follows d L (Suc k) (Suc k) f1" using inv sd ow(2) wo ro yes None True off by (simp add: follows_def)
          have "follow_loop c ?off r' f1 = (e, f')"
            using less.prems(4) rd a None w yes by (simp add: follow_loop.simps [of c offset r f] Let_def)
          then obtain k' j' where kj: "Suc k \<le> k'" "Suc k \<le> j'" "follows d L k' j' f'"
            "working f1 \<and> r' = encode_all (drop (Suc k) L) \<longrightarrow> e = None \<and> working f' \<and> k' = length L"
            using less.hyps [OF _ f1 off r'] len r by auto
          have "working f \<Longrightarrow> working f1" using apply_record_working [OF _ _ a] wo(1,4) by (simp add: working_def)
          then show ?thesis using kj jk(2) r encode_all_drop [OF True] by (intro exI [of _ k'] exI [of _ j']) auto
        qed
      qed
    qed
  qed
qed

text \<open>What the leader may send for an offset: a prefix of its log from there on.\<close>

definition serves :: "Record list \<Rightarrow> session \<Rightarrow> bool" where
  "serves L ss \<longleftrightarrow> (\<forall>off. prefix (ss_stream ss off) (drop (nat (max 0 (sint off))) (encode_all L)))"

definition complete_session :: "Record list \<Rightarrow> session \<Rightarrow> bool" where
  "complete_session L ss \<longleftrightarrow>
     ss_dial ss \<and> faults (ss_conn ss) = [] \<and> (\<forall>off. ss_stream ss off = drop (nat (max 0 (sint off))) (encode_all L))"

lemma sint_of_length: "n < 2 ^ 63 \<Longrightarrow> sint (word_of_nat n :: u64) = int n"
  by (simp add: signed_of_nat take_bit_nat_eq_self signed_take_bit_int_eq_self)

lemma runOnce_spec:
  assumes "list_all rec_ok L" "length (encode_all L) < 2 ^ 63" "serves L ss" "follows d L k j f" "runOnce ss f = (e, f')"
  shows "\<exists>k' j'. k \<le> k' \<and> j \<le> j' \<and> follows d L k' j' f' \<and>
    (working f \<and> complete_session L ss \<longrightarrow> e = None \<and> working f' \<and> k' = length L)"
proof -
  let ?o = "length (encode_all (take k L))"
  have L: "encode_all L = encode_all (take k L) @ encode_all (drop k L)" by (simp add: encode_all_def flip: concat_append map_append)
  then have "?o < 2 ^ 63" using assms(2) by simp
  then have s: "sint (word_of_nat ?o :: u64) = int ?o" by (rule sint_of_length)
  have d: "drop (nat (max 0 (sint (word_of_nat ?o :: u64)))) (encode_all L) = encode_all (drop k L)" unfolding s by (simp add: L)
  have ro: "readOffset f = Some (word_of_nat ?o)" using assms(4) by (simp add: follows_def)
  obtain n ok fl where w: "File_Write (PutUint64 (word_of_nat ?o)) (ss_conn ss) = (n, ok, fl)" by (metis prod_cases3)
  show ?thesis
  proof (cases "ss_dial ss \<and> ok")
    case True
    then have "follow_loop (ss_cancelled ss) (word_of_nat ?o) (ss_stream ss (word_of_nat ?o)) f = (e, f')"
      using assms(5) ro w by (simp add: runOnce_def)
    moreover have "prefix (ss_stream ss (word_of_nat ?o)) (encode_all (drop k L))"
      using assms(3) d unfolding serves_def by metis
    moreover have "complete_session L ss \<Longrightarrow> ss_stream ss (word_of_nat ?o) = encode_all (drop k L)"
      using d unfolding complete_session_def by metis
    ultimately show ?thesis using follow_loop_spec [OF assms(1,4) refl] by blast
  next
    case False
    then have "f' = f" using assms(5) ro w by (auto simp: runOnce_def split: if_splits)
    moreover have "\<not> complete_session L ss" using False File_Write_cases(5) [OF w] by (auto simp: complete_session_def)
    ultimately show ?thesis using assms(4) by auto
  qed
qed

lemma Follower_Run_spec:
  assumes "list_all rec_ok L" "length (encode_all L) < 2 ^ 63"
  shows "list_all (serves L) sss \<Longrightarrow> follows d L k j f \<Longrightarrow> Follower_Run sss f = (ps, f') \<Longrightarrow>
    \<exists>k' j'. k \<le> k' \<and> j \<le> j' \<and> follows d L k' j' f'"
proof (induction sss arbitrary: k j f ps f')
  case (Cons ss sss)
  obtain e f1 where r: "runOnce ss f = (e, f1)" by (metis prod.exhaust)
  obtain k1 j1 where 1: "k \<le> k1" "j \<le> j1" "follows d L k1 j1 f1"
    using runOnce_spec [OF assms _ Cons.prems(2) r] Cons.prems(1) by auto
  obtain ps2 f2 where R: "Follower_Run sss f1 = (ps2, f2)" by (metis prod.exhaust)
  show ?case
  proof (cases "ss_cancelled ss")
    case True
    then show ?thesis using Cons.prems(3) r 1 by auto
  next
    case False
    then have "f' = f2" using Cons.prems(3) r R by simp
    moreover obtain k2 j2 where "k1 \<le> k2" "j1 \<le> j2" "follows d L k2 j2 f2"
      using Cons.IH [OF _ 1(3) R] Cons.prems(1) by auto
    ultimately show ?thesis using 1 by (meson order.trans)
  qed
qed auto

section \<open>Properties\<close>

text \<open>
  A follower process that crashed and starts again: its store is reopened on what its log file
  still holds, its offset file is as it was.
\<close>

definition follower_restart :: "nat \<Rightarrow> io_outcome list \<Rightarrow> Follower \<Rightarrow> Follower option" where
  "follower_restart n fl f =
     (case Store_restart (WAL_Path (st_log (fo_store f))) (crash_file (st_file (fo_store f)) n fl) of
        Inl _ \<Rightarrow> None
      | Inr s \<Rightarrow> Some (f\<lparr>fo_store := s\<rparr>))"

text \<open>A follower that starts with nothing.\<close>

definition fresh_follower :: "Follower \<Rightarrow> bool" where
  "fresh_follower f \<longleftrightarrow>
     (\<exists>path fl. Store_restart path \<lparr>content = [], synced = 0, faults = fl\<rparr> = Inr (fo_store f)) \<and>
     fs_files (fo_fs f) (fo_offsetPath f) = None \<and> \<not> fs_unreadable (fo_fs f) (fo_offsetPath f)"

lemma fresh_follows:
  assumes "fresh_follower f"
  shows "follows True (map op_record xs) 0 0 f"
proof -
  obtain path fl where s: "Store_restart path \<lparr>content = [], synced = 0, faults = fl\<rparr> = Inr (fo_store f)"
    using assms by (auto simp: fresh_follower_def)
  have "log_inv [] 0 (st_log (fo_store f)) \<and> store_inv (fo_store f) \<and> st_data (fo_store f) = replay_all []"
    using Store_restart_clean [OF s, of "[]"] by simp
  moreover have "readOffset f = Some 0" using assms by (simp add: fresh_follower_def readOffset_def os_Open_def)
  ultimately show ?thesis
    by (auto simp: follows_def own_log_def steady_def intro!: exI [of _ "[] :: nat list"] exI [of _ 0])
qed

lemma restart_follows:
  assumes "list_all rec_ok L" "follows True L k j f" "follower_restart n fl f = Some f'"
  shows "\<exists>j'. follows False L k j' f'"
proof -
  let ?c = "crash_file (st_file (fo_store f)) n fl"
  obtain js a where own: "own_log L k js a (st_log (fo_store f))" using assms(2) by (auto simp: follows_def)
  obtain j' where j': "k \<le> j'" "j' \<le> Suc k" "j' \<le> length L" "replay_all (Replay_loop (content ?c)) = replay_all (take j' L)"
    by (rule own_log_crash [OF own assms(1)])
  obtain s where s: "Store_restart (WAL_Path (st_log (fo_store f))) ?c = Inr s" "f' = f\<lparr>fo_store := s\<rparr>"
    using assms(3) by (auto simp: follower_restart_def split: sum.splits)
  have "st_data s = replay_all (take j' L)" using s(1) j'(4) by (auto simp: Store_restart_eq)
  moreover have "store_inv s" by (rule Store_restart_inv [OF s(1)]) (simp add: crash_file_def Let_def)
  moreover have "readOffset f' = readOffset f" by (rule readOffset_cong) (simp_all add: s(2))
  ultimately show ?thesis using j' assms(2) s(2) by (intro exI [of _ j']) (simp add: follows_def)
qed

text \<open>What a stream has put on the wire, failures of the connection included.\<close>

lemma stream_sent_prefix:
  assumes "log_stream_reach fromOffset d w s" "content (dst d) = []" "wbuf d = []"
  shows "prefix (content (dst (s_dst s))) (drop fromOffset (content (wal_file w)))"
  using assms(1)
proof (induction rule: log_stream_reach.induct)
  case (start w)
  then show ?case using assms(2) by (simp add: StreamFrom_start_def)
next
  case (append w s r e w')
  then show ?case using WAL_Append_spec(2) [OF append(2)] by (auto simp: prefix_def)
next
  case (sync w s e w')
  then show ?case using WAL_Sync_any [OF sync(2)] by (auto simp: prefix_def)
next
  case (stream w s dn s')
  note inv = log_stream_reach_inv [OF stream(1)]
  from stream(2) show ?case
  proof cases
    case copy
    let ?c = "content (wal_file w)" and ?n = "durableOff w - s_pos s"
    let ?chunk = "take ?n (drop (s_pos s) ?c)"
    obtain ok d1 where W: "bufio_Write ?chunk (s_dst s) = (ok, d1)" by (metis prod.exhaust)
    obtain ok' d2 where F: "bufio_Flush d1 = (ok', d2)" by (metis prod.exhaust)
    have l: "logical (s_dst s) = take (s_pos s - fromOffset) (drop fromOffset ?c)" "fromOffset \<le> s_pos s"
      using inv copy(2) assms(2,3) by (auto simp: stream_inv_def logical_def)
    have "logical (s_dst s) @ ?chunk = take (durableOff w - fromOffset) (drop fromOffset ?c)"
      unfolding l(1) using l(2) copy(3) by (intro take_drop_split) simp_all
    then have p: "prefix (logical (s_dst s) @ ?chunk) (drop fromOffset ?c)" by (simp add: take_is_prefix)
    have c1: "prefix (content (dst d1)) (logical (s_dst s) @ ?chunk)"
      using bufio_Write_spec [OF W] by (cases ok) (auto simp: logical_def intro: prefixI [OF sym])
    have c2: "prefix (content (dst d2)) (logical (s_dst s) @ ?chunk)" if ok
      using bufio_Flush_cases(2) [OF F] bufio_Write_spec [OF W] that by (auto simp: logical_def intro: prefixI [OF sym])
    have "s_dst s' = d1 \<or> ok \<and> s_dst s' = d2"
      using copy(1) W F by (auto simp: stream_copy_def Let_def)
    then show ?thesis using c1 c2 p by (auto intro: prefix_order.trans)
  qed (use stream(3) in simp_all)
qed

text \<open>
  C32: a follower is always a prefix of its leader. A fresh follower runs through any sessions, each
  ending anywhere in the leader's log, while its store and its offset file fail in any pattern; then
  it crashes, keeping what its log had synced and any part of the rest, restarts and runs through
  further sessions. Its map is then the state after some prefix of the leader's log, at most one
  record ahead of its offset, and never behind it.
\<close>

theorem follower_is_prefix_of_leader:
  assumes "list_all rec_ok (map op_record xs)" "length (encode_all (map op_record xs)) < 2 ^ 63"
    and "fresh_follower f" "list_all (serves (map op_record xs)) (sss1 @ sss2)"
    and "Follower_Run sss1 f = (ps1, f1)" "follower_restart n fl f1 = Some f2" "Follower_Run sss2 f2 = (ps2, f3)"
  shows "\<exists>k j. readOffset f3 = Some (word_of_nat (length (encode_all (map op_record (take k xs))))) \<and>
    k \<le> j \<and> j \<le> Suc k \<and> j \<le> length xs \<and> st_data (fo_store f3) = fold apply_op (take j xs) Map.empty"
proof -
  let ?L = "map op_record xs"
  have s: "list_all (serves ?L) sss1" "list_all (serves ?L) sss2" using assms(4) by simp_all
  obtain k1 j1 where "follows True ?L k1 j1 f1"
    using Follower_Run_spec [OF assms(1,2) s(1) fresh_follows [OF assms(3)] assms(5)] by blast
  then obtain j2 where "follows False ?L k1 j2 f2" using restart_follows [OF assms(1) _ assms(6)] by blast
  then obtain k j where "follows False ?L k j f3" using Follower_Run_spec [OF assms(1,2) s(2) _ assms(7)] by blast
  then show ?thesis
    using replay_all_append [of "[]" "take j xs"]
    by (intro exI [of _ k] exI [of _ j]) (simp add: follows_def take_map replay_all_def)
qed


text \<open>
  C34: what a follower receives is what it may rely on. For every offset a follower sends, whatever the
  leader's log does meanwhile and however the connection fails, the bytes the leader has sent are a
  prefix of its log from that offset (from the start for a negative one).
\<close>

theorem leader_serves_log_prefix:
  assumes "Leader_handleFollower (PutUint64 off @ rest) conn = Some s0" "content conn = []"
    and "log_stream_reach (s_pos s0) (s_dst s0) w s"
  shows "prefix (content (dst (s_dst s))) (drop (nat (max 0 (sint off))) (content (wal_file w)))"
proof -
  have "s0 = StreamFrom_start (nat (max 0 (sint off))) (NewWriter conn)"
    using assms(1) ReadFull_append [of "PutUint64 off" 8 rest]
    by (simp add: Leader_handleFollower_def Let_def max_def not_less split: if_splits)
  then show ?thesis using stream_sent_prefix [OF assms(3)] assms(2) by (simp add: StreamFrom_start_def)
qed

section \<open>Witnesses\<close>

definition demo_ops :: "kv_op list" where
  "demo_ops = [KPut (str ''k'') (str ''v''), KDel (str ''x'')]"

definition demo_follower_state :: Follower where
  "demo_follower_state = NewFollower
     \<lparr>st_data = replay_all [], st_log = \<lparr>wal_name = str ''f.wal'', wal_w = NewWriter \<lparr>content = [], synced = 0, faults = []\<rparr>,
        durableOff = 0, pendingBytes = 0, notify = 0\<rparr>\<rparr> (str '':7000'') (str ''off'')
     \<lparr>fs_files = \<lambda>_. None, fs_unreadable = \<lambda>_. False, fs_faults = []\<rparr>"

definition demo_session :: session where
  "demo_session = \<lparr>ss_dial = True, ss_conn = \<lparr>content = [], synced = 0, faults = []\<rparr>,
     ss_stream = \<lambda>off. drop (nat (max 0 (sint off))) (encode_all (map op_record demo_ops)), ss_cancelled = False\<rparr>"

lemma demo_follower_facts:
  "list_all rec_ok (map op_record demo_ops)" "length (encode_all (map op_record demo_ops)) < 2 ^ 63"
  "fresh_follower demo_follower_state" "working demo_follower_state"
  "complete_session (map op_record demo_ops) demo_session" "serves (map op_record demo_ops) demo_session"
proof -
  show "fresh_follower demo_follower_state"
    by (auto simp: fresh_follower_def demo_follower_state_def NewFollower_def Store_restart_eq
        intro!: exI [of _ "str ''f.wal''"] exI [of _ "[]"])
qed (simp_all add: demo_ops_def rec_ok_def wire_len working_def demo_follower_state_def NewFollower_def complete_session_def
    demo_session_def serves_def)

theorem follower_is_prefix_of_leader_witness:
  "\<exists>ps1 f1 f2 ps2 f3 j. Follower_Run [demo_session] demo_follower_state = (ps1, f1) \<and> follower_restart 0 [] f1 = Some f2 \<and>
     Follower_Run [demo_session] f2 = (ps2, f3) \<and> j \<le> 2 \<and> st_data (fo_store f3) = fold apply_op (take j demo_ops) Map.empty"
proof -
  obtain ps1 f1 where 1: "Follower_Run [demo_session] demo_follower_state = (ps1, f1)" by (metis prod.exhaust)
  obtain f2 where 2: "follower_restart 0 [] f1 = Some f2" by (simp add: follower_restart_def Store_restart_eq)
  obtain ps2 f3 where 3: "Follower_Run [demo_session] f2 = (ps2, f3)" by (metis prod.exhaust)
  from follower_is_prefix_of_leader [OF demo_follower_facts(1-3) _ 1 2 3] demo_follower_facts(6) obtain j where
    "j \<le> length demo_ops" "st_data (fo_store f3) = fold apply_op (take j demo_ops) Map.empty" by auto
  moreover have "length demo_ops = 2" by (simp add: demo_ops_def)
  ultimately have "j \<le> 2" "st_data (fo_store f3) = fold apply_op (take j demo_ops) Map.empty" by simp_all
  with 1 2 3 show ?thesis by blast
qed


theorem leader_serves_log_prefix_witness:
  "\<exists>s0. Leader_handleFollower (PutUint64 2) \<lparr>content = [], synced = 0, faults = []\<rparr> = Some s0 \<and>
     prefix (content (dst (s_dst s0))) (drop 2 (content (wal_file
       \<lparr>wal_name = [], wal_w = NewWriter \<lparr>content = [1, 2, 3], synced = 3, faults = []\<rparr>, durableOff = 3, pendingBytes = 0, notify = 0\<rparr>)))"
proof -
  let ?w = "\<lparr>wal_name = [], wal_w = NewWriter \<lparr>content = [1, 2, 3], synced = 3, faults = []\<rparr>, durableOff = 3, pendingBytes = 0, notify = 0\<rparr>"
  let ?conn = "\<lparr>content = [], synced = 0, faults = []\<rparr>"
  let ?s0 = "StreamFrom_start 2 (NewWriter ?conn)"
  have h: "Leader_handleFollower (PutUint64 2) ?conn = Some ?s0"
    using ReadFull_append [of "PutUint64 2" 8 "[]"] by (simp add: Leader_handleFollower_def Let_def)
  have "log_stream_reach 2 (NewWriter ?conn) ?w ?s0" by (rule log_stream_reach.start) (simp_all add: wal_inv_def)
  then have "log_stream_reach (s_pos ?s0) (s_dst ?s0) ?w ?s0" by (simp add: StreamFrom_start_def)
  from leader_serves_log_prefix [of 2 "[]" ?conn ?s0 ?w ?s0, OF _ _ this] h show ?thesis by auto
qed

end
