(* ===== verification/Go_Flag.thy ===== *)
theory Go_Flag
  imports Go_Text
begin

text \<open>
  The parts of the Go library the command line uses: \<^verbatim>\<open>strings.Split\<close>, \<^verbatim>\<open>strings.SplitN\<close> with two parts,
  \<^verbatim>\<open>strings.TrimSpace\<close>, \<^verbatim>\<open>filepath.Join\<close> of two elements, and package \<^verbatim>\<open>flag\<close> for a set of string flags.
\<close>

section \<open>Strings and paths\<close>

fun Split :: "byte \<Rightarrow> bytes \<Rightarrow> bytes list" where
  "Split c [] = [[]]"
| "Split c (b # s) =
     (if b = c then [] # Split c s
      else case Split c s of [] \<Rightarrow> [[b]] | x # xs \<Rightarrow> (b # x) # xs)"

definition SplitN2 :: "byte \<Rightarrow> bytes \<Rightarrow> bytes list" where
  "SplitN2 c s =
     (case dropWhile (\<lambda>b. b \<noteq> c) s of
        [] \<Rightarrow> [s]
      | _ # rest \<Rightarrow> [takeWhile (\<lambda>b. b \<noteq> c) s, rest])"

definition TrimSpace :: "bytes \<Rightarrow> bytes" where
  "TrimSpace s =
     (let space = (\<lambda>(r, raw). IsSpace r)
      in concat (map snd (rev (dropWhile space (rev (dropWhile space (runes s)))))))"

fun join_with :: "byte \<Rightarrow> bytes list \<Rightarrow> bytes" where
  "join_with c [] = []"
| "join_with c [x] = x"
| "join_with c (x # xs) = x @ c # join_with c xs"

text \<open>The elements of a cleaned path, the last one first.\<close>

definition clean_step :: "bool \<Rightarrow> bytes \<Rightarrow> bytes list \<Rightarrow> bytes list" where
  "clean_step rooted e st =
     (if e = [] \<or> e = str ''.'' then st
      else if e = str ''..'' then
        (case st of
           [] \<Rightarrow> (if rooted then [] else [e])
         | x # xs \<Rightarrow> (if x = str ''..'' then e # st else xs))
      else e # st)"

definition Clean :: "bytes \<Rightarrow> bytes" where
  "Clean path =
     (let rooted = (path \<noteq> [] \<and> hd path = 47);
          es = rev (fold (clean_step rooted) (Split 47 path) [])
      in if rooted then 47 # join_with 47 es else if es = [] then str ''.'' else join_with 47 es)"

definition Join :: "bytes \<Rightarrow> bytes \<Rightarrow> bytes" where
  "Join dir name =
     (if dir \<noteq> [] then Clean (dir @ 47 # name) else if name \<noteq> [] then Clean name else [])"

section \<open>Flags\<close>

text \<open>
  \<open>set\<close> stores the value of a flag, \<open>None\<close> for a name that is not defined. Parsing stops at the first
  argument that is no flag. A request for help is an error of its own.
\<close>

datatype flag_error = ErrHelp | ErrFlag

fun parse_flags :: "(bytes \<Rightarrow> bytes \<Rightarrow> 'f \<Rightarrow> 'f option) \<Rightarrow> bytes list \<Rightarrow> 'f \<Rightarrow> flag_error + 'f" where
  "parse_flags set_flag [] f = Inr f"
| "parse_flags set_flag (s # args) f =
     (if length s < 2 \<or> hd s \<noteq> 45 \<or> s = [45, 45] then Inr f
      else
        (let name = (if s ! 1 = 45 then drop 2 s else drop 1 s)
         in if name = [] \<or> hd name = 45 \<or> hd name = 61 then Inl ErrFlag
            else case SplitN2 61 name of
              name # value \<Rightarrow>
                (if set_flag name [] f = None then
                   Inl (if name = str ''help'' \<or> name = str ''h'' then ErrHelp else ErrFlag)
                 else case value of
                   v # _ \<Rightarrow>
                     (case set_flag name v f of None \<Rightarrow> Inl ErrFlag | Some f \<Rightarrow> parse_flags set_flag args f)
                 | [] \<Rightarrow>
                     (case args of
                        [] \<Rightarrow> Inl ErrFlag
                      | v # args \<Rightarrow>
                          (case set_flag name v f of None \<Rightarrow> Inl ErrFlag | Some f \<Rightarrow> parse_flags set_flag args f)))
            | [] \<Rightarrow> Inl ErrFlag))"

section \<open>Lemmas\<close>

lemma Split_plain: "c \<notin> set s \<Longrightarrow> Split c s = [s]"
  by (induction s) auto

lemma Split_append: "c \<notin> set s \<Longrightarrow> Split c (s @ c # t) = s # Split c t"
  by (induction s) auto

lemma Split_join_with:
  "xs \<noteq> [] \<Longrightarrow> list_all (\<lambda>x. c \<notin> set x) xs \<Longrightarrow> Split c (join_with c xs) = xs"
  by (induction c xs rule: join_with.induct) (simp_all add: Split_plain Split_append)

lemma SplitN2_append: "c \<notin> set s \<Longrightarrow> SplitN2 c (s @ c # t) = [s, t]"
proof -
  assume "c \<notin> set s"
  then have "dropWhile (\<lambda>b. b \<noteq> c) (s @ c # t) = c # t" "takeWhile (\<lambda>b. b \<noteq> c) (s @ c # t) = s"
    by (induction s) auto
  then show ?thesis by (simp add: SplitN2_def)
qed

lemma SplitN2_plain: "c \<notin> set s \<Longrightarrow> SplitN2 c s = [s]"
proof -
  assume "c \<notin> set s"
  then have "dropWhile (\<lambda>b. b \<noteq> c) s = []" by (induction s) auto
  then show ?thesis by (simp only: SplitN2_def list.case)
qed

text \<open>A flag written with two dashes and its value as the next argument.\<close>

lemma parse_flags_long:
  assumes "n \<noteq> []" "hd n \<noteq> 45" "61 \<notin> set n" "set_flag n [] f \<noteq> None"
  shows "parse_flags set_flag ((45 # 45 # n) # v # args) f =
    (case set_flag n v f of None \<Rightarrow> Inl ErrFlag | Some f \<Rightarrow> parse_flags set_flag args f)"
proof -
  have "hd n \<noteq> 61" using assms(1,3) by (metis hd_in_set)
  then show ?thesis using assms by (auto simp: SplitN2_plain)
qed

text \<open>A string whose first and last runes are no spaces is left alone.\<close>

lemma TrimSpace_id:
  assumes "s = [] \<or> \<not> IsSpace (fst (hd (runes s))) \<and> \<not> IsSpace (fst (last (runes s)))"
  shows "TrimSpace s = s"
proof (cases "runes s")
  case Nil
  then show ?thesis using concat_runes [of s] by (simp add: TrimSpace_def)
next
  case (Cons x xs)
  then obtain y ys where l: "runes s = ys @ [y]" by (metis append_butlast_last_id list.distinct(1))
  have "s \<noteq> []" using Cons by auto
  moreover have "hd (runes s) = x" "last (runes s) = y" by (simp add: Cons) (simp add: l)
  ultimately have "\<not> IsSpace (fst x)" "\<not> IsSpace (fst y)" using assms by simp_all
  then have "dropWhile (\<lambda>(r, raw). IsSpace r) (runes s) = runes s"
    and "dropWhile (\<lambda>(r, raw). IsSpace r) (rev (runes s)) = rev (runes s)"
    by (simp add: Cons case_prod_beta, simp add: l case_prod_beta)
  then show ?thesis by (simp add: TrimSpace_def concat_runes)
qed

end
