(* ===== verification/CLI.thy ===== *)
theory CLI
  imports Store Transport Server Go_Flag
begin

text \<open>
  \<^verbatim>\<open>cmd/kvengine/main.go\<close>: the command line. \<open>main\<close> is a function of the arguments and of what the
  operating system does (\<open>cli_env\<close>); it ends the process with an exit code and what it printed on
  standard output, or leaves a server running. Diagnostics on standard error are not modelled. The raft
  mode is a node, its transport and its store; what runs in it is in \<^verbatim>\<open>CLI_Raft\<close>.
\<close>

section \<open>Definitions\<close>

text \<open>
  The log file at a path when it is opened for reading and for appending, and whether \<^verbatim>\<open>Stat\<close>, \<^verbatim>\<open>Close\<close>,
  \<^verbatim>\<open>MkdirAll\<close> and \<^verbatim>\<open>net.Listen\<close> succeed; the file system of the Raft files.
\<close>

record cli_env =
  env_src :: "bytes \<Rightarrow> open_result"
  env_file :: "bytes \<Rightarrow> osfile option"
  env_stat :: bool
  env_close :: bool
  env_mkdir :: bool
  env_listen :: bool
  env_fs :: fsys

record raft_process =
  rp_store :: Store
  rp_node :: Node
  rp_transport :: TCPTransport
  rp_kvAddr :: bytes

text \<open>An ended process has its exit code, its output and the store it had opened.\<close>

datatype process =
  Exited nat bytes "Store option"
| Serving bytes Store
| RaftServing raft_process

definition Println :: "bytes \<Rightarrow> bytes" where
  "Println s = s @ [10]"

text \<open>A return from \<^verbatim>\<open>runSingleNode\<close> runs the deferred \<^verbatim>\<open>Close\<close>; \<^verbatim>\<open>os.Exit\<close> does not.\<close>

definition returned :: "cli_env \<Rightarrow> bytes \<Rightarrow> Store \<Rightarrow> process" where
  "returned env stdout s = Exited 0 stdout (Some (snd (Store_Close (env_close env) s)))"

definition runSingleNode :: "cli_env \<Rightarrow> bytes \<Rightarrow> bytes list \<Rightarrow> process" where
  "runSingleNode env walPath args =
     (case args of
        [] \<Rightarrow> Exited 2 [] None
      | cmd # rest \<Rightarrow>
          (case Store_Open walPath (env_src env walPath) (env_file env walPath) (env_stat env) of
             Inl _ \<Rightarrow> Exited 1 [] None
           | Inr s \<Rightarrow>
               (if cmd = str ''serve'' then
                  (case rest of
                     [addr] \<Rightarrow> (if env_listen env then Serving addr s else Exited 1 [] (Some s))
                   | _ \<Rightarrow> Exited 2 [] (Some s))
                else if cmd = str ''put'' then
                  (case rest of
                     [key, value] \<Rightarrow>
                       (case Store_Put key value s of
                          (Some _, s) \<Rightarrow> Exited 1 [] (Some s)
                        | (None, s) \<Rightarrow> returned env (Println (str ''OK'')) s)
                   | _ \<Rightarrow> Exited 2 [] (Some s))
                else if cmd = str ''get'' then
                  (case rest of
                     [key] \<Rightarrow>
                       (case Store_Get key s of
                          None \<Rightarrow> returned env (Println (str ''(nil)'')) s
                        | Some v \<Rightarrow> returned env (Println v) s)
                   | _ \<Rightarrow> Exited 2 [] (Some s))
                else if cmd = str ''delete'' then
                  (case rest of
                     [key] \<Rightarrow>
                       (case Store_Delete key s of
                          (Some _, s) \<Rightarrow> Exited 1 [] (Some s)
                        | (None, s) \<Rightarrow> returned env (Println (str ''OK'')) s)
                   | _ \<Rightarrow> Exited 2 [] (Some s))
                else Exited 2 [] (Some s))))"

subsection \<open>Raft mode\<close>

record raft_flags =
  fl_id :: bytes
  fl_peers :: bytes
  fl_raft_addr :: bytes
  fl_kv_addr :: bytes
  fl_data_dir :: bytes

definition default_flags :: raft_flags where
  "default_flags = \<lparr>fl_id = [], fl_peers = [], fl_raft_addr = [], fl_kv_addr = str '':6380'', fl_data_dir = str ''.''\<rparr>"

definition set_raft_flag :: "bytes \<Rightarrow> bytes \<Rightarrow> raft_flags \<Rightarrow> raft_flags option" where
  "set_raft_flag name v f =
     (if name = str ''id'' then Some (f\<lparr>fl_id := v\<rparr>)
      else if name = str ''peers'' then Some (f\<lparr>fl_peers := v\<rparr>)
      else if name = str ''raft-addr'' then Some (f\<lparr>fl_raft_addr := v\<rparr>)
      else if name = str ''kv-addr'' then Some (f\<lparr>fl_kv_addr := v\<rparr>)
      else if name = str ''data-dir'' then Some (f\<lparr>fl_data_dir := v\<rparr>)
      else None)"

text \<open>The loop over the peer pairs: the address book and the peer ids so far; \<open>None\<close> is a bad pair.\<close>

fun parse_pairs ::
  "bytes list \<Rightarrow> (bytes \<rightharpoonup> bytes) \<times> bytes list \<Rightarrow> ((bytes \<rightharpoonup> bytes) \<times> bytes list) option" where
  "parse_pairs [] acc = Some acc"
| "parse_pairs (pair # pairs) acc =
     (case acc of
        (addrs, peerIDs) \<Rightarrow>
          (case SplitN2 61 (TrimSpace pair) of
             [i, addr] \<Rightarrow> parse_pairs pairs (addrs(i \<mapsto> addr), peerIDs @ [i])
           | _ \<Rightarrow> None))"

definition parse_peers :: "bytes \<Rightarrow> bytes \<Rightarrow> bytes \<Rightarrow> ((bytes \<rightharpoonup> bytes) \<times> bytes list) option" where
  "parse_peers i raftAddr peersRaw =
     (if peersRaw \<noteq> [] then parse_pairs (Split 44 peersRaw) ([i \<mapsto> raftAddr], []) else Some ([i \<mapsto> raftAddr], []))"

definition runRaft :: "cli_env \<Rightarrow> bytes list \<Rightarrow> process" where
  "runRaft env args =
     (case parse_flags set_raft_flag args default_flags of
        Inl ErrHelp \<Rightarrow> Exited 0 [] None
      | Inl ErrFlag \<Rightarrow> Exited 2 [] None
      | Inr f \<Rightarrow>
          (if fl_id f = [] \<or> fl_raft_addr f = [] then Exited 2 [] None
           else if \<not> env_mkdir env then Exited 1 [] None
           else case parse_peers (fl_id f) (fl_raft_addr f) (fl_peers f) of
             None \<Rightarrow> Exited 1 [] None
           | Some (addrs, peerIDs) \<Rightarrow>
               (let walPath = Join (fl_data_dir f) (str ''kv.wal'')
                in case Store_Open walPath (env_src env walPath) (env_file env walPath) (env_stat env) of
                     Inl _ \<Rightarrow> Exited 1 [] None
                   | Inr s \<Rightarrow>
                       (case NewNode (fl_id f) peerIDs (Join (fl_data_dir f) (str ''raft-state.json''))
                               (Join (fl_data_dir f) (str ''raft-snap.json'')) (env_fs env) of
                          None \<Rightarrow> Exited 1 [] (Some s)
                        | Some node \<Rightarrow>
                            (if env_listen env then
                               RaftServing \<lparr>rp_store = s, rp_node = node,
                                 rp_transport = TCP_Register (fl_id f) node (NewTCPTransport addrs),
                                 rp_kvAddr = fl_kv_addr f\<rparr>
                             else Exited 1 [] (Some s))))))"

text \<open>\<open>args\<close> is \<^verbatim>\<open>os.Args\<close>, the program name first.\<close>

definition main :: "cli_env \<Rightarrow> bytes list \<Rightarrow> process" where
  "main env args =
     (case args of
        _ # cmd # rest \<Rightarrow> (if cmd = str ''raft'' then runRaft env rest else runSingleNode env cmd rest)
      | _ \<Rightarrow> Exited 2 [] None)"

section \<open>A sequence of processes\<close>

text \<open>
  One run of the program on a disk that holds \<open>f\<close> at the path: its exit code and output, and the file it
  leaves. A process that is left serving is stopped.
\<close>

definition disk_env :: "bytes \<Rightarrow> osfile \<Rightarrow> cli_env" where
  "disk_env path f =
     \<lparr>env_src = \<lambda>p. if p = path then Opened (content f) else NotExist,
      env_file = \<lambda>p. Some (if p = path then f else \<lparr>content = [], synced = 0, faults = []\<rparr>),
      env_stat = True, env_close = True, env_mkdir = True, env_listen = True,
      env_fs = \<lparr>fs_files = \<lambda>_. None, fs_unreadable = \<lambda>_. False, fs_faults = []\<rparr>\<rparr>"

definition cli_run :: "bytes \<Rightarrow> bytes list \<Rightarrow> osfile \<Rightarrow> (nat \<times> bytes) \<times> osfile" where
  "cli_run path args f =
     (case main (disk_env path f) (str ''kvengine'' # path # args) of
        Exited code stdout s \<Rightarrow> ((code, stdout), case s of None \<Rightarrow> f | Some s \<Rightarrow> st_file s)
      | Serving addr s \<Rightarrow> ((0, []), st_file s)
      | RaftServing _ \<Rightarrow> ((0, []), f))"

fun cli_runs :: "bytes \<Rightarrow> bytes list list \<Rightarrow> osfile \<Rightarrow> (nat \<times> bytes) list \<times> osfile" where
  "cli_runs path [] f = ([], f)"
| "cli_runs path (args # rest) f =
     (case cli_run path args f of (r, f) \<Rightarrow> (case cli_runs path rest f of (rs, f) \<Rightarrow> (r # rs, f)))"

text \<open>What a command line asks of the store, and what it prints: the meaning on a map.\<close>

definition cli_op :: "bytes list \<Rightarrow> kv_op option" where
  "cli_op args =
     (case args of
        [c, k] \<Rightarrow> (if c = str ''delete'' then Some (KDel k) else None)
      | [c, k, v] \<Rightarrow> (if c = str ''put'' then Some (KPut k v) else None)
      | _ \<Rightarrow> None)"

definition cli_apply :: "bytes list \<Rightarrow> (bytes \<rightharpoonup> bytes) \<Rightarrow> (bytes \<rightharpoonup> bytes)" where
  "cli_apply args m = (case cli_op args of None \<Rightarrow> m | Some x \<Rightarrow> apply_op x m)"

definition cli_answer :: "(bytes \<rightharpoonup> bytes) \<Rightarrow> bytes list \<Rightarrow> nat \<times> bytes" where
  "cli_answer m args =
     (if cli_op args \<noteq> None then (0, Println (str ''OK''))
      else case args of
        [c, k] \<Rightarrow>
          (if c = str ''get'' then (0, Println (case m k of None \<Rightarrow> str ''(nil)'' | Some v \<Rightarrow> v))
           else if c = str ''serve'' then (0, []) else (2, []))
      | _ \<Rightarrow> (2, []))"

fun cli_answers :: "(bytes \<rightharpoonup> bytes) \<Rightarrow> bytes list list \<Rightarrow> (nat \<times> bytes) list" where
  "cli_answers m [] = []"
| "cli_answers m (args # rest) = cli_answer m args # cli_answers (cli_apply args m) rest"

section \<open>Lemmas\<close>

text \<open>A log file without a torn tail, all of it durable, on a working disk.\<close>

definition clean_file :: "Record list \<Rightarrow> osfile \<Rightarrow> bool" where
  "clean_file rs f \<longleftrightarrow>
     content f = encode_all rs \<and> synced f = length (content f) \<and> faults f = [] \<and> list_all rec_ok rs"

lemma commands_distinct [simp]:
  "str ''serve'' \<noteq> str ''put''" "str ''serve'' \<noteq> str ''get''" "str ''serve'' \<noteq> str ''delete''"
  "str ''put'' \<noteq> str ''serve''" "str ''put'' \<noteq> str ''get''" "str ''put'' \<noteq> str ''delete''"
  "str ''get'' \<noteq> str ''serve''" "str ''get'' \<noteq> str ''put''" "str ''get'' \<noteq> str ''delete''"
  "str ''delete'' \<noteq> str ''serve''" "str ''delete'' \<noteq> str ''put''" "str ''delete'' \<noteq> str ''get''"
  by (simp_all add: str_def)

lemma Store_Close_file:
  assumes "wbuf (wal_w (st_log s)) = []"
  shows "st_file (snd (Store_Close ok s)) = st_file s"
  using assms by (simp add: Store_Close_def WAL_Close_def bufio_Flush_def split: prod.splits)

lemma open_clean:
  assumes "clean_file rs f"
  obtains s where "Store_Open path (env_src (disk_env path f) path) (env_file (disk_env path f) path)
      (env_stat (disk_env path f)) = Inr s"
    "st_data s = replay_all rs" "st_file s = f" "wbuf (wal_w (st_log s)) = []" "\<not> werr (wal_w (st_log s))"
proof -
  obtain s where s: "Store_restart path f = Inr s" by (simp add: Store_restart_eq)
  then have "st_data s = replay_all rs" "st_file s = f" "wbuf (wal_w (st_log s)) = []" "\<not> werr (wal_w (st_log s))"
    using Store_restart_clean [OF s, of rs] assms by (auto simp: clean_file_def Store_restart_eq)
  with s show thesis by (intro that) (simp_all add: Store_restart_def disk_env_def)
qed

text \<open>A mutation of the store behind a command line, on a clean file.\<close>

lemma exec_clean:
  assumes "clean_file rs f" "st_data s = replay_all rs" "st_file s = f" "wbuf (wal_w (st_log s)) = []"
    "\<not> werr (wal_w (st_log s))" "rec_ok (op_record x)"
  obtains s' where "kv_exec Store_kv x s = (None, s')" "wbuf (wal_w (st_log s')) = []"
    "clean_file (rs @ [op_record x]) (st_file s')"
proof -
  obtain e s' where e: "kv_exec Store_kv x s = (e, s')" by (metis prod.exhaust)
  have "faults (st_file s) = []" using assms by (simp add: clean_file_def)
  from Store_exec_no_faults [OF assms(5) this e] assms e show thesis
    by (intro that [of s']) (auto simp: clean_file_def logical_def)
qed

lemma cli_run_op:
  assumes "clean_file rs f" "path \<noteq> str ''raft''" "cli_op args = Some x" "rec_ok (op_record x)"
  shows "\<exists>f'. cli_run path args f = ((0, Println (str ''OK'')), f') \<and> clean_file (rs @ [op_record x]) f'"
proof -
  obtain s where s: "Store_Open path (env_src (disk_env path f) path) (env_file (disk_env path f) path)
      (env_stat (disk_env path f)) = Inr s"
    "st_data s = replay_all rs" "st_file s = f" "wbuf (wal_w (st_log s)) = []" "\<not> werr (wal_w (st_log s))"
    using open_clean [OF assms(1)] by blast
  from exec_clean [OF assms(1) s(2-5) assms(4)] obtain s' where
    s': "kv_exec Store_kv x s = (None, s')" "wbuf (wal_w (st_log s')) = []" "clean_file (rs @ [op_record x]) (st_file s')" .
  consider (put) k v where "args = [str ''put'', k, v]" "x = KPut k v" | (del) k where "args = [str ''delete'', k]" "x = KDel k"
    using assms(3) by (auto simp: cli_op_def split: list.splits if_splits)
  then have "main (disk_env path f) (str ''kvengine'' # path # args) = returned (disk_env path f) (Println (str ''OK'')) s'"
    using s(1) s'(1) assms(2) by cases (simp_all add: main_def runSingleNode_def Store_kv_def)
  then show ?thesis
    using s'(2,3) Store_Close_file [OF s'(2)] by (simp add: cli_run_def returned_def)
qed

lemma cli_run_other:
  assumes "clean_file rs f" "path \<noteq> str ''raft''" "cli_op args = None"
  shows "cli_run path args f = (cli_answer (replay_all rs) args, f)"
proof (cases args)
  case Nil
  then show ?thesis using assms(2,3) by (simp add: cli_run_def main_def runSingleNode_def cli_answer_def)
next
  case (Cons c rest)
  obtain s where s: "Store_Open path (env_src (disk_env path f) path) (env_file (disk_env path f) path)
      (env_stat (disk_env path f)) = Inr s"
    "st_data s = replay_all rs" "st_file s = f" "wbuf (wal_w (st_log s)) = []"
    using open_clean [OF assms(1)] by blast
  have r: "main (disk_env path f) (str ''kvengine'' # path # args) = runSingleNode (disk_env path f) path (c # rest)"
    using assms(2) Cons by (simp add: main_def)
  have l: "env_listen (disk_env path f)" by (simp add: disk_env_def)
  consider "c = str ''serve''" | "c = str ''put''" | "c = str ''get''" | "c = str ''delete''"
    | "c \<noteq> str ''serve''" "c \<noteq> str ''put''" "c \<noteq> str ''get''" "c \<noteq> str ''delete''" by blast
  then show ?thesis
    using assms(3) s r l Store_Close_file [OF s(4)]
    by cases (auto simp: cli_run_def runSingleNode_def Store_Get_def returned_def cli_answer_def cli_op_def Cons
        split: list.splits option.splits)
qed

text \<open>
  A printable word without a comma, and a peer as the documentation writes it: an id without an equals sign
  and an address.
\<close>

definition plain :: "bytes \<Rightarrow> bool" where
  "plain s \<longleftrightarrow> s \<noteq> [] \<and> list_all (\<lambda>b. 33 \<le> unat b \<and> unat b < 127 \<and> b \<noteq> 44) s"

definition peer_ok :: "bytes \<times> bytes \<Rightarrow> bool" where
  "peer_ok p \<longleftrightarrow> plain (fst p) \<and> 61 \<notin> set (fst p) \<and> plain (snd p)"

definition peer_pair :: "bytes \<times> bytes \<Rightarrow> bytes" where
  "peer_pair p = fst p @ 61 # snd p"

lemma peer_pair_plain: "peer_ok p \<Longrightarrow> plain (peer_pair p)"
  by (auto simp: peer_ok_def peer_pair_def plain_def)

lemma TrimSpace_plain:
  assumes "plain s" shows "TrimSpace s = s"
proof (rule TrimSpace_id)
  have "list_all (\<lambda>b. unat b < 128) s" using assms unfolding plain_def by (auto elim: list.pred_mono_strong)
  then have "runes s = map (\<lambda>b. (unat b, [b])) s" by (rule list_all_ascii_runes)
  moreover have "\<not> IsSpace (unat b)" if "b \<in> set s" for b
    using assms that by (auto simp: plain_def list_all_iff IsSpace_def)
  ultimately show "s = [] \<or> \<not> IsSpace (fst (hd (runes s))) \<and> \<not> IsSpace (fst (last (runes s)))"
    using assms by (auto simp: plain_def hd_map last_map)
qed

lemma parse_pairs_ok:
  "list_all peer_ok ps \<Longrightarrow> parse_pairs (map peer_pair ps) (m, ids) = Some (m ++ map_of (rev ps), ids @ map fst ps)"
proof (induction ps arbitrary: m ids)
  case (Cons p ps)
  have "TrimSpace (peer_pair p) = peer_pair p" using Cons.prems by (simp add: TrimSpace_plain peer_pair_plain)
  moreover have "SplitN2 61 (peer_pair p) = [fst p, snd p]"
    using Cons.prems by (simp add: peer_pair_def SplitN2_append peer_ok_def)
  ultimately show ?case using Cons by (simp add: map_add_assoc map_add_upd_left)
qed simp

lemma parse_peers_ok:
  assumes "list_all peer_ok ps"
  shows "parse_peers i a (join_with 44 (map peer_pair ps)) = Some ([i \<mapsto> a] ++ map_of (rev ps), map fst ps)"
proof (cases "ps = []")
  case False
  have "list_all (\<lambda>x. 44 \<notin> set x) (map peer_pair ps)"
    using assms peer_pair_plain by (auto simp: list_all_iff plain_def)
  then have "Split 44 (join_with 44 (map peer_pair ps)) = map peer_pair ps"
    using False by (intro Split_join_with) simp_all
  moreover have "join_with 44 (map peer_pair ps) \<noteq> []"
    using False by (cases "(44 :: byte, map peer_pair ps)" rule: join_with.cases) (auto simp: peer_pair_def)
  ultimately show ?thesis using parse_pairs_ok [OF assms] by (simp add: parse_peers_def)
qed (simp add: parse_peers_def)

lemma flag_names:
  "61 \<notin> set (str ''id'')" "61 \<notin> set (str ''peers'')" "61 \<notin> set (str ''raft-addr'')" "61 \<notin> set (str ''kv-addr'')"
  "61 \<notin> set (str ''data-dir'')" "hd (str ''id'') \<noteq> 45" "hd (str ''peers'') \<noteq> 45" "hd (str ''raft-addr'') \<noteq> 45"
  "hd (str ''kv-addr'') \<noteq> 45" "hd (str ''data-dir'') \<noteq> 45" "str ''id'' \<noteq> []" "str ''peers'' \<noteq> []"
  "str ''raft-addr'' \<noteq> []" "str ''kv-addr'' \<noteq> []" "str ''data-dir'' \<noteq> []"
  by (simp_all add: str_def)

section \<open>Properties\<close>


text \<open>
  The documented raft command line starts the node it describes. With an id, an address, any list of
  printable peers and the two remaining flags, the process runs a node with exactly these peers, on the
  three files of the data directory, and a transport that knows the address of every member.
\<close>

theorem main_raft_starts:
  assumes "me \<noteq> []" "addr \<noteq> []" "list_all peer_ok ps" "env_mkdir env" "env_listen env"
    and "Store_Open (Join dir (str ''kv.wal'')) (env_src env (Join dir (str ''kv.wal'')))
           (env_file env (Join dir (str ''kv.wal''))) (env_stat env) = Inr s"
    and "NewNode me (map fst ps) (Join dir (str ''raft-state.json'')) (Join dir (str ''raft-snap.json'')) (env_fs env) = Some node"
  shows "main env [str ''kvengine'', str ''raft'', str ''--id'', me, str ''--peers'', join_with 44 (map peer_pair ps),
             str ''--raft-addr'', addr, str ''--kv-addr'', kv, str ''--data-dir'', dir] =
     RaftServing \<lparr>rp_store = s, rp_node = node,
       rp_transport = \<lparr>tcp_node = Some node, tcp_addrs = [me \<mapsto> addr] ++ map_of (rev ps), tcp_listener = None\<rparr>,
       rp_kvAddr = kv\<rparr>"
proof -
  have names: "str ''--id'' = 45 # 45 # str ''id''" "str ''--peers'' = 45 # 45 # str ''peers''"
    "str ''--raft-addr'' = 45 # 45 # str ''raft-addr''" "str ''--kv-addr'' = 45 # 45 # str ''kv-addr''"
    "str ''--data-dir'' = 45 # 45 # str ''data-dir''"
    by (simp_all add: str_def)
  have set: "set_raft_flag (str ''id'') v fl = Some (fl\<lparr>fl_id := v\<rparr>)"
    "set_raft_flag (str ''peers'') v fl = Some (fl\<lparr>fl_peers := v\<rparr>)"
    "set_raft_flag (str ''raft-addr'') v fl = Some (fl\<lparr>fl_raft_addr := v\<rparr>)"
    "set_raft_flag (str ''kv-addr'') v fl = Some (fl\<lparr>fl_kv_addr := v\<rparr>)"
    "set_raft_flag (str ''data-dir'') v fl = Some (fl\<lparr>fl_data_dir := v\<rparr>)" for v fl
    by (simp_all add: set_raft_flag_def str_def)
  have "parse_flags set_raft_flag [str ''--id'', me, str ''--peers'', join_with 44 (map peer_pair ps),
             str ''--raft-addr'', addr, str ''--kv-addr'', kv, str ''--data-dir'', dir] default_flags =
     Inr \<lparr>fl_id = me, fl_peers = join_with 44 (map peer_pair ps), fl_raft_addr = addr, fl_kv_addr = kv, fl_data_dir = dir\<rparr>"
    unfolding names
    by (simp add: parse_flags_long set default_flags_def flag_names del: parse_flags.simps(2))
  then show ?thesis
    using assms parse_peers_ok [OF assms(3)]
    by (simp add: main_def runRaft_def TCP_Register_def NewTCPTransport_def)
qed


theorem main_raft_starts_witness:
  "\<exists>p. main (disk_env [] \<lparr>content = [], synced = 0, faults = []\<rparr>)
       [str ''kvengine'', str ''raft'', str ''--id'', str ''n0'', str ''--peers'', join_with 44 (map peer_pair [(str ''n1'', str ''b'')]),
        str ''--raft-addr'', str ''a'', str ''--kv-addr'', str ''c'', str ''--data-dir'', str ''d''] = RaftServing p \<and>
     nd_peers (rp_node p) = [str ''n1''] \<and> tcp_addrs (rp_transport p) (str ''n1'') = Some (str ''b'')"
proof -
  let ?env = "disk_env [] \<lparr>content = [], synced = 0, faults = []\<rparr>"
  have n: "NewNode i ps st sn (env_fs ?env) = Some (blank_node i ps st sn (env_fs ?env))" for i ps st sn
    by (simp add: NewNode_def loadSnapshot_def LatestSnapshot_def restoreState_def blank_node_def disk_env_def os_Open_def Let_def)
  let ?p = "Join (str ''d'') (str ''kv.wal'')"
  have "\<exists>s. Store_Open ?p (env_src ?env ?p) (env_file ?env ?p) (env_stat ?env) = Inr s"
    by (cases "?p = []") (simp_all add: Store_Open_def Replay_def WAL_Open_def disk_env_def Let_def)
  then obtain s where s: "Store_Open ?p (env_src ?env ?p) (env_file ?env ?p) (env_stat ?env) = Inr s" by blast
  have "list_all peer_ok [(str ''n1'', str ''b'')]" by (simp add: peer_ok_def plain_def str_def)
  from main_raft_starts [OF _ _ this _ _ s n, of "str ''n0''" "str ''a''" "str ''c''"]
  show ?thesis by (simp add: disk_env_def blank_node_def str_def)
qed

end
