(* ===== verification/Store_Snapshot.thy ===== *)
theory Store_Snapshot
  imports Store JSON
begin

text \<open>
  \<^verbatim>\<open>Snapshot\<close> and \<^verbatim>\<open>RestoreSnapshot\<close> of \<^verbatim>\<open>internal/store/store.go\<close>: the map of a store printed as a JSON
  object, its keys in string order and its values in base64, and an object read into a store.

  An empty value may be a \<^verbatim>\<open>nil\<close> slice (after \<^verbatim>\<open>Put\<close>) or an empty one (after a replay); only the printer
  sees the difference. It is the argument \<open>isnil\<close>, and the results hold for every choice of it.
\<close>

section \<open>Definitions\<close>

definition enc_map :: "(bytes \<Rightarrow> bool) \<Rightarrow> (bytes \<rightharpoonup> bytes) \<Rightarrow> json" where
  "enc_map isnil m =
     JObj (map (\<lambda>k. (k, case m k of
                          None \<Rightarrow> JNull
                        | Some v \<Rightarrow> enc_bytes (if v = [] \<and> isnil k then None else Some v)))
       (sorted_list_of_set (dom m)))"

definition Store_Snapshot :: "(bytes \<Rightarrow> bool) \<Rightarrow> Store \<Rightarrow> bytes" where
  "Store_Snapshot isnil s = Marshal (enc_map isnil (st_data s))"

text \<open>
  One value of the object, decoded into a fresh slice, and whether it was accepted. After an error the
  decoder goes on with the zero value: a bad element of an array is 0, a bad value is the nil slice.
\<close>

definition dec_value_slice :: "json \<Rightarrow> bytes \<times> bool" where
  "dec_value_slice v =
     (case v of
        JNull \<Rightarrow> ([], True)
      | JStr t \<Rightarrow> (case b64_decode t of None \<Rightarrow> ([], False) | Some bs \<Rightarrow> (bs, True))
      | JArr xs \<Rightarrow>
          (map (\<lambda>x. case dec_uint 8 0 x of None \<Rightarrow> 0 | Some n \<Rightarrow> word_of_nat n) xs,
           list_all (\<lambda>x. dec_uint 8 0 x \<noteq> None) xs)
      | _ \<Rightarrow> ([], False))"

text \<open>
  Whether the call succeeded, whether it left the map nil (it then reads as empty, and a write panics),
  and the store. The members are stored into the map the store has; the ones before and after a bad one
  are kept.
\<close>

definition RestoreSnapshot :: "bytes \<Rightarrow> Store \<Rightarrow> bool \<times> bool \<times> Store" where
  "RestoreSnapshot data s =
     (case json_parse data of
        None \<Rightarrow> (False, False, s)
      | Some JNull \<Rightarrow> (True, True, s\<lparr>st_data := Map.empty\<rparr>)
      | Some (JObj ms) \<Rightarrow>
          (list_all (\<lambda>(k, v). snd (dec_value_slice v)) ms, False,
           s\<lparr>st_data := fold (\<lambda>(k, v) m. m(k \<mapsto> fst (dec_value_slice v))) ms (st_data s)\<rparr>)
      | Some _ \<Rightarrow> (False, False, s))"

section \<open>Lemmas\<close>

lemma dec_value_slice_enc [simp]: "dec_value_slice (enc_bytes (Some v)) = (v, True)" "dec_value_slice (enc_bytes None) = ([], True)"
    "dec_value_slice JNull = ([], True)"
  by (simp_all add: dec_value_slice_def enc_bytes_def)

lemma enc_map_ok:
  assumes "finite (dom m)" "list_all valid_utf8 (sorted_list_of_set (dom m))"
  shows "json_ok (enc_map isnil m)"
  using assms by (auto simp: enc_map_def list_all_iff json_ok_bytes split: option.splits)

lemma fold_upd_keys:
  "fold (\<lambda>(k, v) m. m(k \<mapsto> f v)) (map (\<lambda>k. (k, g k)) ks) m0 =
     (\<lambda>k. if k \<in> set ks then Some (f (g k)) else m0 k)"
  by (induction ks arbitrary: m0) (auto simp: fun_eq_iff)

lemma fold_enc_map:
  assumes "finite (dom m)" "enc_map isnil m = JObj ms"
  shows "fold (\<lambda>(k, v) m. m(k \<mapsto> fst (dec_value_slice v))) ms m0 = m0 ++ m"
    "list_all (\<lambda>(k, v). snd (dec_value_slice v)) ms"
proof -
  have v: "dec_value_slice (case m k of None \<Rightarrow> JNull | Some v \<Rightarrow> enc_bytes (if v = [] \<and> isnil k then None else Some v)) =
      (case m k of None \<Rightarrow> [] | Some v \<Rightarrow> v, True)" for k
    by (auto simp: enc_bytes_def dec_value_slice_def split: option.splits)
  show "fold (\<lambda>(k, v) m. m(k \<mapsto> fst (dec_value_slice v))) ms m0 = m0 ++ m"
    using assms by (auto simp: enc_map_def fold_upd_keys v fun_eq_iff map_add_def split: option.splits)
  show "list_all (\<lambda>(k, v). snd (dec_value_slice v)) ms"
    using assms(2) by (auto simp: enc_map_def list_all_iff v)
qed

section \<open>Properties\<close>

text \<open>
  C40: a snapshot restores. When the keys are valid UTF-8, restoring the snapshot of a store into another
  one succeeds and stores every key of the snapshot with its value; keys the snapshot does not have are
  kept. Restored into an empty store it gives back the same map.
\<close>

theorem RestoreSnapshot_Snapshot:
  assumes "finite (dom (st_data s))" "\<forall>k\<in>dom (st_data s). valid_utf8 k"
  shows "RestoreSnapshot (Store_Snapshot isnil s) t = (True, False, t\<lparr>st_data := st_data t ++ st_data s\<rparr>)"
proof -
  obtain ms where ms: "enc_map isnil (st_data s) = JObj ms" by (simp add: enc_map_def)
  have "json_parse (Store_Snapshot isnil s) = Some (JObj ms)"
    unfolding Store_Snapshot_def ms [symmetric]
    using assms by (intro json_parse_Marshal enc_map_ok) (auto simp: list_all_iff)
  then show ?thesis using fold_enc_map [OF assms(1) ms] by (simp add: RestoreSnapshot_def)
qed

theorem RestoreSnapshot_Snapshot_witness:
  "\<forall>l. RestoreSnapshot (Store_Snapshot (\<lambda>_. True) \<lparr>st_data = [str ''a'' \<mapsto> [0, 255], str ''b'' \<mapsto> []], st_log = l\<rparr>)
     \<lparr>st_data = [str ''a'' \<mapsto> [], str ''c'' \<mapsto> [7]], st_log = l\<rparr> =
   (True, False, \<lparr>st_data = [str ''a'' \<mapsto> [0, 255], str ''b'' \<mapsto> [], str ''c'' \<mapsto> [7]], st_log = l\<rparr>)"
proof
  fix l :: WAL
  let ?s = "\<lparr>st_data = [str ''a'' \<mapsto> [0, 255], str ''b'' \<mapsto> []], st_log = l\<rparr>"
  let ?t = "\<lparr>st_data = [str ''a'' \<mapsto> [], str ''c'' \<mapsto> [7]], st_log = l\<rparr>"
  have "valid_utf8 (str ''a'')" "valid_utf8 (str ''b'')" by (rule valid_utf8_ascii; simp add: str_def)+
  moreover have "st_data ?t ++ st_data ?s = [str ''a'' \<mapsto> [0, 255], str ''b'' \<mapsto> [], str ''c'' \<mapsto> [7]]"
    by (simp add: fun_eq_iff map_add_def str_def)
  ultimately show "RestoreSnapshot (Store_Snapshot (\<lambda>_. True) ?s) ?t = (True, False, \<lparr>st_data = [str ''a'' \<mapsto> [0, 255], str ''b'' \<mapsto> [], str ''c'' \<mapsto> [7]], st_log = l\<rparr>)"
    using RestoreSnapshot_Snapshot [of ?s "\<lambda>_. True" ?t] by simp
qed

end
