(* ===== verification/CLI_Raft.thy ===== *)
theory CLI_Raft
  imports CLI Store_Snapshot Raft_Replication
begin

text \<open>
  The raft mode of \<^verbatim>\<open>cmd/kvengine/main.go\<close>: \<^verbatim>\<open>raftStore\<close>, which turns the writes of clients into Raft
  commands, and \<^verbatim>\<open>applyRaftToStore\<close>, which executes committed commands on the local store.

  A write of \<^verbatim>\<open>raftStore\<close> takes the node's lock several times; the node at each of these moments is an
  argument. \<open>None\<close> is a panic of the node.
\<close>

section \<open>Commands\<close>

text \<open>\<^verbatim>\<open>json.Marshal\<close> of a map from strings to strings: the keys in order.\<close>

fun enc_command :: "kv_op \<Rightarrow> json" where
  "enc_command (KPut k v) = JObj [(str ''k'', JStr k), (str ''op'', JStr (str ''put'')), (str ''v'', JStr v)]"
| "enc_command (KDel k) = JObj [(str ''k'', JStr k), (str ''op'', JStr (str ''del''))]"

record command =
  cmd_Op :: bytes
  cmd_Key :: bytes
  cmd_Val :: bytes

definition dec_command :: "json \<Rightarrow> command option" where
  "dec_command = dec_struct
     (\<lambda>(k, v) c.
        if field_is ''op'' k then map_option (\<lambda>x. c\<lparr>cmd_Op := x\<rparr>) (dec_string (cmd_Op c) v)
        else if field_is ''k'' k then map_option (\<lambda>x. c\<lparr>cmd_Key := x\<rparr>) (dec_string (cmd_Key c) v)
        else if field_is ''v'' k then map_option (\<lambda>x. c\<lparr>cmd_Val := x\<rparr>) (dec_string (cmd_Val c) v)
        else Some c)
     \<lparr>cmd_Op = [], cmd_Key = [], cmd_Val = []\<rparr>"

section \<open>Applying committed entries\<close>

definition snapshotEvery :: nat where
  "snapshotEvery = 100"

record machine =
  ma_applied :: nat
  ma_node :: Node
  ma_store :: Store

text \<open>One message of the channel. Errors of the store and of the snapshot are not acted on.\<close>

definition apply_message :: "(bytes \<Rightarrow> bool) \<Rightarrow> ApplyMsg \<Rightarrow> machine \<Rightarrow> machine" where
  "apply_message isnil msg m =
     (case Option.bind (json_parse (am_Command msg)) dec_command of
        None \<Rightarrow> m
      | Some cmd \<Rightarrow>
          (let s = (if cmd_Op cmd = str ''put'' then snd (Store_Put (cmd_Key cmd) (cmd_Val cmd) (ma_store m))
                    else if cmd_Op cmd = str ''del'' then snd (Store_Delete (cmd_Key cmd) (ma_store m))
                    else ma_store m);
               applied = ma_applied m + 1;
               n = (if applied mod snapshotEvery = 0
                    then snd (TakeSnapshot (am_CommandIndex msg) (Some (Store_Snapshot isnil s)) (ma_node m))
                    else ma_node m)
           in \<lparr>ma_applied = applied, ma_node = n, ma_store = s\<rparr>))"

definition applyRaftToStore :: "(bytes \<Rightarrow> bool) \<Rightarrow> ApplyMsg list \<Rightarrow> machine \<Rightarrow> machine" where
  "applyRaftToStore isnil = fold (apply_message isnil)"

section \<open>Writes of clients\<close>

datatype raft_error = ErrTryNode bytes | ErrNotLeader | ErrLeaderChanged nat nat nat | ErrTimedOut nat

text \<open>The logs \<^verbatim>\<open>waitApplied\<close> reads until its deadline.\<close>

fun waitApplied :: "nat \<Rightarrow> nat \<Rightarrow> LogEntry list list \<Rightarrow> raft_error option" where
  "waitApplied logIndex trm [] = Some (ErrTimedOut logIndex)"
| "waitApplied logIndex trm (snap # snaps) =
     (if length snap > logIndex then
        (if le_Term (snap ! logIndex) = trm then None
         else Some (ErrLeaderChanged logIndex (le_Term (snap ! logIndex)) trm))
      else waitApplied logIndex trm snaps)"

text \<open>\<open>n0\<close> is the node when its state is read, \<open>n\<close> when the command is proposed.\<close>

definition raftStore_write ::
  "bytes \<Rightarrow> Node \<Rightarrow> Node \<Rightarrow> LogEntry list list \<Rightarrow> (raft_error option \<times> Node \<times> (bytes \<times> AppendEntriesArgs) list) option" where
  "raftStore_write cmd n0 n polls =
     (case Node_State n0 of
        (role, _, leader) \<Rightarrow>
          (if role \<noteq> Leader then Some (Some (ErrTryNode leader), n, [])
           else case Propose cmd n of
             None \<Rightarrow> None
           | Some ((idx, trm, ok), n, rpcs) \<Rightarrow>
               (if \<not> ok then Some (Some ErrNotLeader, n, rpcs)
                else Some (waitApplied idx trm polls, n, rpcs))))"

definition raftStore_Put ::
  "bytes \<Rightarrow> bytes \<Rightarrow> Node \<Rightarrow> Node \<Rightarrow> LogEntry list list \<Rightarrow> (raft_error option \<times> Node \<times> (bytes \<times> AppendEntriesArgs) list) option" where
  "raftStore_Put key value = raftStore_write (Marshal (enc_command (KPut key value)))"

definition raftStore_Delete ::
  "bytes \<Rightarrow> Node \<Rightarrow> Node \<Rightarrow> LogEntry list list \<Rightarrow> (raft_error option \<times> Node \<times> (bytes \<times> AppendEntriesArgs) list) option" where
  "raftStore_Delete key = raftStore_write (Marshal (enc_command (KDel key)))"

definition raftStore_Get :: "bytes \<Rightarrow> Store \<Rightarrow> bytes option" where
  "raftStore_Get key s = Store_Get key s"

definition raftStore_Len :: "Store \<Rightarrow> nat" where
  "raftStore_Len s = Store_Len s"

section \<open>Lemmas\<close>

text \<open>Operations whose strings survive the JSON encoding.\<close>

fun op_utf8 :: "kv_op \<Rightarrow> bool" where
  "op_utf8 (KPut k v) \<longleftrightarrow> valid_utf8 k \<and> valid_utf8 v"
| "op_utf8 (KDel k) \<longleftrightarrow> valid_utf8 k"

fun op_command :: "kv_op \<Rightarrow> command" where
  "op_command (KPut k v) = \<lparr>cmd_Op = str ''put'', cmd_Key = k, cmd_Val = v\<rparr>"
| "op_command (KDel k) = \<lparr>cmd_Op = str ''del'', cmd_Key = k, cmd_Val = []\<rparr>"

lemma command_literals:
  "valid_utf8 (str ''k'')" "valid_utf8 (str ''op'')" "valid_utf8 (str ''v'')" "valid_utf8 (str ''put'')" "valid_utf8 (str ''del'')"
  by (rule valid_utf8_ascii; simp add: str_def)+

lemma command_fields:
  "field_is ''op'' (str ''op'')" "\<not> field_is ''op'' (str ''k'')" "\<not> field_is ''op'' (str ''v'')"
  "field_is ''k'' (str ''k'')" "\<not> field_is ''k'' (str ''v'')" "field_is ''v'' (str ''v'')"
  by (simp_all add: field_is_def fold_name_def str_def fold_rune_def)

lemma dec_command_enc: "dec_command (enc_command x) = Some (op_command x)"
  by (cases x) (simp_all add: dec_command_def dec_struct_def command_fields dec_string_def)

lemma command_roundtrip:
  assumes "op_utf8 x"
  shows "Option.bind (json_parse (Marshal (enc_command x))) dec_command = Some (op_command x)"
proof -
  have "json_ok (enc_command x)" using assms by (cases x) (simp_all add: command_literals)
  from json_parse_Marshal [OF this] show ?thesis by (simp add: dec_command_enc)
qed

text \<open>A message that carries an operation executes it on the store.\<close>

lemma apply_message_store:
  assumes "am_Command msg = Marshal (enc_command x)" "op_utf8 x"
  shows "ma_store (apply_message isnil msg m) = snd (kv_exec Store_kv x (ma_store m))"
proof -
  have "str ''del'' \<noteq> str ''put''" by (simp add: str_def)
  then show ?thesis
    using command_roundtrip [OF assms(2)] assms(1)
    by (cases x) (simp_all add: apply_message_def Let_def Store_kv_def)
qed

lemma applyRaftToStore_store:
  assumes "map am_Command msgs = map (\<lambda>x. Marshal (enc_command x)) xs" "list_all op_utf8 xs"
  shows "ma_store (applyRaftToStore isnil msgs m) = snd (kv_run Store_kv xs (ma_store m))"
  using assms
proof (induction xs arbitrary: msgs m)
  case (Cons x xs)
  then obtain msg rest where msgs: "msgs = msg # rest" "am_Command msg = Marshal (enc_command x)"
    "map am_Command rest = map (\<lambda>x. Marshal (enc_command x)) xs" by (cases msgs) auto
  obtain e s where e: "kv_exec Store_kv x (ma_store m) = (e, s)" by (metis prod.exhaust)
  have s: "ma_store (apply_message isnil msg m) = s" using apply_message_store [OF msgs(2)] Cons.prems(2) e by simp
  have "applyRaftToStore isnil msgs m = applyRaftToStore isnil rest (apply_message isnil msg m)"
    by (simp add: applyRaftToStore_def msgs(1))
  with Cons.IH [OF msgs(3), of "apply_message isnil msg m"] Cons.prems(2) e s show ?case
    by (simp add: Let_def split: prod.splits)
qed (simp add: applyRaftToStore_def)

text \<open>On a working disk the operations take effect on the map.\<close>

lemma acked_all: "acked xs (replicate (length xs) None) = xs"
  by (induction xs) (simp_all add: acked_def)

lemma Store_run_working:
  assumes "\<not> werr (wal_w (st_log s))" "faults (st_file s) = []"
  shows "st_data (snd (kv_run Store_kv xs s)) = fold apply_op xs (st_data s)"
proof -
  obtain es s' where r: "kv_run Store_kv xs s = (es, s')" by (metis prod.exhaust)
  from Store_run_no_faults [OF assms r] Store_run_data [OF r] show ?thesis by (simp add: r acked_all)
qed

text \<open>The log of a node whose entries were all written by clients.\<close>

definition client_log :: "nat \<Rightarrow> (nat \<times> kv_op) list \<Rightarrow> LogEntry list" where
  "client_log t0 txs = sentinel t0 # map (\<lambda>(t, x). \<lparr>le_Term = t, le_Command = Some (Marshal (enc_command x))\<rparr>) txs"

lemma client_log_commands:
  assumes "a \<le> c" "c \<le> length txs"
  shows "map am_Command (concat (map (command_at (client_log t0 txs)) [Suc a..<Suc c])) =
    map (\<lambda>x. Marshal (enc_command x)) (map snd (drop a (take c txs)))"
proof -
  have "map am_Command (command_at (client_log t0 txs) (Suc i)) = [Marshal (enc_command (snd (txs ! i)))]" if "i < length txs" for i
    using that by (simp add: command_at_def client_log_def case_prod_beta)
  then have "map am_Command (concat (map (command_at (client_log t0 txs)) (map Suc [a..<c]))) =
      map (\<lambda>i. Marshal (enc_command (snd (txs ! i)))) [a..<c]"
    using assms(2) by (induction c) (auto simp: map_concat)
  moreover have "map Suc [a..<c] = [Suc a..<Suc c]" by (rule map_Suc_upt)
  moreover have "drop a (take c txs) = map (\<lambda>i. txs ! i) [a..<c]"
    using assms by (intro nth_equalityI) auto
  ultimately show ?thesis by (simp del: upt_Suc map_concat)
qed

section \<open>Properties\<close>


text \<open>
  C39: a write is acknowledged before it is committed, and may be lost. A leader acknowledges a \<^verbatim>\<open>Put\<close> as
  soon as its own log holds the entry: the commit index has not moved. When a leader of a later term that
  never saw the entry then replicates its own next entry, the acknowledged one is gone from the log.
\<close>

theorem acknowledged_put_may_be_lost:
  assumes "nd_role n = Leader" "nd_log n \<noteq> []" "Propose (Marshal (enc_command (KPut k v))) n = Some (r, n', rpcs)"
    and "nd_currentTerm n < ae_Term args" "ae_PrevLogIndex args = length (nd_log n) - 1"
      "ae_PrevLogTerm args = le_Term (last (nd_log n))" "ae_Entries args = [e]" "le_Term e = ae_Term args"
  shows "raftStore_Put k v n n (LogSnapshot n' # polls) = Some (None, n', rpcs) \<and>
     nd_commitIndex n' = nd_commitIndex n \<and>
     nd_log (snd (HandleAppendEntries now args n')) = nd_log n @ [e]"
proof -
  obtain idx t lead where r: "r = (idx, t, lead)" by (metis prod_cases3)
  let ?e = "\<lparr>le_Term = nd_currentTerm n, le_Command = Some (Marshal (enc_command (KPut k v)))\<rparr>"
  from assms(3) [unfolded r] assms(1) have p: "lead" "idx = length (nd_log n)" "t = nd_currentTerm n"
    "nd_log n' = nd_log n @ [?e]" "nd_commitIndex n' = nd_commitIndex n" "nd_currentTerm n' = nd_currentTerm n"
    by (cases rule: Propose_cases, simp_all)+
  have prev: "ae_PrevLogIndex args < length (nd_log n)" "Suc (ae_PrevLogIndex args) = length (nd_log n)"
    using assms(2,5) by simp_all
  have "raftStore_Put k v n n (LogSnapshot n' # polls) = Some (None, n', rpcs)"
    using assms(1,3) p r by (simp add: raftStore_Put_def raftStore_write_def Node_State_def LogSnapshot_def)
  moreover have "nd_log n ! ae_PrevLogIndex args = last (nd_log n)" using assms(2,5) by (simp add: last_conv_nth)
  then have "aer_Success (fst (HandleAppendEntries now args n'))"
    using prev assms(4,6) p by (simp add: HandleAppendEntries_success nth_append)
  moreover have "merge_log (length (nd_log n)) [e] (nd_log n @ [?e]) = nd_log n @ [e]"
    using assms(4,8) by (simp add: merge_log_def Let_def)
  ultimately show ?thesis using p prev assms(7) by (simp add: HandleAppendEntries_log_eq)
qed

text \<open>
  Keys that are no UTF-8 are conflated in raft mode. A \<^verbatim>\<open>Put\<close> of the one-byte key FE is the same call as
  a \<^verbatim>\<open>Put\<close> of the key FF: both bytes are sent as the replacement character.
\<close>

theorem raft_conflates_invalid_keys:
  "raftStore_Put [254] v n0 n polls = raftStore_Put [255] v n0 n polls"
proof -
  have "json_quote [254] = json_quote [255]"
    by (simp add: json_quote_def json_escape_def runes.simps DecodeRune_def)
  then show ?thesis by (simp add: raftStore_Put_def)
qed

section \<open>Witnesses\<close>

definition demo_replica :: Node where
  "demo_replica = (blank_node (str ''n0'') [] [] [] \<lparr>fs_files = \<lambda>_. None, fs_unreadable = \<lambda>_. False, fs_faults = []\<rparr>)
     \<lparr>nd_log := client_log 0 [(1, KPut (str ''a'') (str ''b'')), (1, KDel (str ''c''))], nd_commitIndex := 2, nd_currentTerm := 1,
      nd_role := Leader\<rparr>"

definition demo_machine :: machine where
  "demo_machine = \<lparr>ma_applied = 0, ma_node = demo_replica,
     ma_store = \<lparr>st_data = [str ''c'' \<mapsto> []], st_log = \<lparr>wal_name = [], wal_w = NewWriter \<lparr>content = [], synced = 0, faults = []\<rparr>,
       durableOff = 0, pendingBytes = 0, notify = 0\<rparr>\<rparr>\<rparr>"


theorem acknowledged_put_may_be_lost_witness:
  "\<exists>n' rpcs. raftStore_Put (str ''x'') (str ''y'') demo_replica demo_replica [LogSnapshot n'] = Some (None, n', rpcs) \<and>
     nd_commitIndex n' = 2 \<and>
     nd_log (snd (HandleAppendEntries 0 \<lparr>ae_Term = 2, ae_LeaderId = str ''n1'', ae_PrevLogIndex = 2, ae_PrevLogTerm = 1,
        ae_Entries = [sentinel 2], ae_LeaderCommit = 0\<rparr> n')) = nd_log demo_replica @ [sentinel 2]"
proof -
  have f: "nd_role demo_replica = Leader" "length (nd_log demo_replica) = 3" "le_Term (last (nd_log demo_replica)) = 1"
    "nd_currentTerm demo_replica = 1" "nd_commitIndex demo_replica = 2"
    by (simp_all add: demo_replica_def blank_node_def client_log_def)
  obtain r n' rpcs where p: "Propose (Marshal (enc_command (KPut (str ''x'') (str ''y'')))) demo_replica = Some (r, n', rpcs)"
    by (simp add: Propose_def f(1) Let_def broadcastAppendEntries_def demo_replica_def blank_node_def persist_def)
  have "nd_log demo_replica \<noteq> []" using f(2) by auto
  then show ?thesis
    using acknowledged_put_may_be_lost [OF f(1) _ p, of "\<lparr>ae_Term = 2, ae_LeaderId = str ''n1'', ae_PrevLogIndex = 2, ae_PrevLogTerm = 1,
        ae_Entries = [sentinel 2], ae_LeaderCommit = 0\<rparr>" "sentinel 2" "[]" 0] f
    by (auto simp: sentinel_def)
qed

end
