(* ===== verification/Raft_Cluster.thy ===== *)
theory Raft_Cluster
  imports Raft_Replication "HOL-Library.Multiset"
begin

text \<open>
  A cluster of Raft nodes: the handlers of \<^verbatim>\<open>internal/raft/raft.go\<close> run by all members, with a network
  between them that delays, reorders and loses messages, and members that crash and restart from their
  disk. Every step of the cluster is one handler of one node; what it sends is in flight until it is
  delivered, once, or lost.

  Snapshots are left out (\<open>snapshot_then_heartbeat_panics\<close> shows what they do to the indices), disks
  work, and terms stay below 64 bits. A restarted node may still receive replies to calls of its former
  life, which only adds behaviour.
\<close>

section \<open>The cluster\<close>

text \<open>
  A call in flight: a request on its way to a peer, or the reply on its way back. Replies carry what the
  waiting goroutine remembers: the term of its election, the arguments it sent.
\<close>

datatype message =
    VoteReq bytes bytes RequestVoteArgs
  | VoteRep bytes bytes nat RequestVoteReply
  | AppReq bytes bytes AppendEntriesArgs
  | AppRep bytes bytes AppendEntriesArgs AppendEntriesReply

text \<open>
  \<open>cl_voters c t\<close> lists the peers whose votes candidate \<open>c\<close> has counted in its election of term \<open>t\<close>; the
  counter \<^verbatim>\<open>votes\<close> of the code is one more than its length. The remaining fields are history that no step
  reads: who was granted a vote by whom, who has handled a request of a leader in which term, who was
  leader in which term, the log of the leader of a term, the log a candidate had in its election, and
  up to which index a member has stored the log of the leader of a term.
\<close>

record cluster =
  cl_node :: "bytes \<Rightarrow> Node"
  cl_net :: "message multiset"
  cl_voters :: "bytes \<Rightarrow> nat \<Rightarrow> bytes list"
  cl_cast :: "(bytes \<times> nat \<times> bytes) set"
  cl_heard :: "(bytes \<times> nat) set"
  cl_led :: "(bytes \<times> nat) set"
  cl_tlog :: "nat \<Rightarrow> LogEntry list"
  cl_clog :: "bytes \<Rightarrow> nat \<Rightarrow> LogEntry list"
  cl_acks :: "(bytes \<times> nat \<times> nat) set"

definition vote_reqs :: "bytes \<Rightarrow> (bytes \<times> RequestVoteArgs) list \<Rightarrow> message multiset" where
  "vote_reqs i rpcs = mset (map (\<lambda>(p, a). VoteReq i p a) rpcs)"

definition app_reqs :: "bytes \<Rightarrow> (bytes \<times> AppendEntriesArgs) list \<Rightarrow> message multiset" where
  "app_reqs i rpcs = mset (map (\<lambda>(p, a). AppReq i p a) rpcs)"

abbreviation put_node :: "bytes \<Rightarrow> Node \<Rightarrow> cluster \<Rightarrow> cluster" where
  "put_node i n C \<equiv> C\<lparr>cl_node := (cl_node C)(i := n)\<rparr>"

inductive cluster_step :: "bytes set \<Rightarrow> cluster \<Rightarrow> cluster \<Rightarrow> bool" for ids where
  election: "i \<in> ids \<Longrightarrow> nd_role (cl_node C i) \<noteq> Leader \<Longrightarrow> Suc (nd_currentTerm (cl_node C i)) < 2 ^ 64 \<Longrightarrow>
    startElection now (cl_node C i) = (n, rpcs) \<Longrightarrow>
    cluster_step ids C ((put_node i n C)
      \<lparr>cl_net := cl_net C + vote_reqs i rpcs, cl_cast := insert (i, nd_currentTerm n, i) (cl_cast C),
       cl_clog := (cl_clog C)(i := (cl_clog C i)(nd_currentTerm n := nd_log n))\<rparr>)"
| heartbeat: "i \<in> ids \<Longrightarrow> heartbeatTick (cl_node C i) = Some rpcs \<Longrightarrow>
    cluster_step ids C (C\<lparr>cl_net := cl_net C + app_reqs i rpcs\<rparr>)"
| vote_request: "VoteReq c p a \<in># cl_net C \<Longrightarrow> HandleRequestVote now a (cl_node C p) = (r, n) \<Longrightarrow>
    cluster_step ids C ((put_node p n C)
      \<lparr>cl_net := cl_net C - {#VoteReq c p a#} + {#VoteRep c p (rv_Term a) r#},
       cl_cast := (if rvr_VoteGranted r then insert (p, rv_Term a, c) (cl_cast C) else cl_cast C)\<rparr>)"
| vote_reply: "VoteRep c p t r \<in># cl_net C \<Longrightarrow>
    onVoteReply t (Suc (length (cl_voters C c t))) r (cl_node C c) = Some (votes, n, rpcs) \<Longrightarrow>
    cluster_step ids C ((put_node c n C)
      \<lparr>cl_net := cl_net C - {#VoteRep c p t r#} + app_reqs c rpcs,
       cl_voters := (if votes > Suc (length (cl_voters C c t))
                     then (cl_voters C)(c := (cl_voters C c)(t := p # cl_voters C c t)) else cl_voters C),
       cl_led := (if nd_role n = Leader then insert (c, nd_currentTerm n) (cl_led C) else cl_led C),
       cl_tlog := (if nd_role n = Leader then (cl_tlog C)(nd_currentTerm n := nd_log n) else cl_tlog C)\<rparr>)"
| append_request: "AppReq l p a \<in># cl_net C \<Longrightarrow> HandleAppendEntries now a (cl_node C p) = (r, n) \<Longrightarrow>
    cluster_step ids C ((put_node p n C)
      \<lparr>cl_net := cl_net C - {#AppReq l p a#} + {#AppRep l p a r#},
       cl_heard := (if nd_currentTerm (cl_node C p) \<le> ae_Term a then insert (p, ae_Term a) (cl_heard C) else cl_heard C),
       cl_acks := (if aer_Success r then insert (p, ae_Term a, ae_PrevLogIndex a + length (ae_Entries a)) (cl_acks C)
                   else cl_acks C)\<rparr>)"
| append_reply: "AppRep l p a r \<in># cl_net C \<Longrightarrow> onAppendReply p a r (cl_node C l) = Some (n, rpcs) \<Longrightarrow>
    cluster_step ids C ((put_node l n C)\<lparr>cl_net := cl_net C - {#AppRep l p a r#} + app_reqs l rpcs\<rparr>)"
| propose: "i \<in> ids \<Longrightarrow> Propose c (cl_node C i) = Some (res, n, rpcs) \<Longrightarrow>
    cluster_step ids C ((put_node i n C)
      \<lparr>cl_net := cl_net C + app_reqs i rpcs,
       cl_tlog := (if nd_role n = Leader then (cl_tlog C)(nd_currentTerm n := nd_log n) else cl_tlog C),
       cl_acks := (if nd_role n = Leader then insert (i, nd_currentTerm n, length (nd_log n) - 1) (cl_acks C)
                   else cl_acks C)\<rparr>)"
| apply_entry: "i \<in> ids \<Longrightarrow> applyStep (cl_node C i) = Some (m, n) \<Longrightarrow> cluster_step ids C (put_node i n C)"
| restarted: "i \<in> ids \<Longrightarrow> restart (cl_node C i) = Some n \<Longrightarrow> cluster_step ids C (put_node i n C)"
| lost: "m \<in># cl_net C \<Longrightarrow> cluster_step ids C (C\<lparr>cl_net := cl_net C - {#m#}\<rparr>)"

text \<open>
  A new cluster: every member knows all the others and starts without files, on a working disk.
\<close>

definition fresh_node :: "bytes set \<Rightarrow> bytes \<Rightarrow> Node \<Rightarrow> bool" where
  "fresh_node ids i n \<longleftrightarrow>
     (\<exists>peers statePath snapshotPath fs. NewNode i peers statePath snapshotPath fs = Some n \<and>
        distinct peers \<and> set peers = ids - {i} \<and> disk_ok n \<and>
        snapshotPath \<noteq> statePath @ tmp_suffix \<and> fs_files fs statePath = None \<and> fs_files fs snapshotPath = None)"

definition cluster_init :: "bytes set \<Rightarrow> cluster \<Rightarrow> bool" where
  "cluster_init ids C \<longleftrightarrow>
     finite ids \<and> [] \<notin> ids \<and> (\<forall>i\<in>ids. valid_utf8 i \<and> fresh_node ids i (cl_node C i)) \<and>
     cl_net C = {#} \<and> cl_voters C = (\<lambda>_ _. []) \<and> cl_cast C = {} \<and> cl_heard C = {} \<and> cl_led C = {} \<and>
     cl_tlog C = (\<lambda>t. if t = 0 then [sentinel 0] else []) \<and> cl_clog C = (\<lambda>_ _. []) \<and> cl_acks C = {}"

inductive cluster_reach :: "bytes set \<Rightarrow> cluster \<Rightarrow> bool" for ids where
  init: "cluster_init ids C \<Longrightarrow> cluster_reach ids C"
| step: "cluster_reach ids C \<Longrightarrow> cluster_step ids C C' \<Longrightarrow> cluster_reach ids C'"

section \<open>Lemmas: members and messages\<close>

text \<open>The disk of a member gives back its state: what it wrote last, or nothing for a new node.\<close>

definition recoverable :: "Node \<Rightarrow> bool" where
  "recoverable n \<longleftrightarrow>
     disk_ok n \<and> nd_snapshotPath n \<noteq> nd_statePath n @ tmp_suffix \<and> fs_files (nd_fs n) (nd_snapshotPath n) = None \<and>
     (durable n \<or>
      fs_files (nd_fs n) (nd_statePath n) = None \<and> nd_currentTerm n = 0 \<and> nd_votedFor n = [] \<and> nd_log n = [sentinel 0])"

lemma persist_no_snapshot:
  assumes "disk_ok n" "nd_snapshotPath n \<noteq> nd_statePath n @ tmp_suffix"
  shows "fs_files (nd_fs (snd (persist n))) (nd_snapshotPath n) = fs_files (nd_fs n) (nd_snapshotPath n)"
proof -
  obtain ok fs where w: "write_via_tmp (nd_statePath n) (Marshal (enc_persistentState (node_state n))) (nd_fs n) = (ok, fs)"
    by (metis prod.exhaust)
  have "fs_files fs (nd_snapshotPath n) = fs_files (nd_fs n) (nd_snapshotPath n)"
    using write_via_tmp_spec(2) [OF w] assms by (auto simp: disk_ok_def)
  then show ?thesis using w assms(1) by (simp add: persist_def disk_ok_def)
qed

interpretation recover_file: state_file recoverable
proof
  fix n n'
  show "recoverable (snd (persist n'))" if "recoverable n" "same_disk n n'" "node_wf n'"
  proof -
    have d: "disk_ok n'" using that(1,2) disk_ok_cong [of n n'] by (simp add: recoverable_def same_disk_def)
    have "durable (snd (persist n'))" using persist_durable [OF d] by simp
    then show ?thesis
      using that(1,2) persist_no_snapshot [OF d] durable_disk by (auto simp: recoverable_def same_disk_def)
  qed
  show "recoverable n \<Longrightarrow> same_disk n n' \<Longrightarrow> node_state n' = node_state n \<Longrightarrow> recoverable n'"
    by (auto simp: recoverable_def durable_def disk_ok_def same_disk_def node_state_def)
qed

lemma loadSnapshot_absent:
  "nd_snapshotPath n = [] \<or> fs_files (nd_fs n) (nd_snapshotPath n) = None \<Longrightarrow> loadSnapshot n = n"
  by (auto simp: loadSnapshot_def LatestSnapshot_def os_Open_def split: option.splits)

lemma restart_commit:
  assumes "fs_files (nd_fs n) (nd_snapshotPath n) = None" "restart n = Some m"
  shows "nd_commitIndex m = 0"
  using assms by (auto simp: restart_def NewNode_def loadSnapshot_absent restoreState_def Let_def blank_node_def
      split: if_splits option.splits open_result.splits)

lemma restart_recoverable:
  assumes "recoverable n" "node_wf n"
  shows "\<exists>m. restart n = Some m \<and> nd_currentTerm m = nd_currentTerm n \<and> nd_votedFor m = nd_votedFor n \<and>
    nd_log m = nd_log n \<and> nd_role m = Follower \<and> nd_commitIndex m = 0 \<and> nd_id m = nd_id n \<and> nd_peers m = nd_peers n \<and>
    recoverable m"
proof (cases "durable n")
  case True
  have "\<not> fs_unreadable (nd_fs n) (nd_statePath n)" "nd_statePath n \<noteq> []"
    "fs_files (nd_fs n) (nd_statePath n) = Some (Marshal (enc_persistentState (node_state n)))"
    "state_ok (node_state n)" "ps_Log (node_state n) \<noteq> []"
    using True assms(2) by (simp_all add: durable_def disk_ok_def node_wf_def node_state_def)
  then obtain m where m: "restart n = Some m" "nd_currentTerm m = nd_currentTerm n" "nd_votedFor m = nd_votedFor n"
    "nd_log m = nd_log n" "nd_role m = Follower" "nd_id m = nd_id n" "nd_peers m = nd_peers n"
    "nd_statePath m = nd_statePath n" "nd_snapshotPath m = nd_snapshotPath n" "nd_fs m = nd_fs n"
    by (rule restart_file) (rule that, assumption, simp_all add: node_state_def)
  moreover have "recoverable m"
    using assms(1) durable_cong [OF True m(8-10) m(2-4)] m(8-10) by (simp add: recoverable_def durable_disk)
  moreover have "nd_commitIndex m = 0" using restart_commit [OF _ m(1)] assms(1) by (simp add: recoverable_def)
  ultimately show ?thesis by blast
next
  case False
  let ?b = "blank_node (nd_id n) (nd_peers n) (nd_statePath n) (nd_snapshotPath n) (nd_fs n)"
  have f: "disk_ok n" "fs_files (nd_fs n) (nd_statePath n) = None" "fs_files (nd_fs n) (nd_snapshotPath n) = None"
    "nd_currentTerm n = 0" "nd_votedFor n = []" "nd_log n = [sentinel 0]"
    using False assms(1) by (simp_all add: recoverable_def)
  have "restart n = Some ?b"
    using f restoreState_absent [of ?b] by (simp add: restart_def NewNode_def loadSnapshot_absent Let_def disk_ok_def)
  moreover have "nd_commitIndex ?b = 0" by (simp add: blank_node_def)
  ultimately show ?thesis using f assms(1) by (simp add: recoverable_def disk_ok_def)
qed

text \<open>A member of the cluster: its configuration, its own invariant, its disk.\<close>

definition member :: "bytes set \<Rightarrow> bytes \<Rightarrow> Node \<Rightarrow> bool" where
  "member ids i n \<longleftrightarrow>
     nd_id n = i \<and> distinct (nd_peers n) \<and> set (nd_peers n) = ids - {i} \<and> node_wf n \<and> recoverable n"

fun msg_ok :: "bytes set \<Rightarrow> message \<Rightarrow> bool" where
  "msg_ok ids (VoteReq c p a) \<longleftrightarrow> c \<in> ids \<and> p \<in> ids \<and> p \<noteq> c \<and> rv_CandidateId a = c \<and> rv_Term a < 2 ^ 64"
| "msg_ok ids (VoteRep c p t r) \<longleftrightarrow> c \<in> ids \<and> p \<in> ids \<and> p \<noteq> c \<and> rvr_Term r < 2 ^ 64"
| "msg_ok ids (AppReq l p a) \<longleftrightarrow>
     l \<in> ids \<and> p \<in> ids \<and> p \<noteq> l \<and> ae_Term a < 2 ^ 64 \<and> (\<forall>e\<in>set (ae_Entries a). le_Term e < 2 ^ 64)"
| "msg_ok ids (AppRep l p a r) \<longleftrightarrow> l \<in> ids \<and> p \<in> ids \<and> p \<noteq> l \<and> aer_Term r < 2 ^ 64"

definition cluster_wf :: "bytes set \<Rightarrow> cluster \<Rightarrow> bool" where
  "cluster_wf ids C \<longleftrightarrow>
     finite ids \<and> [] \<notin> ids \<and> (\<forall>i\<in>ids. valid_utf8 i \<and> member ids i (cl_node C i)) \<and> (\<forall>m\<in>#cl_net C. msg_ok ids m)"

lemma cluster_wfD:
  assumes "cluster_wf ids C"
  shows "finite ids" "[] \<notin> ids" "i \<in> ids \<Longrightarrow> valid_utf8 i" "i \<in> ids \<Longrightarrow> member ids i (cl_node C i)"
    "m \<in># cl_net C \<Longrightarrow> msg_ok ids m"
  using assms by (simp_all add: cluster_wf_def)

lemma wf_update:
  assumes "cluster_wf ids C" "i \<in> ids" "member ids i n" "cl_node C' = (cl_node C)(i := n)"
    "\<And>m. m \<in># cl_net C' \<Longrightarrow> m \<in># cl_net C \<or> msg_ok ids m"
  shows "cluster_wf ids C'"
  using assms by (auto simp: cluster_wf_def)

lemma member_event:
  assumes "member ids i n" "event_ok e" "node_step e n = Some n'" "\<And>k d. e \<noteq> EvSnapshot k d"
  shows "member ids i n'"
  using assms(1) node_step_ids [OF assms(3)] node_step_wf [OF _ assms(2,3)]
    recover_file.step_no_snapshot [OF _ _ assms(2,3,4)]
  by (simp add: member_def)

lemma member_restart:
  assumes "member ids i n" "restart n = Some n'"
  shows "member ids i n' \<and> nd_currentTerm n' = nd_currentTerm n \<and> nd_votedFor n' = nd_votedFor n \<and>
    nd_log n' = nd_log n \<and> nd_role n' = Follower"
proof -
  from restart_recoverable [of n] assms(1) obtain m where m: "restart n = Some m" "nd_currentTerm m = nd_currentTerm n"
    "nd_votedFor m = nd_votedFor n" "nd_log m = nd_log n" "nd_role m = Follower" "nd_id m = nd_id n"
    "nd_peers m = nd_peers n" "recoverable m" by (auto simp: member_def)
  then have "n' = m" using assms(2) by simp
  with m show ?thesis using assms(1) by (auto simp: member_def node_wf_iff)
qed

text \<open>Requests for entries are built from the log of a leader.\<close>

definition sends :: "Node \<Rightarrow> (bytes \<times> AppendEntriesArgs) list \<Rightarrow> bool" where
  "sends n rpcs \<longleftrightarrow>
     (\<forall>(p, a)\<in>set rpcs. nd_role n = Leader \<and> p \<in> set (nd_peers n) \<and> sendAppendEntries p n = Some a)"

lemma sends_Nil [simp]: "sends n []"
  by (simp add: sends_def)

lemma all_some_set: "all_some xs = Some ys \<Longrightarrow> y \<in> set ys \<Longrightarrow> Some y \<in> set xs"
  by (induction xs arbitrary: ys) (auto split: option.splits)

lemma broadcast_sends: "nd_role n = Leader \<Longrightarrow> broadcastAppendEntries n = Some rpcs \<Longrightarrow> sends n rpcs"
  by (auto simp: sends_def broadcastAppendEntries_def map_option_case dest!: all_some_set split: option.splits)

lemma heartbeat_sends: "heartbeatTick n = Some rpcs \<Longrightarrow> sends n rpcs"
  by (auto simp: heartbeatTick_def broadcast_sends split: if_splits)

lemma onVoteReply_sends:
  assumes "onVoteReply t v r n = Some (v', n', rpcs)" shows "sends n' rpcs"
proof -
  have "sends n' rpcs" if "becomeLeader n = Some (n', rpcs)"
    using that by (intro broadcast_sends) (auto simp: becomeLeader_def Let_def)
  then show ?thesis using assms by (auto simp: onVoteReply_def split: if_splits)
qed

lemma onAppendReply_sends:
  assumes "onAppendReply p a r n = Some (n', rpcs)" "p \<in> set (nd_peers n)" shows "sends n' rpcs"
  using assms by (auto simp: onAppendReply_def Let_def sends_def split: if_splits)

lemma Propose_sends:
  assumes "Propose c n = Some (res, n', rpcs)" shows "sends n' rpcs"
proof (cases "nd_role n = Leader")
  case True
  then show ?thesis using assms by (auto simp: Propose_def Let_def intro!: broadcast_sends)
qed (use assms in \<open>simp add: Propose_def\<close>)

lemma sends_ok:
  assumes "sends n rpcs" "member ids i n" "i \<in> ids" "m \<in># app_reqs i rpcs"
  obtains p a where "m = AppReq i p a" "sendAppendEntries p n = Some a" "nd_role n = Leader" "p \<in> ids" "p \<noteq> i"
    "msg_ok ids m"
proof -
  from assms(1,4) obtain p a where pa: "m = AppReq i p a" "sendAppendEntries p n = Some a" "nd_role n = Leader"
    "p \<in> set (nd_peers n)" by (auto simp: app_reqs_def sends_def)
  moreover from pa(4) assms(2) have "p \<in> ids" "p \<noteq> i" by (auto simp: member_def)
  moreover have "ae_Term a < 2 ^ 64" "\<forall>e\<in>set (ae_Entries a). le_Term e < 2 ^ 64"
    using pa(2) assms(2)
    by (auto simp: sendAppendEntries_def Let_def member_def node_wf_iff split: if_splits dest!: in_set_dropD)
  ultimately show thesis using that assms(3) by simp
qed

text \<open>Every step keeps the configuration, the disks and the shape of the messages.\<close>

lemma member_vote_reply:
  assumes "onVoteReply t v r n = Some (v', n', rpcs)" "member ids i n" "rvr_Term r < 2 ^ 64"
  shows "member ids i n'"
  using member_event [OF assms(2), of "EvVoteReply t v r" n'] assms(1,3) by simp

lemma member_append_reply:
  assumes "onAppendReply p a r n = Some (n', rpcs)" "member ids i n" "aer_Term r < 2 ^ 64"
  shows "member ids i n'"
  using member_event [OF assms(2), of "EvAppendReply p a r" n'] assms(1,3) by simp

lemma member_propose:
  assumes "Propose c n = Some (res, n', rpcs)" "member ids i n"
  shows "member ids i n'"
  using member_event [OF assms(2), of "EvPropose c" n'] assms(1) by simp

lemma member_apply:
  assumes "applyStep n = Some (m, n')" "member ids i n"
  shows "member ids i n'"
  using member_event [OF assms(2), of EvApply n'] assms(1) by simp

lemma member_request_vote:
  assumes "HandleRequestVote now a n = (r, n')" "member ids i n" "rv_Term a < 2 ^ 64" "valid_utf8 (rv_CandidateId a)"
  shows "member ids i n'"
  using member_event [OF assms(2), of "EvRequestVote now a" n'] assms(1,3,4) by simp

lemma member_append_entries:
  assumes "HandleAppendEntries now a n = (r, n')" "member ids i n" "ae_Term a < 2 ^ 64"
    "\<forall>e\<in>set (ae_Entries a). le_Term e < 2 ^ 64"
  shows "member ids i n'"
  using member_event [OF assms(2), of "EvAppendEntries now a" n'] assms(1,3,4) by simp

lemma member_election:
  assumes "startElection now n = (n', rpcs)" "member ids i n"
  shows "member ids i n'"
  using member_event [OF assms(2), of "EvElection now" n'] assms(1) by simp

lemmas member_steps = member_vote_reply member_append_reply member_propose member_apply member_request_vote
  member_append_entries member_election member_restart

lemma startElection_sends:
  assumes "startElection now n = (n', rpcs)"
  shows "rpcs = map (\<lambda>p. (p, \<lparr>rv_Term = nd_currentTerm n', rv_CandidateId = nd_id n,
     rv_LastLogIndex = length (nd_log n) - 1, rv_LastLogTerm = le_Term (last (nd_log n))\<rparr>)) (nd_peers n)"
proof -
  have "n' = fst (startElection now n)" "rpcs = snd (startElection now n)" using assms by simp_all
  then show ?thesis by (simp add: startElection_node startElection_rpcs)
qed

lemma vote_reqs_ok:
  assumes "startElection now n = (n', rpcs)" "nd_id n = i" "set (nd_peers n) = ids - {i}" "i \<in> ids"
    "nd_currentTerm n' < 2 ^ 64" "x \<in># vote_reqs i rpcs"
  shows "msg_ok ids x"
proof -
  from assms(6) obtain p a where x: "x = VoteReq i p a" and pa: "(p, a) \<in> set rpcs" by (auto simp: vote_reqs_def)
  from pa have "p \<in> set (nd_peers n)" "rv_CandidateId a = i" "rv_Term a = nd_currentTerm n'"
    unfolding startElection_sends [OF assms(1)] using assms(2) by auto
  then show ?thesis using x assms(3-5) by simp
qed

lemma HandleRequestVote_term:
  "HandleRequestVote now a n = (r, n') \<Longrightarrow> nd_currentTerm n' = max (nd_currentTerm n) (rv_Term a) \<and> rvr_Term r = nd_currentTerm n'"
  by (auto simp: HandleRequestVote_def Let_def case_prod_beta max_def split: if_splits)

lemma HandleAppendEntries_reply_term:
  "HandleAppendEntries now a n = (r, n') \<Longrightarrow> aer_Term r = nd_currentTerm n'"
  by (auto simp: HandleAppendEntries_def Let_def case_prod_beta split: if_splits)

lemma member_term: "member ids i n \<Longrightarrow> nd_currentTerm n < 2 ^ 64"
  by (simp add: member_def node_wf_iff)

lemma cluster_step_wf:
  assumes "cluster_step ids C C'" "cluster_wf ids C"
  shows "cluster_wf ids C'"
  using assms(1)
proof cases
  case (election i now n rpcs)
  note m = cluster_wfD(4) [OF assms(2) election(2)]
  have n: "member ids i n" using member_steps(7) [OF election(5) m] .
  have "nd_id (cl_node C i) = i" "set (nd_peers (cl_node C i)) = ids - {i}" using m by (simp_all add: member_def)
  then have "msg_ok ids x" if "x \<in># vote_reqs i rpcs" for x
    using vote_reqs_ok [OF election(5) _ _ election(2) member_term [OF n] that] by blast
  with n show ?thesis
    by (intro wf_update [OF assms(2) election(2), of n]) (auto simp: election(1))
next
  case (heartbeat i rpcs)
  note m = cluster_wfD(4) [OF assms(2) heartbeat(2)]
  have "msg_ok ids x" if "x \<in># app_reqs i rpcs" for x
    using sends_ok [OF heartbeat_sends [OF heartbeat(3)] m heartbeat(2) that] by blast
  with m show ?thesis
    by (intro wf_update [OF assms(2) heartbeat(2), of "cl_node C i"]) (auto simp: heartbeat(1))
next
  case (vote_request c p a now r n)
  have ok: "c \<in> ids" "p \<in> ids" "p \<noteq> c" "rv_CandidateId a = c" "rv_Term a < 2 ^ 64"
    using cluster_wfD(5) [OF assms(2) vote_request(2)] by simp_all
  have n: "member ids p n"
    using member_steps(5) [OF vote_request(3) cluster_wfD(4) [OF assms(2) ok(2)] ok(5)] cluster_wfD(3) [OF assms(2) ok(1)] ok(4) by simp
  then have "msg_ok ids (VoteRep c p (rv_Term a) r)"
    using ok HandleRequestVote_term [OF vote_request(3)] member_term [OF n] by simp
  with n show ?thesis
    by (intro wf_update [OF assms(2) ok(2), of n]) (auto simp: vote_request(1) dest: in_diffD)
next
  case (vote_reply c p t r votes n rpcs)
  have ok: "c \<in> ids" "rvr_Term r < 2 ^ 64" using cluster_wfD(5) [OF assms(2) vote_reply(2)] by simp_all
  have n: "member ids c n"
    using member_steps(1) [OF vote_reply(3) cluster_wfD(4) [OF assms(2) ok(1)] ok(2)] .
  have "msg_ok ids x" if "x \<in># app_reqs c rpcs" for x
    using sends_ok [OF onVoteReply_sends [OF vote_reply(3)] n ok(1) that] by blast
  with n show ?thesis
    by (intro wf_update [OF assms(2) ok(1), of n]) (auto simp: vote_reply(1) dest: in_diffD)
next
  case (append_request l p a now r n)
  have ok: "l \<in> ids" "p \<in> ids" "p \<noteq> l" "ae_Term a < 2 ^ 64" "\<forall>e\<in>set (ae_Entries a). le_Term e < 2 ^ 64"
    using cluster_wfD(5) [OF assms(2) append_request(2)] by simp_all
  have n: "member ids p n"
    using member_steps(6) [OF append_request(3) cluster_wfD(4) [OF assms(2) ok(2)] ok(4,5)] .
  then have "msg_ok ids (AppRep l p a r)"
    using ok HandleAppendEntries_reply_term [OF append_request(3)] member_term [OF n] by simp
  with n show ?thesis
    by (intro wf_update [OF assms(2) ok(2), of n]) (auto simp: append_request(1) dest: in_diffD)
next
  case (append_reply l p a r n rpcs)
  have ok: "l \<in> ids" "p \<in> ids" "p \<noteq> l" "aer_Term r < 2 ^ 64"
    using cluster_wfD(5) [OF assms(2) append_reply(2)] by simp_all
  note m = cluster_wfD(4) [OF assms(2) ok(1)]
  have n: "member ids l n" using member_steps(2) [OF append_reply(3) m ok(4)] .
  have "p \<in> set (nd_peers (cl_node C l))" using m ok by (simp add: member_def)
  then have "msg_ok ids x" if "x \<in># app_reqs l rpcs" for x
    using sends_ok [OF onAppendReply_sends [OF append_reply(3)] n ok(1) that] by blast
  with n show ?thesis
    by (intro wf_update [OF assms(2) ok(1), of n]) (auto simp: append_reply(1) dest: in_diffD)
next
  case (propose i c res n rpcs)
  have n: "member ids i n" using member_steps(3) [OF propose(3) cluster_wfD(4) [OF assms(2) propose(2)]] .
  have "msg_ok ids x" if "x \<in># app_reqs i rpcs" for x
    using sends_ok [OF Propose_sends [OF propose(3)] n propose(2) that] by blast
  with n show ?thesis
    by (intro wf_update [OF assms(2) propose(2), of n]) (auto simp: propose(1))
next
  case (apply_entry i m n)
  have "member ids i n" using member_steps(4) [OF apply_entry(3) cluster_wfD(4) [OF assms(2) apply_entry(2)]] .
  then show ?thesis by (intro wf_update [OF assms(2) apply_entry(2), of n]) (auto simp: apply_entry(1))
next
  case (restarted i n)
  have "member ids i n" using member_steps(8) [OF cluster_wfD(4) [OF assms(2) restarted(2)] restarted(3)] by simp
  then show ?thesis by (intro wf_update [OF assms(2) restarted(2), of n]) (auto simp: restarted(1))
next
  case (lost m)
  then show ?thesis using assms(2) by (auto simp: cluster_wf_def dest: in_diffD)
qed

lemma fresh_node_member:
  assumes "fresh_node ids i n" "valid_utf8 i"
  shows "member ids i n" "nd_currentTerm n = 0" "nd_role n = Follower" "nd_log n = [sentinel 0]" "nd_commitIndex n = 0"
proof -
  from assms(1) obtain ps sp snp fs where f: "NewNode i ps sp snp fs = Some n" "distinct ps" "set ps = ids - {i}"
    "disk_ok n" "snp \<noteq> sp @ tmp_suffix" "fs_files fs sp = None" "fs_files fs snp = None" by (auto simp: fresh_node_def)
  let ?b = "blank_node i ps sp snp fs"
  have l: "loadSnapshot ?b = ?b" using f(7) by (simp add: loadSnapshot_absent)
  have "restoreState ?b = None \<or> restoreState ?b = Some ?b" using f(6) by (auto simp: restoreState_def os_Open_def)
  then have n: "n = ?b" using f(1) l by (auto simp: NewNode_def Let_def)
  show "member ids i n" "nd_currentTerm n = 0" "nd_role n = Follower" "nd_log n = [sentinel 0]" "nd_commitIndex n = 0"
    using f assms(2) by (simp_all add: n member_def node_wf_iff valid_utf8_Nil recoverable_def sentinel_def)
    (simp add: blank_node_def)
qed

lemma cluster_init_wf: "cluster_init ids C \<Longrightarrow> cluster_wf ids C"
  using fresh_node_member(1) by (auto simp: cluster_init_def cluster_wf_def)

section \<open>Lemmas: votes\<close>

text \<open>
  The calls of the election of \<open>c\<close> in term \<open>t\<close> to \<open>p\<close> that are in flight, and the invariant of elections:
  a vote cast is remembered by \<^verbatim>\<open>votedFor\<close> until the voter hears a leader of the term, every voter is
  counted at most once, and a leader has counted a majority.
\<close>

abbreviation (input) node_term :: "cluster \<Rightarrow> bytes \<Rightarrow> nat" where
  "node_term C i \<equiv> nd_currentTerm (cl_node C i)"

fun is_vote :: "bytes \<Rightarrow> nat \<Rightarrow> bytes \<Rightarrow> message \<Rightarrow> bool" where
  "is_vote c t p (VoteReq c' p' a) \<longleftrightarrow> c' = c \<and> p' = p \<and> rv_Term a = t"
| "is_vote c t p (VoteRep c' p' t' r) \<longleftrightarrow> c' = c \<and> p' = p \<and> t' = t"
| "is_vote c t p _ \<longleftrightarrow> False"

definition in_flight :: "bytes \<Rightarrow> nat \<Rightarrow> bytes \<Rightarrow> message multiset \<Rightarrow> nat" where
  "in_flight c t p M = size (filter_mset (is_vote c t p) M)"

lemma in_flight_add [simp]: "in_flight c t p (M + M') = in_flight c t p M + in_flight c t p M'"
  by (simp add: in_flight_def)

lemma in_flight_single [simp]: "in_flight c t p {#m#} = (if is_vote c t p m then 1 else 0)"
  by (simp add: in_flight_def)

lemma in_flight_add_mset [simp]:
  "in_flight c t p (add_mset m M) = in_flight c t p M + (if is_vote c t p m then 1 else 0)"
  by (simp add: in_flight_def)

lemma in_flight_remove: "m \<in># M \<Longrightarrow> in_flight c t p (M - {#m#}) + in_flight c t p {#m#} = in_flight c t p M"
  by (metis in_flight_add insert_DiffM2)

lemma in_flight_app_reqs [simp]: "in_flight c t p (app_reqs i rpcs) = 0"
  by (induction rpcs) (auto simp: in_flight_def app_reqs_def)

lemma app_reqs_no_votes [simp]: "VoteRep c p t r \<notin># app_reqs i rpcs" "VoteReq c p a \<notin># app_reqs i rpcs"
  by (auto simp: app_reqs_def)

lemma in_flight_empty [simp]: "in_flight c t p {#} = 0"
  by (simp add: in_flight_def)

lemma in_flight_pos: "m \<in># M \<Longrightarrow> is_vote c t p m \<Longrightarrow> 0 < in_flight c t p M"
  using in_flight_remove [of m M c t p] by simp

definition casts_ok :: "bytes set \<Rightarrow> cluster \<Rightarrow> bool" where
  "casts_ok ids C \<longleftrightarrow>
     (\<forall>p t c. (p, t, c) \<in> cl_cast C \<longrightarrow> p \<in> ids \<and> c \<in> ids \<and> t \<le> node_term C p \<and>
        (t = node_term C p \<and> (p, t) \<notin> cl_heard C \<longrightarrow> nd_votedFor (cl_node C p) = c))"

definition casts_unique :: "cluster \<Rightarrow> bool" where
  "casts_unique C \<longleftrightarrow>
     (\<forall>p t c c'. (p, t, c) \<in> cl_cast C \<longrightarrow> (p, t, c') \<in> cl_cast C \<longrightarrow> c \<noteq> c' \<longrightarrow> (p, t) \<in> cl_heard C)"

definition voters_ok :: "cluster \<Rightarrow> bool" where
  "voters_ok C \<longleftrightarrow>
     (\<forall>c t. distinct (cl_voters C c t) \<and> (\<forall>p\<in>set (cl_voters C c t). (p, t, c) \<in> cl_cast C \<and> p \<noteq> c))"

definition counting_ok :: "cluster \<Rightarrow> bool" where
  "counting_ok C \<longleftrightarrow>
     (\<forall>c t p. in_flight c t p (cl_net C) + (if p \<in> set (cl_voters C c t) then 1 else 0) \<le> 1 \<and>
        (0 < in_flight c t p (cl_net C) \<or> p \<in> set (cl_voters C c t) \<longrightarrow> t \<le> node_term C c))"

definition grants_ok :: "cluster \<Rightarrow> bool" where
  "grants_ok C \<longleftrightarrow>
     (\<forall>c p t r. VoteRep c p t r \<in># cl_net C \<longrightarrow> rvr_VoteGranted r \<longrightarrow> (p, t, c) \<in> cl_cast C)"

definition roles_ok :: "bytes set \<Rightarrow> cluster \<Rightarrow> bool" where
  "roles_ok ids C \<longleftrightarrow>
     (\<forall>c\<in>ids. (nd_role (cl_node C c) \<noteq> Follower \<longrightarrow> (c, node_term C c, c) \<in> cl_cast C) \<and>
        (nd_role (cl_node C c) = Leader \<longrightarrow> (c, node_term C c) \<in> cl_led C))"

definition led_ok :: "bytes set \<Rightarrow> cluster \<Rightarrow> bool" where
  "led_ok ids C \<longleftrightarrow>
     (\<forall>c t. (c, t) \<in> cl_led C \<longrightarrow> c \<in> ids \<and> (c, t, c) \<in> cl_cast C \<and>
        card ids div 2 + 1 \<le> Suc (length (cl_voters C c t)))"

definition votes_ok :: "bytes set \<Rightarrow> cluster \<Rightarrow> bool" where
  "votes_ok ids C \<longleftrightarrow>
     casts_ok ids C \<and> casts_unique C \<and> voters_ok C \<and> counting_ok C \<and> grants_ok C \<and> roles_ok ids C \<and> led_ok ids C"

lemma votes_okD:
  assumes "votes_ok ids C"
  shows "(p, t, c) \<in> cl_cast C \<Longrightarrow> p \<in> ids \<and> c \<in> ids \<and> t \<le> node_term C p"
    and "(p, t, c) \<in> cl_cast C \<Longrightarrow> t = node_term C p \<Longrightarrow> (p, t) \<notin> cl_heard C \<Longrightarrow> nd_votedFor (cl_node C p) = c"
    and "(p, t, c) \<in> cl_cast C \<Longrightarrow> (p, t, c') \<in> cl_cast C \<Longrightarrow> c \<noteq> c' \<Longrightarrow> (p, t) \<in> cl_heard C"
    and "distinct (cl_voters C c t)"
    and "p \<in> set (cl_voters C c t) \<Longrightarrow> (p, t, c) \<in> cl_cast C \<and> p \<noteq> c"
    and "in_flight c t p (cl_net C) + (if p \<in> set (cl_voters C c t) then 1 else 0) \<le> 1"
    and "VoteRep c p t r \<in># cl_net C \<Longrightarrow> rvr_VoteGranted r \<Longrightarrow> (p, t, c) \<in> cl_cast C"
    and "0 < in_flight c t p (cl_net C) \<or> p \<in> set (cl_voters C c t) \<Longrightarrow> t \<le> node_term C c"
    and "c \<in> ids \<Longrightarrow> nd_role (cl_node C c) \<noteq> Follower \<Longrightarrow> (c, node_term C c, c) \<in> cl_cast C"
    and "c \<in> ids \<Longrightarrow> nd_role (cl_node C c) = Leader \<Longrightarrow> (c, node_term C c) \<in> cl_led C"
    and "(c, t) \<in> cl_led C \<Longrightarrow> c \<in> ids \<and> (c, t, c) \<in> cl_cast C \<and> card ids div 2 + 1 \<le> Suc (length (cl_voters C c t))"
proof -
  have a: "casts_ok ids C" "casts_unique C" "voters_ok C" "counting_ok C" "grants_ok C" "roles_ok ids C" "led_ok ids C"
    using assms by (simp_all add: votes_ok_def)
  show "(p, t, c) \<in> cl_cast C \<Longrightarrow> p \<in> ids \<and> c \<in> ids \<and> t \<le> node_term C p"
    "(p, t, c) \<in> cl_cast C \<Longrightarrow> t = node_term C p \<Longrightarrow> (p, t) \<notin> cl_heard C \<Longrightarrow> nd_votedFor (cl_node C p) = c"
    using a(1) by (simp_all add: casts_ok_def)
  show "(p, t, c) \<in> cl_cast C \<Longrightarrow> (p, t, c') \<in> cl_cast C \<Longrightarrow> c \<noteq> c' \<Longrightarrow> (p, t) \<in> cl_heard C"
    using a(2) unfolding casts_unique_def by blast
  show "distinct (cl_voters C c t)" "p \<in> set (cl_voters C c t) \<Longrightarrow> (p, t, c) \<in> cl_cast C \<and> p \<noteq> c"
    using a(3) by (simp_all add: voters_ok_def)
  show "in_flight c t p (cl_net C) + (if p \<in> set (cl_voters C c t) then 1 else 0) \<le> 1"
    "0 < in_flight c t p (cl_net C) \<or> p \<in> set (cl_voters C c t) \<Longrightarrow> t \<le> node_term C c"
    using a(4) unfolding counting_ok_def by blast+
  show "VoteRep c p t r \<in># cl_net C \<Longrightarrow> rvr_VoteGranted r \<Longrightarrow> (p, t, c) \<in> cl_cast C"
    using a(5) unfolding grants_ok_def by blast
  show "c \<in> ids \<Longrightarrow> nd_role (cl_node C c) \<noteq> Follower \<Longrightarrow> (c, node_term C c, c) \<in> cl_cast C"
    "c \<in> ids \<Longrightarrow> nd_role (cl_node C c) = Leader \<Longrightarrow> (c, node_term C c) \<in> cl_led C"
    using a(6) by (simp_all add: roles_ok_def)
  show "(c, t) \<in> cl_led C \<Longrightarrow> c \<in> ids \<and> (c, t, c) \<in> cl_cast C \<and> card ids div 2 + 1 \<le> Suc (length (cl_voters C c t))"
    using a(7) unfolding led_ok_def by blast
qed

lemma counting_ok_mono:
  assumes "counting_ok C" "\<And>c t p. in_flight c t p (cl_net C') \<le> in_flight c t p (cl_net C)"
    "cl_voters C' = cl_voters C" "\<And>d. node_term C d \<le> node_term C' d"
  shows "counting_ok C'"
  unfolding counting_ok_def
proof (intro allI conjI impI)
  fix c t p
  have D: "in_flight c t p (cl_net C) + (if p \<in> set (cl_voters C c t) then 1 else 0) \<le> 1"
    "0 < in_flight c t p (cl_net C) \<or> p \<in> set (cl_voters C c t) \<Longrightarrow> t \<le> node_term C c"
    using assms(1) unfolding counting_ok_def by blast+
  show "in_flight c t p (cl_net C') + (if p \<in> set (cl_voters C' c t) then 1 else 0) \<le> 1"
    using D(1) assms(2) [of c t p] by (simp add: assms(3))
  show "t \<le> node_term C' c" if "0 < in_flight c t p (cl_net C') \<or> p \<in> set (cl_voters C' c t)"
    using D(2) assms(2) [of c t p] that assms(4) [of c] by (auto simp: assms(3))
qed

text \<open>A step that casts and counts no vote, and forgets one only when it hears a leader.\<close>

lemma votes_ok_quiet:
  assumes "votes_ok ids C"
    and node: "cl_node C' = (cl_node C)(i := n)" "nd_currentTerm (cl_node C i) \<le> nd_currentTerm n"
      "nd_currentTerm n = nd_currentTerm (cl_node C i) \<Longrightarrow> (i, nd_currentTerm n) \<notin> cl_heard C' \<Longrightarrow>
         nd_votedFor n = nd_votedFor (cl_node C i)"
      "nd_role n \<noteq> Follower \<Longrightarrow> nd_role n = nd_role (cl_node C i) \<and> nd_currentTerm n = nd_currentTerm (cl_node C i)"
    and hist: "cl_cast C' = cl_cast C" "cl_heard C \<subseteq> cl_heard C'" "cl_voters C' = cl_voters C" "cl_led C' = cl_led C"
    and net: "\<And>c t p. in_flight c t p (cl_net C') \<le> in_flight c t p (cl_net C)"
      "\<And>c p t r. VoteRep c p t r \<in># cl_net C' \<Longrightarrow> rvr_VoteGranted r \<Longrightarrow> (p, t, c) \<in> cl_cast C"
  shows "votes_ok ids C'"
proof -
  note D = votes_okD [OF assms(1)]
  have le: "node_term C j \<le> node_term C' j" for j using node(1,2) by simp
  have "counting_ok C'"
    by (rule counting_ok_mono [OF _ net(1) hist(3) le]) (use assms(1) in \<open>simp add: votes_ok_def\<close>)
  moreover have "casts_ok ids C'" unfolding casts_ok_def
  proof (intro allI impI conjI)
    fix p t c
    assume cast: "(p, t, c) \<in> cl_cast C'"
    show "p \<in> ids" "c \<in> ids" "t \<le> node_term C' p" using D(1) [of p t c] cast le [of p] by (auto simp: hist)
    assume a: "t = node_term C' p \<and> (p, t) \<notin> cl_heard C'"
    then have t: "t = node_term C p" using D(1) [of p t c] cast le [of p] by (simp add: hist)
    have "(p, t) \<notin> cl_heard C" using a hist(2) by blast
    then have "nd_votedFor (cl_node C p) = c" using D(2) [of p t c] cast t by (simp add: hist)
    moreover have "nd_votedFor (cl_node C' p) = nd_votedFor (cl_node C p)"
      using node(1,3) a t by (cases "p = i") auto
    ultimately show "nd_votedFor (cl_node C' p) = c" by simp
  qed
  moreover have "roles_ok ids C'" unfolding roles_ok_def
  proof (intro ballI conjI impI)
    fix c assume "c \<in> ids"
    then show "nd_role (cl_node C' c) \<noteq> Follower \<Longrightarrow> (c, node_term C' c, c) \<in> cl_cast C'"
      "nd_role (cl_node C' c) = Leader \<Longrightarrow> (c, node_term C' c) \<in> cl_led C'"
      using D(9,10) [of c] node(1,4) by (cases "c = i"; simp add: hist)+
  qed
  moreover have "casts_unique C'" using D(3) hist(1,2) unfolding casts_unique_def by blast
  moreover have "voters_ok C'" using D(4,5) by (simp add: voters_ok_def hist)
  moreover have "led_ok ids C'" using D(11) by (simp add: led_ok_def hist)
  moreover have "grants_ok C'" using net(2) by (simp add: grants_ok_def hist)
  ultimately show ?thesis by (simp add: votes_ok_def)
qed

text \<open>A vote cast by \<open>i\<close> for \<open>c\<close>: its own candidacy in a new term, or a granted request.\<close>

lemma votes_ok_cast:
  assumes "votes_ok ids C" "[] \<notin> ids" "i \<in> ids" "c \<in> ids"
    and node: "cl_node C' = (cl_node C)(i := n)" "nd_currentTerm (cl_node C i) \<le> nd_currentTerm n" "nd_votedFor n = c"
      "nd_role n = Leader \<Longrightarrow> nd_role (cl_node C i) = Leader \<and> nd_currentTerm n = nd_currentTerm (cl_node C i)"
      "nd_role n = Candidate \<Longrightarrow> c = i \<or> nd_role (cl_node C i) = Candidate \<and> nd_currentTerm n = nd_currentTerm (cl_node C i)"
    and free: "nd_currentTerm n = nd_currentTerm (cl_node C i) \<Longrightarrow>
         nd_votedFor (cl_node C i) = [] \<or> nd_votedFor (cl_node C i) = c"
    and hist: "cl_cast C' = insert (i, nd_currentTerm n, c) (cl_cast C)" "cl_heard C' = cl_heard C"
      "cl_voters C' = cl_voters C" "cl_led C' = cl_led C"
    and net: "counting_ok C'" "grants_ok C'"
  shows "votes_ok ids C'"
proof -
  note D = votes_okD [OF assms(1)]
  let ?t = "nd_currentTerm n"
  have le: "node_term C j \<le> node_term C' j" for j using node(1,2) by simp
  have same: "d = c" if "(i, ?t, d) \<in> cl_cast C" "(i, ?t) \<notin> cl_heard C" for d
  proof -
    have "?t = nd_currentTerm (cl_node C i)" using D(1) [OF that(1)] node(2) by simp
    moreover have "d \<noteq> []" using D(1) [OF that(1)] assms(2) by auto
    ultimately show ?thesis using D(2) [OF that(1) _ that(2)] free by auto
  qed
  have "casts_ok ids C'" unfolding casts_ok_def
  proof (intro allI impI conjI)
    fix p t d
    assume cast: "(p, t, d) \<in> cl_cast C'"
    show "p \<in> ids" "d \<in> ids" using cast D(1) [of p t d] assms(3,4) by (auto simp: hist)
    show t: "t \<le> node_term C' p" using cast D(1) [of p t d] le [of p] node(1) by (auto simp: hist)
    assume a: "t = node_term C' p \<and> (p, t) \<notin> cl_heard C'"
    show "nd_votedFor (cl_node C' p) = d"
    proof (cases "p = i")
      case True
      then have "d = c" using cast a same [of d] node(1) by (auto simp: hist)
      then show ?thesis using True node by simp
    next
      case False
      then show ?thesis using cast a D(2) [of p t d] node(1) by (auto simp: hist)
    qed
  qed
  moreover have "casts_unique C'" unfolding casts_unique_def
  proof (intro allI impI)
    fix p t d d'
    assume "(p, t, d) \<in> cl_cast C'" "(p, t, d') \<in> cl_cast C'" "d \<noteq> d'"
    then show "(p, t) \<in> cl_heard C'" using D(3) [of p t d d'] same [of d] same [of d'] by (auto simp: hist)
  qed
  moreover have "voters_ok C'" using D(4,5) by (simp add: voters_ok_def hist)
  moreover have "roles_ok ids C'" unfolding roles_ok_def
  proof (intro ballI conjI impI)
    fix d assume d: "d \<in> ids"
    show "(d, node_term C' d, d) \<in> cl_cast C'" if "nd_role (cl_node C' d) \<noteq> Follower"
      using D(9) [OF d] that node(1,4,5) by (cases "d = i"; cases "nd_role n") (auto simp: hist)
    show "(d, node_term C' d) \<in> cl_led C'" if "nd_role (cl_node C' d) = Leader"
      using D(10) [OF d] that node(1,4) by (cases "d = i") (simp_all add: hist)
  qed
  moreover have "led_ok ids C'" using D(11) by (simp add: led_ok_def hist)
  ultimately show ?thesis using net by (simp add: votes_ok_def)
qed

text \<open>A vote counted by candidate \<open>c\<close>, which may make it the leader.\<close>

lemma votes_ok_count:
  assumes "votes_ok ids C" "c \<in> ids" "p \<noteq> c" "VoteRep c p t r \<in># cl_net C" "rvr_VoteGranted r"
    and node: "cl_node C' = (cl_node C)(c := n)" "nd_currentTerm n = t" "nd_currentTerm (cl_node C c) = t"
      "nd_votedFor n = nd_votedFor (cl_node C c)" "nd_role (cl_node C c) = Candidate"
      "nd_role n = Leader \<Longrightarrow> card ids div 2 + 1 \<le> Suc (Suc (length (cl_voters C c t)))"
    and hist: "cl_cast C' = cl_cast C" "cl_heard C' = cl_heard C"
      "cl_voters C' = (cl_voters C)(c := (cl_voters C c)(t := p # cl_voters C c t))"
      "cl_led C' = (if nd_role n = Leader then insert (c, t) (cl_led C) else cl_led C)"
    and net: "cl_net C' = cl_net C - {#VoteRep c p t r#} + app_reqs c rpcs"
  shows "votes_ok ids C'"
proof -
  note D = votes_okD [OF assms(1)]
  have pos: "0 < in_flight c t p (cl_net C)" using assms(4) by (rule in_flight_pos) simp
  have new: "p \<notin> set (cl_voters C c t)" using D(6) [of c t p] pos by (auto split: if_splits)
  have fl: "in_flight d u q (cl_net C') + (if d = c \<and> u = t \<and> q = p then 1 else 0) = in_flight d u q (cl_net C)" for d u q
    using in_flight_remove [OF assms(4), of d u q] by (auto simp: net)
  have tm: "node_term C' d = node_term C d" for d using node(1-3) by simp
  have "counting_ok C'" unfolding counting_ok_def
  proof (intro allI conjI impI)
    fix d u q
    show "in_flight d u q (cl_net C') + (if q \<in> set (cl_voters C' d u) then 1 else 0) \<le> 1"
      using D(6) [of d u q] fl [of d u q] new by (auto simp: hist split: if_splits)
    show "u \<le> node_term C' d" if "0 < in_flight d u q (cl_net C') \<or> q \<in> set (cl_voters C' d u)"
      using D(8) [of d u q] fl [of d u q] that node(3) by (auto simp: hist tm split: if_splits)
  qed
  moreover have "nd_votedFor (cl_node C' d) = nd_votedFor (cl_node C d)" for d using node(1,4) by simp
  then have "casts_ok ids C'" using D(1,2) unfolding casts_ok_def hist tm by metis
  moreover have "casts_unique C'" using D(3) unfolding casts_unique_def hist by blast
  moreover have "voters_ok C'" using D(4,5) D(7) [OF assms(4,5)] new assms(3) by (auto simp: voters_ok_def hist)
  moreover have "grants_ok C'"
    using D(7) by (auto simp: grants_ok_def hist net app_reqs_def dest: in_diffD)
  moreover have self: "(c, t, c) \<in> cl_cast C" using D(9) [OF assms(2)] node(3,5) by simp
  then have "roles_ok ids C'" using D(9,10) node(1-3,5) by (auto simp: roles_ok_def hist)
  moreover have "led_ok ids C'" unfolding led_ok_def
  proof (intro allI impI)
    fix d u assume led: "(d, u) \<in> cl_led C'"
    show "d \<in> ids \<and> (d, u, d) \<in> cl_cast C' \<and> card ids div 2 + 1 \<le> Suc (length (cl_voters C' d u))"
      using D(11) [of d u] led node(6) assms(2) self by (auto simp: hist split: if_splits)
  qed
  ultimately show ?thesis by (simp add: votes_ok_def)
qed

lemma in_flight_vote_reqs:
  assumes "startElection now n = (n', rpcs)" "distinct (nd_peers n)"
  shows "in_flight c t p (vote_reqs i rpcs) = (if c = i \<and> t = nd_currentTerm n' \<and> p \<in> set (nd_peers n) then 1 else 0)"
proof -
  have "in_flight c t p (mset (map (\<lambda>q. VoteReq i q a) ps)) = (if c = i \<and> t = rv_Term a \<and> p \<in> set ps then 1 else 0)"
    if "distinct ps" for ps a
    using that by (induction ps) (auto simp: in_flight_def)
  from this [OF assms(2)] show ?thesis
    unfolding vote_reqs_def startElection_sends [OF assms(1)] by (simp add: comp_def)
qed

text \<open>What the handlers do to term, vote and role when no vote is cast or counted.\<close>

definition keeps_vote :: "Node \<Rightarrow> Node \<Rightarrow> bool" where
  "keeps_vote n n' \<longleftrightarrow>
     nd_currentTerm n \<le> nd_currentTerm n' \<and>
     (nd_currentTerm n' = nd_currentTerm n \<longrightarrow> nd_votedFor n' = nd_votedFor n) \<and>
     (nd_role n' \<noteq> Follower \<longrightarrow> nd_role n' = nd_role n \<and> nd_currentTerm n' = nd_currentTerm n)"

lemma keeps_vote_refl [simp]: "keeps_vote n n"
  by (simp add: keeps_vote_def)

lemma keeps_vote_follower: "nd_currentTerm n < t \<Longrightarrow> keeps_vote n (becomeFollower t n)"
  by (simp add: keeps_vote_def)

lemma keeps_vote_append_reply: "onAppendReply p a r n = Some (n', rpcs) \<Longrightarrow> keeps_vote n n'"
  by (erule onAppendReply_cases) (simp_all add: keeps_vote_def)

lemma keeps_vote_propose: "Propose c n = Some (res, n', rpcs) \<Longrightarrow> keeps_vote n n'"
  by (cases res, simp, erule Propose_cases) (simp_all add: keeps_vote_def)

lemma keeps_vote_apply: "applyStep n = Some (m, n') \<Longrightarrow> keeps_vote n n'"
  by (auto simp: applyStep_def Let_def keeps_vote_def split: if_splits)

lemma keeps_vote_refused:
  "HandleRequestVote now a n = (r, n') \<Longrightarrow> \<not> rvr_VoteGranted r \<Longrightarrow> keeps_vote n n'"
  by (cases rule: HandleRequestVote_cases [of now a n]) (auto simp: keeps_vote_follower)

lemma votes_ok_keeps:
  assumes "votes_ok ids C" "keeps_vote (cl_node C i) n" "cl_node C' = (cl_node C)(i := n)"
    "cl_cast C' = cl_cast C" "cl_heard C' = cl_heard C" "cl_voters C' = cl_voters C" "cl_led C' = cl_led C"
    "\<And>c t p. in_flight c t p (cl_net C') \<le> in_flight c t p (cl_net C)"
    "\<And>c p t r. VoteRep c p t r \<in># cl_net C' \<Longrightarrow> rvr_VoteGranted r \<Longrightarrow> VoteRep c p t r \<in># cl_net C"
  shows "votes_ok ids C'"
proof (rule votes_ok_quiet [OF assms(1,3)])
  show "(p, t, c) \<in> cl_cast C" if "VoteRep c p t r \<in># cl_net C'" "rvr_VoteGranted r" for c p t r
    using votes_okD(7) [OF assms(1) assms(9) [OF that] that(2)] .
qed (use assms(2,4-8) in \<open>auto simp: keeps_vote_def\<close>)

lemma in_flight_take: "in_flight c t p (M - {#m#}) \<le> in_flight c t p M"
  using in_flight_remove [of m M c t p] by (cases "m \<in># M") (simp_all add: diff_single_trivial)

lemma cluster_step_votes:
  assumes "cluster_step ids C C'" "cluster_wf ids C" "votes_ok ids C"
  shows "votes_ok ids C'"
  using assms(1)
proof cases
  case (election i now n rpcs)
  note m = cluster_wfD(4) [OF assms(2) election(2)] and D = votes_okD [OF assms(3)]
  have n: "nd_currentTerm n = Suc (node_term C i)" "nd_votedFor n = i" "nd_role n = Candidate"
    using startElection_node [of now "cl_node C i"] election(4,5) m by (simp_all add: member_def)
  have fl: "in_flight c t p (vote_reqs i rpcs) = (if c = i \<and> t = nd_currentTerm n \<and> p \<in> set (nd_peers (cl_node C i)) then 1 else 0)"
    for c t p using in_flight_vote_reqs [OF election(5)] m by (simp add: member_def)
  have none: "in_flight i (nd_currentTerm n) p (cl_net C) = 0 \<and> p \<notin> set (cl_voters C i (nd_currentTerm n))" for p
    using D(8) [of i "nd_currentTerm n" p] n(1) by (metis Suc_n_not_le_n gr0I)
  have "counting_ok C'" unfolding counting_ok_def
  proof (intro allI conjI impI)
    fix c t p
    show "in_flight c t p (cl_net C') + (if p \<in> set (cl_voters C' c t) then 1 else 0) \<le> 1"
      using D(6) [of c t p] fl [of c t p] none [of p] by (auto simp: election(1))
    show "t \<le> node_term C' c" if "0 < in_flight c t p (cl_net C') \<or> p \<in> set (cl_voters C' c t)"
      using D(8) [of c t p] fl [of c t p] that n(1) by (auto simp: election(1) split: if_splits)
  qed
  moreover have "grants_ok C'" using D(7) by (auto simp: grants_ok_def election(1) vote_reqs_def)
  ultimately show ?thesis
    using election(2) n cluster_wfD(2) [OF assms(2)]
    by (intro votes_ok_cast [OF assms(3), of i i C' n]) (simp_all add: election(1))
next
  case (heartbeat i rpcs)
  then show ?thesis
    by (intro votes_ok_keeps [OF assms(3), of i "cl_node C i"]) auto
next
  case (vote_request c p a now r n)
  note D = votes_okD [OF assms(3)]
  have ok: "c \<in> ids" "p \<in> ids" "p \<noteq> c" "rv_CandidateId a = c" "rv_Term a < 2 ^ 64"
    using cluster_wfD(5) [OF assms(2) vote_request(2)] by simp_all
  have fl: "in_flight d t q (cl_net C') = in_flight d t q (cl_net C)" for d t q
    using in_flight_remove [OF vote_request(2), of d t q] by (simp add: vote_request(1))
  show ?thesis
  proof (cases "rvr_VoteGranted r")
    case False
    then show ?thesis using keeps_vote_refused [OF vote_request(3)] fl
      by (intro votes_ok_keeps [OF assms(3), of p n]) (auto simp: vote_request(1) dest: in_diffD)
  next
    case True
    then obtain n1 where g: "node_term C p \<le> rv_Term a"
      "n1 = (if rv_Term a > node_term C p then becomeFollower (rv_Term a) (cl_node C p) else cl_node C p)"
      "n = (snd (persist (n1\<lparr>nd_votedFor := c\<rparr>)))\<lparr>nd_lastHeartbeat := now\<rparr>" "nd_votedFor n1 = [] \<or> nd_votedFor n1 = c"
      by (cases rule: HandleRequestVote_cases [of now a "cl_node C p"]) (use vote_request(3) ok(4) in auto)
    have n: "nd_currentTerm n = rv_Term a" "nd_votedFor n = c" "nd_role n = nd_role n1" using g by simp_all
    have "0 < in_flight c (rv_Term a) p (cl_net C)" using vote_request(2) by (rule in_flight_pos) simp
    have tm: "node_term C d \<le> node_term C' d" for d using g(1) n(1) by (simp add: vote_request(1))
    have "counting_ok C'"
      by (rule counting_ok_mono [OF _ _ _ tm])
        (use assms(3) in \<open>simp_all only: votes_ok_def fl order.refl\<close>, simp add: vote_request(1))
    moreover have "grants_ok C'" using D(7) by (auto simp: grants_ok_def vote_request(1) dest: in_diffD)
    moreover have role: "nd_role n \<noteq> Follower \<Longrightarrow> nd_role n = nd_role (cl_node C p) \<and> nd_currentTerm n = node_term C p"
      using g(1,2) n(1,3) by (auto split: if_splits)
    moreover have "nd_currentTerm n = node_term C p \<Longrightarrow> nd_votedFor (cl_node C p) = [] \<or> nd_votedFor (cl_node C p) = c"
      using g(2,4) n(1) by (auto split: if_splits)
    moreover have "cl_cast C' = insert (p, nd_currentTerm n, c) (cl_cast C)" using True n(1) by (simp add: vote_request(1))
    ultimately show ?thesis
      using g(1) n(1,2)
      by (intro votes_ok_cast [OF assms(3) cluster_wfD(2) [OF assms(2)] ok(2,1), of C' n]) (simp_all add: vote_request(1))
  qed
next
  case (append_request l p a now r n)
  have fl: "in_flight d t q (cl_net C') = in_flight d t q (cl_net C)" for d t q
    using in_flight_remove [OF append_request(2), of d t q] by (simp add: append_request(1))
  have n: "node_term C p \<le> nd_currentTerm n" "n = cl_node C p \<or> node_term C p \<le> ae_Term a \<and> nd_currentTerm n = ae_Term a \<and> nd_role n = Follower"
    using append_request(3) by (cases rule: HandleAppendEntries_cases [of a "cl_node C p" now]; simp)+
  show ?thesis
    by (rule votes_ok_quiet [OF assms(3), of _ p n])
      (use n fl votes_okD(7) [OF assms(3)] in \<open>auto simp: append_request(1) dest: in_diffD\<close>)
next
  case (append_reply l p a r n rpcs)
  have "in_flight d u q (cl_net C') \<le> in_flight d u q (cl_net C)" for d u q
    using in_flight_take [of d u q "cl_net C + app_reqs l rpcs" "AppRep l p a r"] append_reply(2)
    by (simp add: append_reply(1))
  then show ?thesis using keeps_vote_append_reply [OF append_reply(3)]
    by (intro votes_ok_keeps [OF assms(3), of l n]) (auto simp: append_reply(1) dest: in_diffD)
next
  case (propose i c res n rpcs)
  then show ?thesis using keeps_vote_propose [OF propose(3)]
    by (intro votes_ok_keeps [OF assms(3), of i n]) auto
next
  case (apply_entry i m n)
  then show ?thesis using keeps_vote_apply [OF apply_entry(3)]
    by (intro votes_ok_keeps [OF assms(3), of i n]) auto
next
  case (restarted i n)
  have "keeps_vote (cl_node C i) n"
    using member_restart [OF cluster_wfD(4) [OF assms(2) restarted(2)] restarted(3)] by (simp add: keeps_vote_def)
  then show ?thesis by (intro votes_ok_keeps [OF assms(3), of i n]) (auto simp: restarted(1))
next
  case (lost m)
  then show ?thesis
    by (intro votes_ok_keeps [OF assms(3), of i "cl_node C i" for i]) (auto simp: in_flight_take dest: in_diffD)
next
  case (vote_reply c p t r votes n rpcs)
  note D = votes_okD [OF assms(3)]
  have ok: "c \<in> ids" "p \<in> ids" "p \<noteq> c" using cluster_wfD(5) [OF assms(2) vote_reply(2)] by simp_all
  note m = cluster_wfD(4) [OF assms(2) ok(1)]
  have needed: "votes_needed (cl_node C c) = card ids div 2 + 1"
    using m ok(1) cluster_wfD(1) [OF assms(2)] distinct_card [of "nd_peers (cl_node C c)"]
    by (simp add: votes_needed_def member_def card_Diff_singleton card_gt_0_iff)
  have fl: "in_flight d u q (cl_net C') \<le> in_flight d u q (cl_net C)" for d u q
    using in_flight_take [of d u q "cl_net C + app_reqs c rpcs" "VoteRep c p t r"] vote_reply(2)
    by (simp add: vote_reply(1))
  have quiet: ?thesis if "keeps_vote (cl_node C c) n" "cl_led C' = cl_led C" "cl_voters C' = cl_voters C"
    using that fl by (intro votes_ok_keeps [OF assms(3), of c n]) (auto simp: vote_reply(1) dest: in_diffD)
  have count: ?thesis if "votes = Suc (Suc (length (cl_voters C c t)))" "nd_role (cl_node C c) = Candidate" "node_term C c = t"
    "rvr_VoteGranted r" "nd_currentTerm n = t" "nd_votedFor n = nd_votedFor (cl_node C c)"
    "nd_role n = Leader \<Longrightarrow> card ids div 2 + 1 \<le> Suc (Suc (length (cl_voters C c t)))"
    using that by (intro votes_ok_count [OF assms(3) ok(1,3) vote_reply(2), of C' n]) (simp_all add: vote_reply(1))
  from vote_reply(3) show ?thesis
  proof (cases rule: onVoteReply_cases)
    case newer
    then show ?thesis by (intro quiet keeps_vote_follower) (simp_all add: vote_reply(1) keeps_vote_follower)
  next
    case ignored
    have "cl_led C' = cl_led C" using D(10) [OF ok(1)] ignored(1) by (auto simp: vote_reply(1))
    then show ?thesis using ignored by (intro quiet) (simp_all add: vote_reply(1))
  next
    case counted
    then show ?thesis by (intro count) simp_all
  next
    case won
    from becomeLeader_Some [OF won(1)] have "nd_currentTerm n = node_term C c" "nd_votedFor n = nd_votedFor (cl_node C c)"
      by simp_all
    then show ?thesis using won needed by (intro count) simp_all
  qed
qed

lemma cluster_init_votes:
  assumes "cluster_init ids C" shows "votes_ok ids C"
proof -
  have "nd_role (cl_node C i) = Follower" if "i \<in> ids" for i
    using assms fresh_node_member(3) that by (auto simp: cluster_init_def)
  then show ?thesis
    using assms by (simp add: cluster_init_def votes_ok_def casts_ok_def casts_unique_def voters_ok_def counting_ok_def
        grants_ok_def roles_ok_def led_ok_def)
qed

lemma cluster_reach_votes: "cluster_reach ids C \<Longrightarrow> cluster_wf ids C \<and> votes_ok ids C"
  by (induction rule: cluster_reach.induct)
    (auto intro: cluster_init_wf cluster_init_votes cluster_step_wf cluster_step_votes)

lemma majorities_meet:
  assumes "finite S" "A \<subseteq> S" "B \<subseteq> S" "card S < 2 * card A" "card S < 2 * card B"
  shows "A \<inter> B \<noteq> {}"
proof
  assume "A \<inter> B = {}"
  then have "card A + card B = card (A \<union> B)"
    using assms(1-3) by (simp add: card_Un_disjoint finite_subset)
  also have "\<dots> \<le> card S" using assms(1-3) by (simp add: card_mono)
  finally show False using assms(4,5) by simp
qed

text \<open>The electorate of a leader: a majority that voted for it in its term.\<close>

lemma leader_majority:
  assumes "cluster_wf ids C" "votes_ok ids C" "(c, t) \<in> cl_led C"
  defines "A \<equiv> insert c (set (cl_voters C c t))"
  shows "A \<subseteq> ids" "card ids < 2 * card A" "p \<in> A \<Longrightarrow> (p, t, c) \<in> cl_cast C"
proof -
  note D = votes_okD [OF assms(2)]
  show "p \<in> A \<Longrightarrow> (p, t, c) \<in> cl_cast C" using D(5) [of p c t] D(11) [OF assms(3)] by (auto simp: A_def)
  show "A \<subseteq> ids" using D(1) D(5) D(11) [OF assms(3)] unfolding A_def by blast
  have "card A = Suc (length (cl_voters C c t))"
    unfolding A_def using D(4) [of c t] D(5) [of c c t] distinct_card [of "cl_voters C c t"] by (subst card_insert_disjoint) auto
  then show "card ids < 2 * card A" using D(11) [OF assms(3)] by linarith
qed

section \<open>Properties: elections\<close>

text \<open>
  C7: election safety, up to the first request of a leader. In every reachable cluster, two different
  leaders of one term have a common voter, and that voter has handled an \<^verbatim>\<open>AppendEntries\<close> of the term. So
  until a member hears a leader of a term, the term has at most one leader, whatever is lost, delayed,
  reordered or restarted.
\<close>

theorem election_safety:
  assumes "cluster_reach ids C" "(a, t) \<in> cl_led C" "(b, t) \<in> cl_led C" "a \<noteq> b"
  shows "\<exists>p\<in>ids. (p, t, a) \<in> cl_cast C \<and> (p, t, b) \<in> cl_cast C \<and> (p, t) \<in> cl_heard C"
proof -
  have ok: "cluster_wf ids C" "votes_ok ids C" using cluster_reach_votes [OF assms(1)] by simp_all
  note A = leader_majority [OF ok assms(2)] and B = leader_majority [OF ok assms(3)]
  from majorities_meet [OF cluster_wfD(1) [OF ok(1)] A(1) B(1) A(2) B(2)] obtain p where
    p: "p \<in> insert a (set (cl_voters C a t))" "p \<in> insert b (set (cl_voters C b t))" by blast
  have "(p, t, a) \<in> cl_cast C" "(p, t, b) \<in> cl_cast C" using A(3) [OF p(1)] B(3) [OF p(2)] by simp_all
  moreover from this have "(p, t) \<in> cl_heard C" using votes_okD(3) [OF ok(2)] assms(4) by blast
  moreover have "p \<in> ids" using A(1) p(1) by blast
  ultimately show ?thesis by blast
qed

section \<open>A term with two leaders\<close>

text \<open>
  Three new members and the events that lead to two leaders. The nodes after each event are named;
  \<open>b\<close> and \<open>c\<close> start elections of term 1, \<open>a\<close> votes for both because it hears \<open>b\<close> in between.
\<close>

definition empty_fs :: fsys where
  "empty_fs = \<lparr>fs_files = \<lambda>_. None, fs_unreadable = \<lambda>_. False, fs_faults = []\<rparr>"

definition trio :: "bytes set" where
  "trio = {str ''a'', str ''b'', str ''c''}"

definition trio_node :: "bytes \<Rightarrow> bytes list \<Rightarrow> Node" where
  "trio_node i ps = blank_node i ps (str ''s'') (str ''p'') empty_fs"

definition trio_start :: cluster where
  "trio_start =
     \<lparr>cl_node = \<lambda>i. trio_node i (filter (\<lambda>j. j \<noteq> i) [str ''a'', str ''b'', str ''c'']), cl_net = {#}, cl_voters = \<lambda>_ _. [],
      cl_cast = {}, cl_heard = {}, cl_led = {}, cl_tlog = \<lambda>t. if t = 0 then [sentinel 0] else [],
      cl_clog = \<lambda>_ _. [], cl_acks = {}\<rparr>"

definition ask :: "bytes \<Rightarrow> RequestVoteArgs" where
  "ask i = \<lparr>rv_Term = 1, rv_CandidateId = i, rv_LastLogIndex = 0, rv_LastLogTerm = 0\<rparr>"

definition beat :: "bytes \<Rightarrow> AppendEntriesArgs" where
  "beat i = \<lparr>ae_Term = 1, ae_LeaderId = i, ae_PrevLogIndex = 0, ae_PrevLogTerm = 0, ae_Entries = [], ae_LeaderCommit = 0\<rparr>"

definition granted :: RequestVoteReply where
  "granted = \<lparr>rvr_Term = 1, rvr_VoteGranted = True\<rparr>"

lemma trio_distinct [simp]:
  "str ''a'' \<noteq> str ''b''" "str ''a'' \<noteq> str ''c''" "str ''b'' \<noteq> str ''c''"
  "str ''b'' \<noteq> str ''a''" "str ''c'' \<noteq> str ''a''" "str ''c'' \<noteq> str ''b''"
  "str ''a'' \<noteq> []" "str ''b'' \<noteq> []" "str ''c'' \<noteq> []" "[] \<noteq> str ''a''" "[] \<noteq> str ''b''" "[] \<noteq> str ''c''"
  by (simp_all add: str_def)

lemma trio_init: "cluster_init trio trio_start"
proof -
  have n: "NewNode i ps (str ''s'') (str ''p'') empty_fs = Some (trio_node i ps)" for i ps
    using restoreState_absent [of "trio_node i ps"]
    by (simp add: NewNode_def trio_node_def loadSnapshot_absent empty_fs_def)
  have path: "str ''p'' \<noteq> str ''s'' @ tmp_suffix" by (simp add: tmp_suffix_def str_def)
  have disk: "disk_ok (trio_node i ps)" for i ps
    by (simp add: disk_ok_def trio_node_def empty_fs_def tmp_suffix_def str_def)
  have "fresh_node trio i (cl_node trio_start i)" if "i \<in> trio" for i
  proof -
    let ?ps = "filter (\<lambda>j. j \<noteq> i) [str ''a'', str ''b'', str ''c'']"
    have "distinct ?ps" "set ?ps = trio - {i}" using that by (auto simp: trio_def)
    then show ?thesis
      using n [of i ?ps] disk [of i ?ps] path unfolding fresh_node_def
      by (metis (no_types, lifting) trio_start_def cluster.select_convs(1) empty_fs_def fsys.select_convs(1))
  qed
  moreover have "valid_utf8 i" if "i \<in> trio" for i
    using that by (auto simp: trio_def str_def intro!: valid_utf8_ascii)
  ultimately show ?thesis by (simp add: cluster_init_def) (simp add: trio_def trio_start_def)
qed

text \<open>A candidate of term 1, its election, and its victory.\<close>

definition candidate :: "bytes \<Rightarrow> Node \<Rightarrow> bool" where
  "candidate i n \<longleftrightarrow>
     nd_id n = i \<and> nd_role n = Candidate \<and> nd_currentTerm n = 1 \<and> nd_log n = [sentinel 0] \<and> length (nd_peers n) = 2 \<and>
     nd_commitIndex n = 0 \<and> nd_lastApplied n = 0"

lemma trio_election:
  assumes "length ps = 2"
  shows "\<exists>n. startElection 0 (trio_node i ps) = (n, map (\<lambda>p. (p, ask i)) ps) \<and> candidate i n \<and> nd_peers n = ps"
proof -
  obtain n rpcs where e: "startElection 0 (trio_node i ps) = (n, rpcs)" by (metis prod.exhaust)
  then have n: "n = fst (startElection 0 (trio_node i ps))" by simp
  have "candidate i n" "nd_peers n = ps"
    unfolding n startElection_node using assms by (simp_all add: candidate_def trio_node_def) (simp add: blank_node_def)
  moreover have "rpcs = map (\<lambda>p. (p, ask i)) ps"
    unfolding startElection_sends [OF e] using \<open>candidate i n\<close>
    by (simp add: candidate_def ask_def trio_node_def sentinel_def)
  ultimately show ?thesis using e by blast
qed

definition new_leader :: "bytes \<Rightarrow> bytes list \<Rightarrow> Node \<Rightarrow> bool" where
  "new_leader i ps n \<longleftrightarrow>
     nd_id n = i \<and> nd_peers n = ps \<and> nd_role n = Leader \<and> nd_currentTerm n = 1 \<and> nd_log n = [sentinel 0] \<and>
     nd_commitIndex n = 0 \<and> nd_lastApplied n = 0 \<and> nd_matchIndex n = (\<lambda>_. 0) \<and> (\<forall>p\<in>set ps. nd_nextIndex n p = 1)"

lemma trio_victory:
  assumes "candidate i n"
  shows "\<exists>n'. onVoteReply 1 1 granted n = Some (2, n', map (\<lambda>p. (p, beat i)) (nd_peers n)) \<and> new_leader i (nd_peers n) n'"
proof -
  let ?n = "n\<lparr>nd_role := Leader, nd_leaderId := nd_id n,
              nd_nextIndex := \<lambda>p. if p \<in> set (nd_peers n) then fst (lastLogIndexAndTerm n) + 1 else 0,
              nd_matchIndex := \<lambda>_. 0\<rparr>"
  have "fst (lastLogIndexAndTerm n) = 0" using assms by (simp add: candidate_def lastLogIndexAndTerm_def)
  then have "new_leader i (nd_peers n) ?n" using assms by (simp add: candidate_def new_leader_def)
  moreover have "broadcastAppendEntries ?n = Some (map (\<lambda>p. (p, beat i)) (nd_peers n))"
    unfolding broadcastAppendEntries_def
    using assms by (subst all_some_map [where g = "\<lambda>p. (p, beat i)"])
      (simp_all add: candidate_def sendAppendEntries_def Let_def lastLogIndexAndTerm_def beat_def sentinel_def)
  moreover have "votes_needed n = 2" using assms by (simp add: candidate_def votes_needed_def)
  ultimately show ?thesis
    using assms by (simp add: onVoteReply_def granted_def candidate_def becomeLeader_def Let_def)
qed

text \<open>A member without a vote in term 1 or below grants one; a heartbeat makes it forget the vote.\<close>

definition free_voter :: "Node \<Rightarrow> bool" where
  "free_voter n \<longleftrightarrow> nd_currentTerm n \<le> 1 \<and> (nd_currentTerm n = 1 \<longrightarrow> nd_votedFor n = []) \<and> nd_log n = [sentinel 0]"

lemma trio_grant:
  assumes "free_voter n"
  shows "\<exists>n'. HandleRequestVote 0 (ask i) n = (granted, n') \<and> nd_currentTerm n' = 1 \<and> nd_log n' = [sentinel 0] \<and>
    nd_commitIndex n' = nd_commitIndex n \<and> nd_lastApplied n' = nd_lastApplied n"
  using assms
  by (auto simp: free_voter_def HandleRequestVote_def Let_def ask_def granted_def lastLogIndexAndTerm_def sentinel_def)

lemma trio_beat:
  assumes "nd_currentTerm n = 1" "nd_log n = [sentinel 0]"
  shows "\<exists>r n'. HandleAppendEntries 0 (beat i) n = (r, n') \<and> free_voter n'"
  using assms by (simp add: HandleAppendEntries_def Let_def beat_def sentinel_def free_voter_def)

text \<open>One event of a run, with what it changes.\<close>

lemma run_election:
  assumes "cluster_reach ids C" "i \<in> ids" "nd_role (cl_node C i) \<noteq> Leader" "nd_currentTerm (cl_node C i) = 0"
    "startElection now (cl_node C i) = (n, rpcs)"
  obtains C' where "cluster_reach ids C'" "cl_node C' = (cl_node C)(i := n)" "cl_net C' = cl_net C + vote_reqs i rpcs"
    "cl_voters C' = cl_voters C" "cl_led C' = cl_led C"
proof -
  note st = cluster_step.election [OF assms(2,3) _ assms(5)]
  show thesis by (rule that [OF cluster_reach.step [OF assms(1) st]]) (use assms(4) in simp_all)
qed

lemma run_vote_request:
  assumes "cluster_reach ids C" "VoteReq c p a \<in># cl_net C" "HandleRequestVote now a (cl_node C p) = (r, n)"
  obtains C' where "cluster_reach ids C'" "cl_node C' = (cl_node C)(p := n)"
    "cl_net C' = cl_net C - {#VoteReq c p a#} + {#VoteRep c p (rv_Term a) r#}" "cl_voters C' = cl_voters C" "cl_led C' = cl_led C"
  by (rule that [OF cluster_reach.step [OF assms(1) cluster_step.vote_request [OF assms(2,3)]]]) simp_all

lemma run_victory:
  assumes "cluster_reach ids C" "VoteRep c p t r \<in># cl_net C" "cl_voters C c t = []"
    "onVoteReply t 1 r (cl_node C c) = Some (2, n, rpcs)" "nd_role n = Leader"
  obtains C' where "cluster_reach ids C'" "cl_node C' = (cl_node C)(c := n)"
    "cl_net C' = cl_net C - {#VoteRep c p t r#} + app_reqs c rpcs"
    "cl_voters C' = (cl_voters C)(c := (cl_voters C c)(t := [p]))" "cl_led C' = insert (c, nd_currentTerm n) (cl_led C)"
proof -
  have "onVoteReply t (Suc (length (cl_voters C c t))) r (cl_node C c) = Some (2, n, rpcs)" using assms(3,4) by simp
  note st = cluster_step.vote_reply [OF assms(2) this]
  show thesis by (rule that [OF cluster_reach.step [OF assms(1) st]]) (use assms(3,5) in simp_all)
qed

lemma run_append_request:
  assumes "cluster_reach ids C" "AppReq l p a \<in># cl_net C" "HandleAppendEntries now a (cl_node C p) = (r, n)"
  obtains C' where "cluster_reach ids C'" "cl_node C' = (cl_node C)(p := n)"
    "cl_net C' = cl_net C - {#AppReq l p a#} + {#AppRep l p a r#}" "cl_voters C' = cl_voters C" "cl_led C' = cl_led C"
  by (rule that [OF cluster_reach.step [OF assms(1) cluster_step.append_request [OF assms(2,3)]]]) simp_all

text \<open>The run up to the first victory, and from there to the second.\<close>

lemma first_leader_run:
  "\<exists>C na nb nc. cluster_reach trio C \<and> cl_node C (str ''a'') = na \<and> cl_node C (str ''b'') = nb \<and> cl_node C (str ''c'') = nc \<and>
     nd_currentTerm na = 1 \<and> nd_log na = [sentinel 0] \<and> nd_commitIndex na = 0 \<and> nd_lastApplied na = 0 \<and>
     new_leader (str ''b'') [str ''a'', str ''c''] nb \<and>
     candidate (str ''c'') nc \<and> cl_led C = {(str ''b'', 1)} \<and> cl_voters C (str ''c'') 1 = [] \<and>
     AppReq (str ''b'') (str ''a'') (beat (str ''b'')) \<in># cl_net C \<and> VoteReq (str ''c'') (str ''a'') (ask (str ''c'')) \<in># cl_net C"
proof -
  let ?a = "str ''a''" and ?b = "str ''b''" and ?c = "str ''c''"
  have n0: "cl_node trio_start ?a = trio_node ?a [?b, ?c]" "cl_node trio_start ?b = trio_node ?b [?a, ?c]"
    "cl_node trio_start ?c = trio_node ?c [?a, ?b]" by (simp_all add: trio_start_def)
  obtain nb where nb: "startElection 0 (trio_node ?b [?a, ?c]) = (nb, [(?a, ask ?b), (?c, ask ?b)])" "candidate ?b nb" "nd_peers nb = [?a, ?c]"
    using trio_election [of "[?a, ?c]" ?b] by auto
  obtain nc where nc: "startElection 0 (trio_node ?c [?a, ?b]) = (nc, [(?a, ask ?c), (?b, ask ?c)])" "candidate ?c nc" "nd_peers nc = [?a, ?b]"
    using trio_election [of "[?a, ?b]" ?c] by auto
  have "free_voter (trio_node ?a [?b, ?c])" by (simp add: free_voter_def trio_node_def)
  then obtain na1 where na1: "HandleRequestVote 0 (ask ?b) (trio_node ?a [?b, ?c]) = (granted, na1)" "nd_currentTerm na1 = 1" "nd_log na1 = [sentinel 0]"
    "nd_commitIndex na1 = 0" "nd_lastApplied na1 = 0" using trio_grant by (fastforce simp: trio_node_def blank_node_def)
  obtain nb1 where nb1: "onVoteReply 1 1 granted nb = Some (2, nb1, [(?a, beat ?b), (?c, beat ?b)])" "new_leader ?b [?a, ?c] nb1"
    using trio_victory [OF nb(2)] nb(3) by auto
  have R0: "cluster_reach trio trio_start" using trio_init by (rule cluster_reach.init)
  have tn: "nd_role (trio_node i ps) = Follower" "nd_currentTerm (trio_node i ps) = 0" for i ps by (simp_all add: trio_node_def)
  have m: "?a \<in> trio" "?b \<in> trio" "?c \<in> trio" by (simp_all add: trio_def)
  have e1: "startElection 0 (cl_node trio_start ?b) = (nb, [(?a, ask ?b), (?c, ask ?b)])" using nb(1) n0(2) by simp
  have "nd_role (cl_node trio_start ?b) \<noteq> Leader" "nd_currentTerm (cl_node trio_start ?b) = 0" using n0(2) tn by simp_all
  from run_election [OF R0 m(2) this e1] obtain C1 where C1: "cluster_reach trio C1" "cl_node C1 = (cl_node trio_start)(?b := nb)"
    "cl_net C1 = cl_net trio_start + vote_reqs ?b [(?a, ask ?b), (?c, ask ?b)]" "cl_voters C1 = cl_voters trio_start"
    "cl_led C1 = cl_led trio_start" by blast
  have e2: "startElection 0 (cl_node C1 ?c) = (nc, [(?a, ask ?c), (?b, ask ?c)])" using nc(1) n0(3) C1(2) by simp
  have "nd_role (cl_node C1 ?c) \<noteq> Leader" "nd_currentTerm (cl_node C1 ?c) = 0" using n0(3) tn C1(2) by simp_all
  from run_election [OF C1(1) m(3) this e2] obtain C2 where C2: "cluster_reach trio C2" "cl_node C2 = (cl_node C1)(?c := nc)"
    "cl_net C2 = cl_net C1 + vote_reqs ?c [(?a, ask ?c), (?b, ask ?c)]" "cl_voters C2 = cl_voters C1"
    "cl_led C2 = cl_led C1" by blast
  have f3: "VoteReq ?b ?a (ask ?b) \<in># cl_net C2" by (simp add: C1 C2 vote_reqs_def)
  have e3: "HandleRequestVote 0 (ask ?b) (cl_node C2 ?a) = (granted, na1)" using na1(1) n0(1) C1(2) C2(2) by simp
  from run_vote_request [OF C2(1) f3 e3] obtain C3 where C3: "cluster_reach trio C3" "cl_node C3 = (cl_node C2)(?a := na1)"
    "cl_net C3 = cl_net C2 - {#VoteReq ?b ?a (ask ?b)#} + {#VoteRep ?b ?a (rv_Term (ask ?b)) granted#}" "cl_voters C3 = cl_voters C2"
    "cl_led C3 = cl_led C2" by blast
  have f4: "VoteRep ?b ?a 1 granted \<in># cl_net C3" by (simp add: C3 ask_def)
  have v: "cl_voters C3 = (\<lambda>_ _. [])" by (simp add: C3 C2 C1 trio_start_def)
  have e4: "cl_voters C3 ?b 1 = []" "onVoteReply 1 1 granted (cl_node C3 ?b) = Some (2, nb1, [(?a, beat ?b), (?c, beat ?b)])"
    using nb1(1) C1(2) C2(2) C3(2) v by simp_all
  have lead: "nd_role nb1 = Leader" "nd_currentTerm nb1 = 1" using nb1(2) by (simp_all add: new_leader_def)
  from run_victory [OF C3(1) f4 e4 lead(1)] obtain C4 where C4: "cluster_reach trio C4" "cl_node C4 = (cl_node C3)(?b := nb1)"
    "cl_net C4 = cl_net C3 - {#VoteRep ?b ?a 1 granted#} + app_reqs ?b [(?a, beat ?b), (?c, beat ?b)]"
    "cl_voters C4 = (cl_voters C3)(?b := (cl_voters C3 ?b)(1 := [?a]))" "cl_led C4 = insert (?b, nd_currentTerm nb1) (cl_led C3)" by blast
  have "AppReq ?b ?a (beat ?b) \<in># cl_net C4" by (simp add: C4(3) app_reqs_def)
  moreover have "VoteReq ?c ?a (ask ?c) \<in># cl_net C4"
    by (simp add: C4(3) C3(3) C2(3) C1(3) vote_reqs_def app_reqs_def ask_def in_diff_count)
  moreover have "cl_node C4 ?a = na1" "cl_node C4 ?b = nb1" "cl_node C4 ?c = nc" by (simp_all add: C4(2) C3(2) C2(2))
  moreover have "cl_led C4 = {(?b, 1)}" "cl_voters C4 ?c 1 = []"
    using lead(2) v by (simp_all add: C4(4,5) C3(5) C2(5) C1(5) trio_start_def)
  ultimately show ?thesis using C4(1) na1(2-5) nb1(2) nc(2) by blast
qed

lemma two_leaders_run:
  "\<exists>C. cluster_reach trio C \<and> (str ''b'', 1) \<in> cl_led C \<and> (str ''c'', 1) \<in> cl_led C \<and>
     nd_role (cl_node C (str ''b'')) = Leader \<and> nd_currentTerm (cl_node C (str ''b'')) = 1 \<and>
     nd_role (cl_node C (str ''c'')) = Leader \<and> nd_currentTerm (cl_node C (str ''c'')) = 1"
proof -
  let ?a = "str ''a''" and ?b = "str ''b''" and ?c = "str ''c''"
  obtain C4 na1 nb1 nc where C4: "cluster_reach trio C4" "cl_node C4 ?a = na1" "cl_node C4 ?b = nb1" "cl_node C4 ?c = nc"
    and na1: "nd_currentTerm na1 = 1" "nd_log na1 = [sentinel 0]" and nb: "new_leader ?b [?a, ?c] nb1"
    and nc: "candidate ?c nc" and led: "cl_led C4 = {(?b, 1)}" "cl_voters C4 ?c 1 = []"
    and net: "AppReq ?b ?a (beat ?b) \<in># cl_net C4" "VoteReq ?c ?a (ask ?c) \<in># cl_net C4"
    using first_leader_run by blast
  have nb1: "nd_role nb1 = Leader" "nd_currentTerm nb1 = 1" using nb by (simp_all add: new_leader_def)
  obtain r na2 where na2: "HandleAppendEntries 0 (beat ?b) na1 = (r, na2)" "free_voter na2" using trio_beat [OF na1] by blast
  obtain na3 where na3: "HandleRequestVote 0 (ask ?c) na2 = (granted, na3)" using trio_grant [OF na2(2)] by blast
  obtain nc1 rpcs where nc1: "onVoteReply 1 1 granted nc = Some (2, nc1, rpcs)" "nd_role nc1 = Leader" "nd_currentTerm nc1 = 1"
    using trio_victory [OF nc] unfolding new_leader_def by blast
  have e5: "HandleAppendEntries 0 (beat ?b) (cl_node C4 ?a) = (r, na2)" using na2(1) C4(2) by simp
  from run_append_request [OF C4(1) net(1) e5] obtain C5 where C5: "cluster_reach trio C5" "cl_node C5 = (cl_node C4)(?a := na2)"
    "cl_net C5 = cl_net C4 - {#AppReq ?b ?a (beat ?b)#} + {#AppRep ?b ?a (beat ?b) r#}" "cl_voters C5 = cl_voters C4" "cl_led C5 = cl_led C4" by blast
  have f6: "VoteReq ?c ?a (ask ?c) \<in># cl_net C5" using net(2) by (simp add: C5(3) in_diff_count)
  have e6: "HandleRequestVote 0 (ask ?c) (cl_node C5 ?a) = (granted, na3)" using na3 C5(2) by simp
  from run_vote_request [OF C5(1) f6 e6] obtain C6 where C6: "cluster_reach trio C6" "cl_node C6 = (cl_node C5)(?a := na3)"
    "cl_net C6 = cl_net C5 - {#VoteReq ?c ?a (ask ?c)#} + {#VoteRep ?c ?a (rv_Term (ask ?c)) granted#}" "cl_voters C6 = cl_voters C5"
    "cl_led C6 = cl_led C5" by blast
  have f7: "VoteRep ?c ?a 1 granted \<in># cl_net C6" by (simp add: C6(3) ask_def)
  have e7: "cl_voters C6 ?c 1 = []" "onVoteReply 1 1 granted (cl_node C6 ?c) = Some (2, nc1, rpcs)"
    using nc1(1) C4(4) C5(2) C6(2) led(2) by (simp_all add: C6(4) C5(4))
  from run_victory [OF C6(1) f7 e7 nc1(2)] obtain C7 where C7: "cluster_reach trio C7" "cl_node C7 = (cl_node C6)(?c := nc1)"
    "cl_led C7 = insert (?c, nd_currentTerm nc1) (cl_led C6)" by blast
  have "(?b, 1) \<in> cl_led C7" "(?c, 1) \<in> cl_led C7" using led(1) nc1(3) by (simp_all add: C7 C6(5) C5(5))
  moreover have "cl_node C7 ?b = nb1" "cl_node C7 ?c = nc1" using C4(3) by (simp_all add: C7(2) C6(2) C5(2))
  ultimately show ?thesis using C7(1) nb1 nc1 by metis
qed

text \<open>
  C8: a term may have two leaders. \<^verbatim>\<open>HandleAppendEntries\<close> forgets the vote of a member that hears the leader
  of its own term, so the member can vote again in the same term; a delayed request then elects a second
  leader, and both lead at the same time.
\<close>

theorem two_leaders_in_one_term:
  "\<exists>C i j. cluster_reach trio C \<and> i \<noteq> j \<and> nd_role (cl_node C i) = Leader \<and> nd_role (cl_node C j) = Leader \<and>
     nd_currentTerm (cl_node C i) = nd_currentTerm (cl_node C j)"
  using two_leaders_run trio_distinct(3) by metis

theorem election_safety_witness:
  "\<exists>C p. cluster_reach trio C \<and> p \<in> trio \<and> (p, 1, str ''b'') \<in> cl_cast C \<and> (p, 1, str ''c'') \<in> cl_cast C \<and> (p, 1) \<in> cl_heard C"
proof -
  obtain C where C: "cluster_reach trio C" "(str ''b'', 1) \<in> cl_led C" "(str ''c'', 1) \<in> cl_led C"
    using two_leaders_run by blast
  from election_safety [OF C trio_distinct(3)] C(1) show ?thesis by blast
qed

end
