(* ===== verification/Raft_Protocol.thy ===== *)
theory Raft_Protocol
  imports Raft_Cluster
begin

text \<open>
  The steps of a Raft cluster, read as steps of the protocol: what a handler of \<^verbatim>\<open>internal/raft/raft.go\<close> does
  to terms, votes, logs and commit indices, with everything else left out. \<open>cluster_step_protocol\<close> shows
  that every step of the cluster is one of seven kinds; the agreement of the members
  (theory \<^verbatim>\<open>Raft_Safety\<close>) is proved over these.
\<close>

section \<open>Logs that come from leaders\<close>

definition single_leader :: "cluster \<Rightarrow> bool" where
  "single_leader C \<longleftrightarrow> (\<forall>a b t. (a, t) \<in> cl_led C \<longrightarrow> (b, t) \<in> cl_led C \<longrightarrow> a = b)"

definition led_term :: "cluster \<Rightarrow> nat \<Rightarrow> bool" where
  "led_term C t \<longleftrightarrow> (\<exists>c. (c, t) \<in> cl_led C)"

text \<open>Up to every entry, the log is that of the leader of the entry's term.\<close>

definition traced :: "(nat \<Rightarrow> LogEntry list) \<Rightarrow> LogEntry list \<Rightarrow> bool" where
  "traced h l \<longleftrightarrow>
     (\<forall>k<length l. k < length (h (le_Term (l ! k))) \<and> take (Suc k) l = take (Suc k) (h (le_Term (l ! k))))"

lemma traced_agree:
  assumes "traced h l" "traced h l'" "k < length l" "k < length l'" "le_Term (l ! k) = le_Term (l' ! k)"
  shows "take (Suc k) l = take (Suc k) l'"
  using assms by (simp add: traced_def)

lemma traced_take: "traced h l \<Longrightarrow> traced h (take m l)"
  by (simp add: traced_def min_def)

lemma take_Suc_mono:
  assumes "take (Suc k) l = take (Suc k) l'" "j \<le> k"
  shows "take (Suc j) l = take (Suc j) l'"
proof -
  have "take (Suc j) (take (Suc k) l) = take (Suc j) (take (Suc k) l')" using assms(1) by simp
  then show ?thesis using assms(2) by (simp add: min_def)
qed

lemma take_Suc_nth:
  assumes "take (Suc k) l = take (Suc k) l'" "j \<le> k"
  shows "j < length l \<longleftrightarrow> j < length l'" "j < length l \<Longrightarrow> l ! j = l' ! j"
proof -
  have "length (take (Suc k) l) = length (take (Suc k) l')" using assms(1) by simp
  then show l: "j < length l \<longleftrightarrow> j < length l'" using assms(2) by (auto simp: min_def split: if_splits)
  have "take (Suc k) l ! j = take (Suc k) l' ! j" using assms(1) by simp
  then show "j < length l \<Longrightarrow> l ! j = l' ! j" using assms(2) by simp
qed

lemma prefix_take_Suc: "prefix l l' \<Longrightarrow> k < length l \<Longrightarrow> take (Suc k) l' = take (Suc k) l"
  by (auto simp: prefix_def)

lemma traced_grow:
  assumes "traced h l" "\<And>t. prefix (h t) (h' t)"
  shows "traced h' l"
  unfolding traced_def
proof (intro allI impI)
  fix k assume k: "k < length l"
  let ?t = "le_Term (l ! k)"
  have t: "k < length (h ?t)" "take (Suc k) l = take (Suc k) (h ?t)" using assms(1) k by (simp_all add: traced_def)
  show "k < length (h' ?t) \<and> take (Suc k) l = take (Suc k) (h' ?t)"
    using t prefix_take_Suc [OF assms(2) t(1)] prefix_length_le [OF assms(2), of ?t] by simp
qed

text \<open>A request of the leader of its term: a stretch of that leader's log and the entry before it.\<close>

definition entries_ok :: "(nat \<Rightarrow> LogEntry list) \<Rightarrow> AppendEntriesArgs \<Rightarrow> bool" where
  "entries_ok h a \<longleftrightarrow>
     ae_PrevLogIndex a + length (ae_Entries a) < length (h (ae_Term a)) \<and>
     ae_PrevLogTerm a = le_Term (h (ae_Term a) ! ae_PrevLogIndex a) \<and>
     ae_Entries a = take (length (ae_Entries a)) (drop (Suc (ae_PrevLogIndex a)) (h (ae_Term a)))"

lemma entries_ok_grow:
  assumes "entries_ok h a" "prefix (h (ae_Term a)) (h' (ae_Term a))"
  shows "entries_ok h' a"
proof -
  from assms(2) obtain zs where "h' (ae_Term a) = h (ae_Term a) @ zs" by (auto simp: prefix_def)
  then show ?thesis using assms(1) by (auto simp: entries_ok_def nth_append)
qed

lemma entries_ok_sent:
  assumes "sendAppendEntries p n = Some a" "nd_log n = h (nd_currentTerm n)"
  shows "entries_ok h a"
  using sendAppendEntries_Some [OF assms(1)] assms(2) by (simp add: entries_ok_def)

lemma agreeing_stops:
  "agreeing es tail < length es \<Longrightarrow> agreeing es tail < length tail \<Longrightarrow>
     le_Term (es ! agreeing es tail) \<noteq> le_Term (tail ! agreeing es tail)"
proof (induction es arbitrary: tail)
  case (Cons e es)
  then show ?case by (cases tail) (auto split: if_splits)
qed simp

text \<open>
  The log after a request that was accepted: the same, and it holds what the request carries; or cut
  at an entry of another term and equal to what the request carries.
\<close>

lemma merge_traced:
  assumes "traced h l" "traced h (h (ae_Term a))" "entries_ok h a"
    "ae_PrevLogIndex a < length l" "le_Term (l ! ae_PrevLogIndex a) = ae_PrevLogTerm a"
  defines "m \<equiv> ae_PrevLogIndex a + length (ae_Entries a)" and "L \<equiv> h (ae_Term a)"
    and "l' \<equiv> merge_log (Suc (ae_PrevLogIndex a)) (ae_Entries a) l"
  obtains (kept) "l' = l" "take (Suc m) l = take (Suc m) L"
  | (cut) d where "l' = take (Suc m) L" "d \<le> m" "d < length l \<Longrightarrow> le_Term (l ! d) \<noteq> le_Term (L ! d)"
proof -
  let ?p = "ae_PrevLogIndex a" and ?es = "ae_Entries a"
  let ?k = "agreeing ?es (drop (Suc ?p) l)"
  have r: "m < length L" "ae_PrevLogTerm a = le_Term (L ! ?p)" "?es = take (length ?es) (drop (Suc ?p) L)"
    using assms(3) by (simp_all add: entries_ok_def m_def L_def)
  have es: "?es ! j = L ! (Suc ?p + j)" if "j < length ?es" for j
    using r(1) that by (subst r(3)) (simp add: m_def)
  have k: "?k \<le> length ?es" "Suc ?p + ?k \<le> length l" using agreeing_le [of ?es "drop (Suc ?p) l"] assms(4) by simp_all
  have same: "take (Suc ?p + ?k) l = take (Suc ?p + ?k) L"
  proof (cases ?k)
    case 0
    then show ?thesis
      using traced_agree [OF assms(1,2), of ?p] r(1,2) assms(4,5) by (simp add: L_def m_def)
  next
    case (Suc j)
    then have "le_Term (l ! (Suc ?p + j)) = le_Term (L ! (Suc ?p + j))"
      using agreeing_nth [of j ?es "drop (Suc ?p) l"] es [of j] k by simp
    then have "take (Suc (Suc ?p + j)) l = take (Suc (Suc ?p + j)) L"
      using traced_agree [OF assms(1,2), of "Suc ?p + j"] k r(1) Suc by (simp add: L_def m_def)
    then show ?thesis using Suc by simp
  qed
  show thesis
  proof (cases "?k = length ?es")
    case True
    then show thesis using same kept by (simp add: l'_def merge_log_def m_def)
  next
    case False
    then have l': "l' = take (Suc ?p + ?k) L @ drop ?k ?es" using same by (simp add: l'_def merge_log_def Let_def)
    have "drop ?k ?es = take (length ?es - ?k) (drop (Suc ?p + ?k) L)"
      by (subst r(3)) (simp add: drop_take add.commute)
    then have "l' = take (Suc m) L"
      using l' take_add [of "Suc ?p + ?k" "length ?es - ?k" L] k(1) by (simp add: m_def)
    moreover have "le_Term (l ! (Suc ?p + ?k)) \<noteq> le_Term (L ! (Suc ?p + ?k))" if "Suc ?p + ?k < length l"
    proof -
      have "?k < length (drop (Suc ?p) l)" using that by simp
      then show ?thesis using agreeing_stops [of ?es "drop (Suc ?p) l"] False k es [of ?k] by simp
    qed
    ultimately show thesis using cut [of "Suc ?p + ?k"] False k(1) by (simp add: m_def)
  qed
qed

section \<open>The protocol\<close>

text \<open>
  The steps of the cluster by what they do to the terms, logs and votes: one node changes, what it sends
  as a leader it builds from its own log, and the history grows in one of seven ways.
\<close>

definition frame :: "bytes set \<Rightarrow> cluster \<Rightarrow> cluster \<Rightarrow> bytes \<Rightarrow> Node \<Rightarrow> bool" where
  "frame ids C C' i n \<longleftrightarrow>
     i \<in> ids \<and> cl_node C' = (cl_node C)(i := n) \<and> nd_currentTerm (cl_node C i) \<le> nd_currentTerm n \<and>
     (\<forall>l p a. AppReq l p a \<in># cl_net C' \<longrightarrow>
        AppReq l p a \<in># cl_net C \<or> l = i \<and> nd_role n = Leader \<and> sendAppendEntries p n = Some a)"

definition stays :: "Node \<Rightarrow> Node \<Rightarrow> bool" where
  "stays n n' \<longleftrightarrow>
     nd_log n' = nd_log n \<and>
     (nd_role n' \<noteq> Follower \<longrightarrow>
        nd_role n' = nd_role n \<and> nd_currentTerm n' = nd_currentTerm n \<and> nd_matchIndex n' = nd_matchIndex n)"

definition same_logs :: "cluster \<Rightarrow> cluster \<Rightarrow> bool" where
  "same_logs C C' \<longleftrightarrow> cl_led C' = cl_led C \<and> cl_tlog C' = cl_tlog C"

definition old_requests :: "cluster \<Rightarrow> cluster \<Rightarrow> bool" where
  "old_requests C C' \<longleftrightarrow>
     cl_clog C' = cl_clog C \<and> (\<forall>c p a. VoteReq c p a \<in># cl_net C' \<longrightarrow> VoteReq c p a \<in># cl_net C)"

definition old_replies :: "cluster \<Rightarrow> cluster \<Rightarrow> bool" where
  "old_replies C C' \<longleftrightarrow>
     (\<forall>l p a r. AppRep l p a r \<in># cl_net C' \<longrightarrow> aer_Success r \<longrightarrow> AppRep l p a r \<in># cl_net C)"

inductive protocol_step :: "bytes set \<Rightarrow> cluster \<Rightarrow> cluster \<Rightarrow> bool" for ids C C' where
  quiet: "frame ids C C' i n \<Longrightarrow> stays (cl_node C i) n \<Longrightarrow> nd_commitIndex n \<in> {nd_commitIndex (cl_node C i), 0} \<Longrightarrow>
    cl_cast C' = cl_cast C \<Longrightarrow> cl_acks C' = cl_acks C \<Longrightarrow> same_logs C C' \<Longrightarrow> old_requests C C' \<Longrightarrow> old_replies C C' \<Longrightarrow>
    (\<And>c t. cl_voters C' c t \<noteq> cl_voters C c t \<Longrightarrow> c \<in> ids \<and> nd_role (cl_node C c) = Candidate \<and> node_term C c = t) \<Longrightarrow>
    protocol_step ids C C'"
| voted: "frame ids C C' p n \<Longrightarrow> stays (cl_node C p) n \<Longrightarrow> nd_commitIndex n = nd_commitIndex (cl_node C p) \<Longrightarrow>
    VoteReq c p a \<in># cl_net C \<Longrightarrow> nd_currentTerm n = rv_Term a \<Longrightarrow>
    rv_LastLogTerm a > le_Term (last (nd_log n)) \<or>
      rv_LastLogTerm a = le_Term (last (nd_log n)) \<and> rv_LastLogIndex a \<ge> length (nd_log n) - 1 \<Longrightarrow>
    cl_cast C' = insert (p, rv_Term a, c) (cl_cast C) \<Longrightarrow> cl_acks C' = cl_acks C \<Longrightarrow> same_logs C C' \<Longrightarrow>
    old_requests C C' \<Longrightarrow> old_replies C C' \<Longrightarrow> cl_voters C' = cl_voters C \<Longrightarrow>
    protocol_step ids C C'"
| campaigned: "frame ids C C' i n \<Longrightarrow> nd_currentTerm n = Suc (node_term C i) \<Longrightarrow> nd_role n = Candidate \<Longrightarrow>
    nd_log n = nd_log (cl_node C i) \<Longrightarrow> nd_commitIndex n = nd_commitIndex (cl_node C i) \<Longrightarrow>
    cl_clog C' = (cl_clog C)(i := (cl_clog C i)(nd_currentTerm n := nd_log n)) \<Longrightarrow>
    (\<And>c p a. VoteReq c p a \<in># cl_net C' \<Longrightarrow> VoteReq c p a \<in># cl_net C \<or>
       c = i \<and> rv_Term a = nd_currentTerm n \<and> rv_LastLogIndex a = length (nd_log n) - 1 \<and>
       rv_LastLogTerm a = le_Term (last (nd_log n))) \<Longrightarrow>
    cl_cast C' = insert (i, nd_currentTerm n, i) (cl_cast C) \<Longrightarrow> cl_acks C' = cl_acks C \<Longrightarrow> same_logs C C' \<Longrightarrow>
    old_replies C C' \<Longrightarrow> cl_voters C' = cl_voters C \<Longrightarrow>
    protocol_step ids C C'"
| won: "frame ids C C' c n \<Longrightarrow> nd_role (cl_node C c) = Candidate \<Longrightarrow> nd_role n = Leader \<Longrightarrow>
    nd_currentTerm n = node_term C c \<Longrightarrow> nd_log n = nd_log (cl_node C c) \<Longrightarrow> nd_matchIndex n = (\<lambda>_. 0) \<Longrightarrow>
    nd_commitIndex n = nd_commitIndex (cl_node C c) \<Longrightarrow>
    cl_led C' = insert (c, nd_currentTerm n) (cl_led C) \<Longrightarrow>
    cl_tlog C' = (cl_tlog C)(nd_currentTerm n := nd_log n) \<Longrightarrow>
    cl_cast C' = cl_cast C \<Longrightarrow> cl_acks C' = cl_acks C \<Longrightarrow> old_requests C C' \<Longrightarrow> old_replies C C' \<Longrightarrow>
    (\<And>d t. cl_voters C' d t \<noteq> cl_voters C d t \<Longrightarrow> d = c \<and> t = nd_currentTerm n) \<Longrightarrow>
    protocol_step ids C C'"
| appended: "frame ids C C' p n \<Longrightarrow> AppReq l p a \<in># cl_net C \<Longrightarrow> node_term C p \<le> ae_Term a \<Longrightarrow>
    nd_currentTerm n = ae_Term a \<Longrightarrow> nd_role n = Follower \<Longrightarrow>
    ae_PrevLogIndex a < length (nd_log (cl_node C p)) \<Longrightarrow>
    le_Term (nd_log (cl_node C p) ! ae_PrevLogIndex a) = ae_PrevLogTerm a \<Longrightarrow>
    nd_log n = merge_log (Suc (ae_PrevLogIndex a)) (ae_Entries a) (nd_log (cl_node C p)) \<Longrightarrow>
    nd_commitIndex n = (if ae_LeaderCommit a > nd_commitIndex (cl_node C p)
      then min (ae_LeaderCommit a) (ae_PrevLogIndex a + length (ae_Entries a)) else nd_commitIndex (cl_node C p)) \<Longrightarrow>
    cl_acks C' = insert (p, ae_Term a, ae_PrevLogIndex a + length (ae_Entries a)) (cl_acks C) \<Longrightarrow>
    cl_cast C' = cl_cast C \<Longrightarrow> same_logs C C' \<Longrightarrow> old_requests C C' \<Longrightarrow> cl_voters C' = cl_voters C \<Longrightarrow>
    (\<And>l' p' a' r'. AppRep l' p' a' r' \<in># cl_net C' \<Longrightarrow> AppRep l' p' a' r' \<in># cl_net C \<or> p' = p \<and> a' = a) \<Longrightarrow>
    protocol_step ids C C'"
| replied: "frame ids C C' l n \<Longrightarrow> AppRep l p a r \<in># cl_net C \<Longrightarrow> aer_Success r \<Longrightarrow>
    nd_role (cl_node C l) = Leader \<Longrightarrow> nd_role n = Leader \<Longrightarrow> node_term C l = ae_Term a \<Longrightarrow>
    nd_currentTerm n = ae_Term a \<Longrightarrow> nd_log n = nd_log (cl_node C l) \<Longrightarrow>
    nd_matchIndex n = (nd_matchIndex (cl_node C l))
      (p := max (ae_PrevLogIndex a + length (ae_Entries a)) (nd_matchIndex (cl_node C l) p)) \<Longrightarrow>
    nd_commitIndex n = nd_commitIndex (cl_node C l) \<or>
      committable (n\<lparr>nd_commitIndex := nd_commitIndex (cl_node C l)\<rparr>) (nd_commitIndex n) \<Longrightarrow>
    cl_cast C' = cl_cast C \<Longrightarrow> cl_acks C' = cl_acks C \<Longrightarrow> same_logs C C' \<Longrightarrow> old_requests C C' \<Longrightarrow> old_replies C C' \<Longrightarrow>
    cl_voters C' = cl_voters C \<Longrightarrow>
    protocol_step ids C C'"
| proposed: "frame ids C C' i n \<Longrightarrow> nd_role (cl_node C i) = Leader \<Longrightarrow> nd_role n = Leader \<Longrightarrow>
    nd_currentTerm n = node_term C i \<Longrightarrow> nd_log n = nd_log (cl_node C i) @ [e] \<Longrightarrow> le_Term e = nd_currentTerm n \<Longrightarrow>
    nd_matchIndex n = (nd_matchIndex (cl_node C i))(i := length (nd_log (cl_node C i))) \<Longrightarrow>
    nd_commitIndex n = nd_commitIndex (cl_node C i) \<Longrightarrow>
    cl_tlog C' = (cl_tlog C)(nd_currentTerm n := nd_log n) \<Longrightarrow>
    cl_acks C' = insert (i, nd_currentTerm n, length (nd_log (cl_node C i))) (cl_acks C) \<Longrightarrow>
    cl_led C' = cl_led C \<Longrightarrow> cl_cast C' = cl_cast C \<Longrightarrow> old_requests C C' \<Longrightarrow> old_replies C C' \<Longrightarrow>
    cl_voters C' = cl_voters C \<Longrightarrow>
    protocol_step ids C C'"

text \<open>
  Nothing in a step of the cluster is outside this description. A proposal by a node that is no leader,
  a refused request and the rest of the bookkeeping are quiet, provided the recorded log of a leader is
  its log.
\<close>

lemma frameI:
  assumes "i \<in> ids" "cl_node C' = (cl_node C)(i := n)" "nd_currentTerm (cl_node C i) \<le> nd_currentTerm n"
    "sends n rpcs" "\<And>m. m \<in># cl_net C' \<Longrightarrow> m \<in># cl_net C \<or> m \<in># app_reqs i rpcs \<or> (\<forall>l p a. m \<noteq> AppReq l p a)"
  shows "frame ids C C' i n"
  unfolding frame_def
proof (intro conjI allI impI assms(1-3))
  fix l p a assume "AppReq l p a \<in># cl_net C'"
  then have "AppReq l p a \<in># cl_net C \<or> AppReq l p a \<in># app_reqs i rpcs" using assms(5) by blast
  then show "AppReq l p a \<in># cl_net C \<or> l = i \<and> nd_role n = Leader \<and> sendAppendEntries p n = Some a"
    using assms(4) by (auto simp: app_reqs_def sends_def)
qed

lemma stays_follower: "stays n (becomeFollower t n)"
  by (simp add: stays_def)

lemma stays_refl [simp]: "stays n n"
  by (simp add: stays_def)

lemma maybeAdvance_commit:
  assumes "nd_log n \<noteq> []"
  shows "nd_commitIndex (maybeAdvanceCommitIndex n) = nd_commitIndex n \<or> committable n (nd_commitIndex (maybeAdvanceCommitIndex n))"
proof -
  let ?S = "{j. j \<le> length (nd_log n) - 1 \<and> committable n j}"
  have "finite ?S" by (rule finite_subset [of _ "{..length (nd_log n) - 1}"]) auto
  then have "Max ?S \<in> ?S" if "\<exists>j\<le>length (nd_log n) - 1. committable n j" using that Max_in [of ?S] by blast
  then show ?thesis
    using advance_loop_commit [of "length (nd_log n) - 1" n] assms by (auto simp: maybeAdvanceCommitIndex_def)
qed

lemma committable_cong:
  assumes "nd_commitIndex n = nd_commitIndex m" "nd_log n = nd_log m" "nd_currentTerm n = nd_currentTerm m"
    "nd_peers n = nd_peers m" "nd_matchIndex n = nd_matchIndex m"
  shows "committable n j \<longleftrightarrow> committable m j"
  using assms by (simp add: committable_def)

lemma append_reply_protocol:
  assumes "AppRep l p a r \<in># cl_net C" "onAppendReply p a r (cl_node C l) = Some (n, rpcs)" "cluster_wf ids C"
  shows "protocol_step ids C ((put_node l n C)\<lparr>cl_net := cl_net C - {#AppRep l p a r#} + app_reqs l rpcs\<rparr>)"
    (is "protocol_step ids C ?C")
proof -
  have ok: "l \<in> ids" "p \<in> ids" "p \<noteq> l" using cluster_wfD(5) [OF assms(3,1)] by simp_all
  have m: "p \<in> set (nd_peers (cl_node C l))" "nd_log (cl_node C l) \<noteq> []"
    using cluster_wfD(4) [OF assms(3) ok(1)] ok by (simp_all add: member_def node_wf_iff)
  have tm: "nd_currentTerm (cl_node C l) \<le> nd_currentTerm n"
    using keeps_vote_append_reply [OF assms(2)] by (simp add: keeps_vote_def)
  have f: "frame ids C ?C l n"
    by (rule frameI [OF ok(1) _ tm onAppendReply_sends [OF assms(2) m(1)]]) (auto dest: in_diffD)
  have o: "old_requests C ?C" "old_replies C ?C" "same_logs C ?C"
    by (auto simp: old_requests_def old_replies_def same_logs_def app_reqs_def dest: in_diffD)
  from assms(2) show ?thesis
  proof (cases rule: onAppendReply_cases)
    case newer
    then show ?thesis using f o by (intro protocol_step.quiet [of ids C ?C l n]) (simp_all add: stays_follower)
  next
    case stale
    then show ?thesis using f o by (intro protocol_step.quiet [of ids C ?C l n]) simp_all
  next
    case (backup x)
    then show ?thesis using f o by (intro protocol_step.quiet [of ids C ?C l n]) (simp_all add: stays_def)
  next
    case (success k)
    let ?n = "(cl_node C l)\<lparr>nd_matchIndex := (nd_matchIndex (cl_node C l))(p := k), nd_nextIndex := (nd_nextIndex (cl_node C l))(p := k + 1)\<rparr>"
    have "nd_commitIndex n = nd_commitIndex (cl_node C l) \<or> committable ?n (nd_commitIndex n)"
      using maybeAdvance_commit [of ?n] m(2) success(4) by simp
    moreover have "committable ?n j \<longleftrightarrow> committable (n\<lparr>nd_commitIndex := nd_commitIndex (cl_node C l)\<rparr>) j" for j
      by (rule committable_cong) (simp_all add: success(4))
    ultimately show ?thesis
      using f o success assms(1) by (intro protocol_step.replied [of ids C ?C l n p a r]) simp_all
  qed
qed

lemma append_request_protocol:
  assumes "AppReq l p a \<in># cl_net C" "HandleAppendEntries now a (cl_node C p) = (r, n)" "cluster_wf ids C"
    "cl_node C' = (cl_node C)(p := n)" "cl_net C' = cl_net C - {#AppReq l p a#} + {#AppRep l p a r#}"
    "cl_acks C' = (if aer_Success r then insert (p, ae_Term a, ae_PrevLogIndex a + length (ae_Entries a)) (cl_acks C) else cl_acks C)"
    "cl_cast C' = cl_cast C" "cl_led C' = cl_led C" "cl_tlog C' = cl_tlog C" "cl_clog C' = cl_clog C" "cl_voters C' = cl_voters C"
  shows "protocol_step ids C C'"
proof -
  have ok: "p \<in> ids" using cluster_wfD(5) [OF assms(3,1)] by simp
  have tm: "nd_currentTerm (cl_node C p) \<le> nd_currentTerm n"
    using HandleAppendEntries_term [of now a "cl_node C p"] assms(2) by simp
  have f: "frame ids C C' p n"
    by (rule frameI [OF ok assms(4) tm sends_Nil]) (auto simp: assms(5) dest: in_diffD)
  have o: "old_requests C C'" "same_logs C C'" "\<not> aer_Success r \<Longrightarrow> old_replies C C'"
    using assms(5-11) by (auto simp: old_requests_def old_replies_def same_logs_def dest: in_diffD)
  show ?thesis
  proof (cases rule: HandleAppendEntries_cases [of a "cl_node C p" now])
    case old
    then show ?thesis using f o assms(2,6,7,11) by (intro protocol_step.quiet [of ids C C' p n]) simp_all
  next
    case rejected
    then show ?thesis using f o assms(2,6,7,11) by (intro protocol_step.quiet [of ids C C' p n]) (simp_all add: stays_def)
  next
    case (accepted n1 n2 c b)
    have "nd_log n = merge_log (Suc (ae_PrevLogIndex a)) (ae_Entries a) (nd_log (cl_node C p))"
      using HandleAppendEntries_log_eq [of now a "cl_node C p"] accepted(2) assms(2) by simp
    moreover have "nd_currentTerm n = ae_Term a" "nd_role n = Follower" "nd_commitIndex n = c" "aer_Success r"
      using accepted assms(2) by simp_all
    moreover have "AppRep l' p' a' r' \<in># cl_net C \<or> p' = p \<and> a' = a" if "AppRep l' p' a' r' \<in># cl_net C'" for l' p' a' r'
      using that assms(5) by (auto dest: in_diffD)
    ultimately show ?thesis
      using accepted(1,3,4,8) f o(1,2) assms(1,6,7,11) by (intro protocol_step.appended [of ids C C' p n l a]) simp_all
  qed
qed

lemma quiet_step:
  assumes "i \<in> ids" "cl_node C' = (cl_node C)(i := n)" "nd_currentTerm (cl_node C i) \<le> nd_currentTerm n" "sends n rpcs"
    "\<And>m. m \<in># cl_net C' \<Longrightarrow> m \<in># cl_net C \<or> m \<in># app_reqs i rpcs \<or> (\<exists>c p t r. m = VoteRep c p t r)"
    "stays (cl_node C i) n" "nd_commitIndex n \<in> {nd_commitIndex (cl_node C i), 0}"
    "cl_cast C' = cl_cast C" "cl_acks C' = cl_acks C" "cl_led C' = cl_led C" "cl_tlog C' = cl_tlog C" "cl_clog C' = cl_clog C"
    "\<And>c t. cl_voters C' c t \<noteq> cl_voters C c t \<Longrightarrow> c \<in> ids \<and> nd_role (cl_node C c) = Candidate \<and> node_term C c = t"
  shows "protocol_step ids C C'"
proof -
  have "frame ids C C' i n" by (rule frameI [OF assms(1-4)]) (use assms(5) in blast)
  moreover have "old_requests C C'" "old_replies C C'" "same_logs C C'"
    using assms(5,10-12) by (fastforce simp: old_requests_def old_replies_def same_logs_def app_reqs_def)+
  ultimately show ?thesis using assms(6-9,13) by (intro protocol_step.quiet [of ids C C' i n]) simp_all
qed

lemma vote_reply_protocol:
  assumes "VoteRep c p t r \<in># cl_net C" "onVoteReply t (Suc (length (cl_voters C c t))) r (cl_node C c) = Some (votes, n, rpcs)"
    "cluster_wf ids C" "votes_ok ids C" "nd_role (cl_node C c) = Leader \<Longrightarrow> nd_log (cl_node C c) = cl_tlog C (node_term C c)"
    "cl_node C' = (cl_node C)(c := n)" "cl_net C' = cl_net C - {#VoteRep c p t r#} + app_reqs c rpcs"
    "cl_voters C' = (if votes > Suc (length (cl_voters C c t))
        then (cl_voters C)(c := (cl_voters C c)(t := p # cl_voters C c t)) else cl_voters C)"
    "cl_led C' = (if nd_role n = Leader then insert (c, nd_currentTerm n) (cl_led C) else cl_led C)"
    "cl_tlog C' = (if nd_role n = Leader then (cl_tlog C)(nd_currentTerm n := nd_log n) else cl_tlog C)"
    "cl_cast C' = cl_cast C" "cl_acks C' = cl_acks C" "cl_clog C' = cl_clog C"
  shows "protocol_step ids C C'"
proof -
  have c: "c \<in> ids" using cluster_wfD(5) [OF assms(3,1)] by simp
  note s = onVoteReply_sends [OF assms(2)]
  have net: "m \<in># cl_net C \<or> m \<in># app_reqs c rpcs \<or> (\<exists>c p t r. m = VoteRep c p t r)" if "m \<in># cl_net C'" for m
    using that by (auto simp: assms(7) dest: in_diffD)
  have quiet: ?thesis if "stays (cl_node C c) n" "nd_commitIndex n = nd_commitIndex (cl_node C c)"
    "node_term C c \<le> nd_currentTerm n" "cl_led C' = cl_led C" "cl_tlog C' = cl_tlog C"
    "votes > Suc (length (cl_voters C c t)) \<Longrightarrow> nd_role (cl_node C c) = Candidate \<and> node_term C c = t"
    by (rule quiet_step [OF c assms(6) that(3) s net that(1) _ assms(11,12) that(4,5) assms(13)])
      (use that(2,6) c in \<open>auto simp: assms(8) split: if_splits\<close>)
  from assms(2) show ?thesis
  proof (cases rule: onVoteReply_cases)
    case newer
    then show ?thesis by (intro quiet) (simp_all add: stays_follower assms(9,10))
  next
    case ignored
    have "cl_led C' = cl_led C" "cl_tlog C' = cl_tlog C"
      using votes_okD(10) [OF assms(4) c] ignored(1) assms(5) by (auto simp: assms(9,10))
    then show ?thesis using ignored by (intro quiet) simp_all
  next
    case counted
    then show ?thesis by (intro quiet) (simp_all add: assms(9,10))
  next
    case won
    note n = becomeLeader_Some [OF won(1)]
    have "frame ids C C' c n" by (rule frameI [OF c assms(6) _ s]) (use net n in auto)
    moreover have "old_requests C C'" "old_replies C C'"
      using net assms(13) by (fastforce simp: old_requests_def old_replies_def app_reqs_def)+
    ultimately show ?thesis
      using won n assms(9-12)
      by (intro protocol_step.won [of ids C C' c n]) (auto simp: assms(8) split: if_splits)
  qed
qed

lemma vote_request_protocol:
  assumes "VoteReq c p a \<in># cl_net C" "HandleRequestVote now a (cl_node C p) = (r, n)" "cluster_wf ids C"
    "cl_node C' = (cl_node C)(p := n)" "cl_net C' = cl_net C - {#VoteReq c p a#} + {#VoteRep c p (rv_Term a) r#}"
    "cl_cast C' = (if rvr_VoteGranted r then insert (p, rv_Term a, c) (cl_cast C) else cl_cast C)"
    "cl_voters C' = cl_voters C" "cl_led C' = cl_led C" "cl_tlog C' = cl_tlog C" "cl_acks C' = cl_acks C" "cl_clog C' = cl_clog C"
  shows "protocol_step ids C C'"
proof -
  have p: "p \<in> ids" using cluster_wfD(5) [OF assms(3,1)] by simp
  have net: "m \<in># cl_net C \<or> m \<in># app_reqs p [] \<or> (\<exists>c p t r. m = VoteRep c p t r)" if "m \<in># cl_net C'" for m
    using that by (auto simp: assms(5) dest: in_diffD)
  have tm: "node_term C p \<le> nd_currentTerm n" using HandleRequestVote_term [OF assms(2)] by simp
  show ?thesis
  proof (cases rule: HandleRequestVote_cases [of now a "cl_node C p"])
    case refused
    then have "stays (cl_node C p) n" "nd_commitIndex n = nd_commitIndex (cl_node C p)"
      using assms(2) by (auto simp: stays_follower)
    then show ?thesis
      using quiet_step [OF p assms(4) tm sends_Nil net _ _ _ assms(10,8,9,11)] refused(1) assms(2,6,7) by simp
  next
    case (granted n1)
    have n: "nd_log n = nd_log (cl_node C p)" "nd_currentTerm n = rv_Term a" "stays (cl_node C p) n"
      "nd_commitIndex n = nd_commitIndex (cl_node C p)"
      using granted(2-4) assms(2) by (auto simp: stays_def split: if_splits)
    have "frame ids C C' p n" by (rule frameI [OF p assms(4) tm sends_Nil]) (use net in blast)
    moreover have "old_requests C C'" "old_replies C C'" "same_logs C C'"
      using net assms(8,9,11) by (fastforce simp: old_requests_def old_replies_def same_logs_def app_reqs_def)+
    ultimately show ?thesis
      using n granted(1,6) assms(1,2,6,7,10) by (intro protocol_step.voted [of ids C C' p n c a]) simp_all
  qed
qed

lemma propose_protocol:
  assumes "i \<in> ids" "Propose c (cl_node C i) = Some (res, n, rpcs)" "cluster_wf ids C"
    "cl_node C' = (cl_node C)(i := n)" "cl_net C' = cl_net C + app_reqs i rpcs"
    "cl_tlog C' = (if nd_role n = Leader then (cl_tlog C)(nd_currentTerm n := nd_log n) else cl_tlog C)"
    "cl_acks C' = (if nd_role n = Leader then insert (i, nd_currentTerm n, length (nd_log n) - 1) (cl_acks C) else cl_acks C)"
    "cl_cast C' = cl_cast C" "cl_voters C' = cl_voters C" "cl_led C' = cl_led C" "cl_clog C' = cl_clog C"
  shows "protocol_step ids C C'"
proof -
  note s = Propose_sends [OF assms(2)]
  have net: "m \<in># cl_net C \<or> m \<in># app_reqs i rpcs" if "m \<in># cl_net C'" for m using that by (auto simp: assms(5))
  have tm: "node_term C i \<le> nd_currentTerm n" using keeps_vote_propose [OF assms(2)] by (simp add: keeps_vote_def)
  obtain idx t lead where res: "res = (idx, t, lead)" by (metis prod.exhaust)
  from assms(2) [unfolded res] show ?thesis
  proof (cases rule: Propose_cases)
    case refused
    then show ?thesis
      using quiet_step [OF assms(1,4) tm s _ _ _ assms(8) _ assms(10) _ assms(11)] net assms(6,7,9) by fastforce
  next
    case appended
    have "nd_id (cl_node C i) = i" using cluster_wfD(4) [OF assms(3,1)] by (simp add: member_def)
    note n = appended(5) [unfolded this]
    have "frame ids C C' i n" by (rule frameI [OF assms(1,4) tm s]) (use net in blast)
    moreover have "old_requests C C'" "old_replies C C'"
      using net assms(11) by (fastforce simp: old_requests_def old_replies_def app_reqs_def)+
    ultimately show ?thesis
      using appended(1) n assms(6-10) by (intro protocol_step.proposed [of ids C C' i n "\<lparr>le_Term = node_term C i, le_Command = Some c\<rparr>"]) simp_all
  qed
qed

lemma election_protocol:
  assumes "i \<in> ids" "Suc (node_term C i) < 2 ^ 64" "startElection now (cl_node C i) = (n, rpcs)"
    "cl_node C' = (cl_node C)(i := n)" "cl_net C' = cl_net C + vote_reqs i rpcs"
    "cl_cast C' = insert (i, nd_currentTerm n, i) (cl_cast C)"
    "cl_clog C' = (cl_clog C)(i := (cl_clog C i)(nd_currentTerm n := nd_log n))"
    "cl_acks C' = cl_acks C" "cl_voters C' = cl_voters C" "cl_led C' = cl_led C" "cl_tlog C' = cl_tlog C"
  shows "protocol_step ids C C'"
proof -
  have n: "nd_currentTerm n = Suc (node_term C i)" "nd_role n = Candidate" "nd_log n = nd_log (cl_node C i)"
    "nd_commitIndex n = nd_commitIndex (cl_node C i)"
    using startElection_node [of now "cl_node C i"] assms(2,3) by simp_all
  have req: "VoteReq c p a \<in># cl_net C \<or> c = i \<and> rv_Term a = nd_currentTerm n \<and>
     rv_LastLogIndex a = length (nd_log n) - 1 \<and> rv_LastLogTerm a = le_Term (last (nd_log n))"
    if "VoteReq c p a \<in># cl_net C'" for c p a
    using that n(3) unfolding assms(5) vote_reqs_def startElection_sends [OF assms(3)] by auto
  have "frame ids C C' i n"
    by (rule frameI [OF assms(1,4) _ sends_Nil]) (use n(1) in \<open>auto simp: assms(5) vote_reqs_def\<close>)
  moreover have "old_replies C C'" "same_logs C C'"
    using assms(10,11) by (auto simp: old_replies_def same_logs_def assms(5) vote_reqs_def)
  ultimately show ?thesis
    using n req assms(6-9) by (intro protocol_step.campaigned [of ids C C' i n]) blast+
qed

lemma cluster_step_protocol:
  assumes "cluster_step ids C C'" "cluster_wf ids C" "votes_ok ids C"
    "\<And>i. i \<in> ids \<Longrightarrow> nd_role (cl_node C i) = Leader \<Longrightarrow> nd_log (cl_node C i) = cl_tlog C (node_term C i)"
  shows "protocol_step ids C C'"
  using assms(1)
proof cases
  case (election i now n rpcs)
  then show ?thesis by (intro election_protocol [OF election(2,4,5)]) simp_all
next
  case (heartbeat i rpcs)
  then show ?thesis
    by (intro quiet_step [OF heartbeat(2), of C' C "cl_node C i", OF _ _ heartbeat_sends [OF heartbeat(3)]]) auto
next
  case (vote_request c p a now r n)
  then show ?thesis by (intro vote_request_protocol [OF vote_request(2,3) assms(2)]) simp_all
next
  case (vote_reply c p t r votes n rpcs)
  have "c \<in> ids" using cluster_wfD(5) [OF assms(2) vote_reply(2)] by simp
  then show ?thesis
    using assms(4) vote_reply(1) by (intro vote_reply_protocol [OF vote_reply(2,3) assms(2,3)]) simp_all
next
  case (append_request l p a now r n)
  then show ?thesis by (intro append_request_protocol [OF append_request(2,3) assms(2)]) simp_all
next
  case (append_reply l p a r n rpcs)
  then show ?thesis using append_reply_protocol [OF append_reply(2,3) assms(2)] by simp
next
  case (propose i c res n rpcs)
  then show ?thesis by (intro propose_protocol [OF propose(2,3) assms(2)]) simp_all
next
  case (apply_entry i m n)
  have "stays (cl_node C i) n" "nd_commitIndex n = nd_commitIndex (cl_node C i)" "node_term C i = nd_currentTerm n"
    using apply_entry(3) by (auto simp: applyStep_def Let_def stays_def split: if_splits)
  then show ?thesis by (intro quiet_step [OF apply_entry(2), of C' C n "[]"]) (simp_all add: apply_entry(1))
next
  case (restarted i n)
  have "recoverable (cl_node C i)" using cluster_wfD(4) [OF assms(2) restarted(2)] by (simp add: member_def)
  then have "nd_commitIndex n = 0" using restart_commit [OF _ restarted(3)] by (simp add: recoverable_def)
  moreover have "stays (cl_node C i) n" "node_term C i = nd_currentTerm n"
    using member_restart [OF cluster_wfD(4) [OF assms(2) restarted(2)] restarted(3)] by (simp_all add: stays_def)
  ultimately show ?thesis by (intro quiet_step [OF restarted(2), of C' C n "[]"]) (simp_all add: restarted(1))
next
  case (lost m)
  have "\<exists>i. i \<in> ids" using cluster_wfD(5) [OF assms(2) lost(2)] by (cases m) auto
  then obtain i where i: "i \<in> ids" by blast
  show ?thesis by (intro quiet_step [OF i, of C' C "cl_node C i" "[]"]) (auto simp: lost(1) dest: in_diffD)
qed

end
