(* ===== verification/Raft_Safety.thy ===== *)
theory Raft_Safety
  imports Raft_Protocol
begin

text \<open>
  What the members of a Raft cluster agree on, in every run in which no term has two leaders
  (\<open>two_leaders_in_one_term\<close> shows how the code can leave these runs): log matching, leader completeness
  and state machine safety, for the handlers of \<^verbatim>\<open>internal/raft/raft.go\<close> as they are, with lost, delayed
  and reordered messages and with crashes.

  Three invariants are kept by every step of the protocol: the logs are pieces of the logs of leaders;
  an entry that a member has stored is still there unless a later leader did without it; a commit index
  stands for an entry that a majority has stored.
\<close>

section \<open>The invariant of the logs\<close>

definition tlog_ok :: "cluster \<Rightarrow> nat \<Rightarrow> bool" where
  "tlog_ok C t \<longleftrightarrow>
     (cl_tlog C t \<noteq> [] \<longrightarrow> (t = 0 \<or> led_term C t) \<and> cl_tlog C t ! 0 = sentinel 0) \<and>
     (led_term C t \<longrightarrow> 0 < t \<and> cl_tlog C t \<noteq> []) \<and>
     traced (cl_tlog C) (cl_tlog C t) \<and> (\<forall>e\<in>set (cl_tlog C t). le_Term e \<le> t) \<and> sorted (map le_Term (cl_tlog C t))"

definition node_ok :: "cluster \<Rightarrow> bytes \<Rightarrow> Node \<Rightarrow> bool" where
  "node_ok C i n \<longleftrightarrow>
     traced (cl_tlog C) (nd_log n) \<and> (\<forall>e\<in>set (nd_log n). le_Term e \<le> nd_currentTerm n) \<and>
     (nd_role n \<noteq> Follower \<longrightarrow> 0 < nd_currentTerm n) \<and>
     (nd_role n = Leader \<longrightarrow> nd_log n = cl_tlog C (nd_currentTerm n)) \<and>
     (nd_role n = Candidate \<longrightarrow> (i, nd_currentTerm n) \<notin> cl_led C \<and> nd_log n = cl_clog C i (nd_currentTerm n))"

definition vote_request_ok :: "cluster \<Rightarrow> bytes \<Rightarrow> RequestVoteArgs \<Rightarrow> bool" where
  "vote_request_ok C c a \<longleftrightarrow>
     (let l = cl_clog C c (rv_Term a) in l \<noteq> [] \<and> rv_LastLogIndex a = length l - 1 \<and> rv_LastLogTerm a = le_Term (last l))"

definition requests_ok :: "cluster \<Rightarrow> bool" where
  "requests_ok C \<longleftrightarrow>
     (\<forall>l p a. AppReq l p a \<in># cl_net C \<longrightarrow> (l, ae_Term a) \<in> cl_led C \<and> entries_ok (cl_tlog C) a) \<and>
     (\<forall>c p a. VoteReq c p a \<in># cl_net C \<longrightarrow> vote_request_ok C c a) \<and>
     (\<forall>p t c. (p, t, c) \<in> cl_cast C \<longrightarrow> cl_clog C c t \<noteq> [])"

definition clogs_ok :: "cluster \<Rightarrow> bool" where
  "clogs_ok C \<longleftrightarrow>
     (\<forall>c t. cl_clog C c t \<noteq> [] \<longrightarrow>
        t \<le> node_term C c \<and> traced (cl_tlog C) (cl_clog C c t) \<and> (\<forall>e\<in>set (cl_clog C c t). le_Term e < t))"

definition logs_ok :: "bytes set \<Rightarrow> cluster \<Rightarrow> bool" where
  "logs_ok ids C \<longleftrightarrow> (\<forall>t. tlog_ok C t) \<and> (\<forall>i\<in>ids. node_ok C i (cl_node C i)) \<and> requests_ok C \<and> clogs_ok C"

lemma logs_okD:
  assumes "logs_ok ids C"
  shows "tlog_ok C t" "i \<in> ids \<Longrightarrow> node_ok C i (cl_node C i)"
    "AppReq l p a \<in># cl_net C \<Longrightarrow> (l, ae_Term a) \<in> cl_led C \<and> entries_ok (cl_tlog C) a"
    "VoteReq c p v \<in># cl_net C \<Longrightarrow> vote_request_ok C c v"
    "(p, t, c) \<in> cl_cast C \<Longrightarrow> cl_clog C c t \<noteq> []"
    "cl_clog C c t \<noteq> [] \<Longrightarrow> t \<le> node_term C c \<and> traced (cl_tlog C) (cl_clog C c t) \<and> (\<forall>e\<in>set (cl_clog C c t). le_Term e < t)"
  using assms by (simp_all add: logs_ok_def requests_ok_def clogs_ok_def)

lemma frameD:
  assumes "frame ids C C' i n"
  shows "i \<in> ids" "cl_node C' = (cl_node C)(i := n)" "node_term C i \<le> nd_currentTerm n"
    "AppReq l p a \<in># cl_net C' \<Longrightarrow> AppReq l p a \<in># cl_net C \<or> l = i \<and> nd_role n = Leader \<and> sendAppendEntries p n = Some a"
  using assms by (simp_all add: frame_def)

lemma logs_ok_step:
  assumes "logs_ok ids C" "frame ids C C' i n" "votes_ok ids C'"
    and grow: "\<And>t. prefix (cl_tlog C t) (cl_tlog C' t)" "cl_led C \<subseteq> cl_led C'"
    and new: "\<And>t. tlog_ok C' t" "node_ok C' i n"
    and others: "\<And>j. j \<in> ids \<Longrightarrow> j \<noteq> i \<Longrightarrow> nd_role (cl_node C j) = Leader \<Longrightarrow> cl_tlog C' (node_term C j) = cl_tlog C (node_term C j)"
      "\<And>j t. j \<noteq> i \<Longrightarrow> (j, t) \<in> cl_led C' \<Longrightarrow> (j, t) \<in> cl_led C"
    and clog: "\<And>c t. cl_clog C c t \<noteq> [] \<Longrightarrow> cl_clog C' c t = cl_clog C c t"
      "\<And>c t. cl_clog C' c t \<noteq> cl_clog C c t \<Longrightarrow>
         c = i \<and> t = nd_currentTerm n \<and> cl_clog C' c t = nd_log n \<and> (\<forall>e\<in>set (nd_log n). le_Term e < t)"
    and votes: "\<And>c p a. VoteReq c p a \<in># cl_net C' \<Longrightarrow> VoteReq c p a \<in># cl_net C \<or> vote_request_ok C' c a"
      "\<And>p t c. (p, t, c) \<in> cl_cast C' \<Longrightarrow> (p, t, c) \<in> cl_cast C \<or> cl_clog C' c t \<noteq> []"
  shows "logs_ok ids C'"
proof -
  note D = logs_okD [OF assms(1)] and F = frameD [OF assms(2)]
  have tm: "node_term C j \<le> node_term C' j" for j using F(2,3) by simp
  have "node_ok C' j (cl_node C' j)" if "j \<in> ids" for j
  proof (cases "j = i")
    case False
    have "(j, node_term C j) \<notin> cl_led C'" "cl_clog C' j (node_term C j) = cl_clog C j (node_term C j)"
      if "nd_role (cl_node C j) = Candidate"
      using D(2) [OF \<open>j \<in> ids\<close>] that others(2) [OF False] clog(2) [of j "node_term C j"] False by (auto simp: node_ok_def)
    then show ?thesis
      using False D(2) [OF that] F(2) traced_grow [of "cl_tlog C" "nd_log (cl_node C j)" "cl_tlog C'"] grow(1) others(1) [OF that False]
      by (auto simp: node_ok_def)
  qed (use new(2) F(2) in simp)
  moreover have "(l, ae_Term a) \<in> cl_led C' \<and> entries_ok (cl_tlog C') a" if "AppReq l p a \<in># cl_net C'" for l p a
    using F(4) [OF that]
  proof (elim disjE conjE)
    assume "AppReq l p a \<in># cl_net C"
    then show ?thesis using D(3) [of l p a] grow(2) entries_ok_grow [of "cl_tlog C" a "cl_tlog C'"] grow(1) by blast
  next
    assume s: "l = i" "nd_role n = Leader" "sendAppendEntries p n = Some a"
    then show ?thesis
      using entries_ok_sent [OF s(3), of "cl_tlog C'"] new(2) votes_okD(10) [OF assms(3) F(1)] F(2) sendAppendEntries_Some(4) [OF s(3)]
      by (simp add: node_ok_def)
  qed
  moreover have "vote_request_ok C' c a" if "VoteReq c p a \<in># cl_net C'" for c p a
    using votes(1) [OF that] D(4) [of c p a] clog(1) [of c "rv_Term a"] by (auto simp: vote_request_ok_def Let_def)
  moreover have "cl_clog C' c t \<noteq> []" if "(p, t, c) \<in> cl_cast C'" for p t c
    using votes(2) [OF that] D(5) [of p t c] clog(1) [of c t] by auto
  moreover have "t \<le> node_term C' c \<and> traced (cl_tlog C') (cl_clog C' c t) \<and> (\<forall>e\<in>set (cl_clog C' c t). le_Term e < t)"
    if "cl_clog C' c t \<noteq> []" for c t
  proof (cases "cl_clog C' c t = cl_clog C c t")
    case True
    then show ?thesis
      using that D(6) [of c t] tm [of c] traced_grow [of "cl_tlog C" "cl_clog C c t" "cl_tlog C'"] grow(1) by auto
  next
    case False
    have x: "c = i" "t = nd_currentTerm n" "cl_clog C' c t = nd_log n" "\<forall>e\<in>set (nd_log n). le_Term e < t"
      using clog(2) [OF False] by blast+
    have "traced (cl_tlog C') (nd_log n)" "node_term C' i = nd_currentTerm n" using new(2) F(2) by (simp_all add: node_ok_def)
    then show ?thesis unfolding x(3) using x(1,2,4) by simp
  qed
  ultimately show ?thesis using new(1) by (simp add: logs_ok_def requests_ok_def clogs_ok_def)
qed

lemma logs_ok_same:
  assumes "logs_ok ids C" "frame ids C C' i n" "votes_ok ids C'" "same_logs C C'" "old_requests C C'" "node_ok C i n"
    "\<And>p t c. (p, t, c) \<in> cl_cast C' \<Longrightarrow> (p, t, c) \<in> cl_cast C \<or> cl_clog C c t \<noteq> []"
  shows "logs_ok ids C'"
proof (rule logs_ok_step [OF assms(1-3)])
  have h: "cl_led C' = cl_led C" "cl_tlog C' = cl_tlog C" "cl_clog C' = cl_clog C"
    using assms(4,5) by (simp_all add: same_logs_def old_requests_def)
  show "tlog_ok C' t" for t using logs_okD(1) [OF assms(1), of t] by (simp add: tlog_ok_def led_term_def h)
  show "node_ok C' i n" using assms(6) by (simp add: node_ok_def h)
qed (use assms(4,5,7) in \<open>auto simp: same_logs_def old_requests_def\<close>)

lemma node_ok_stays:
  assumes "node_ok C i m" "stays m n" "nd_currentTerm m \<le> nd_currentTerm n"
  shows "node_ok C i n"
  using assms by (auto simp: node_ok_def stays_def)

text \<open>A log that is traced is a prefix of the log of the leader of its last term.\<close>

lemma tracedD:
  assumes "traced h l" "k < length l"
  shows "k < length (h (le_Term (l ! k)))" "take (Suc k) l = take (Suc k) (h (le_Term (l ! k)))"
  using assms unfolding traced_def by blast+

lemma traced_last:
  assumes "traced h l" "l \<noteq> []"
  shows "length l \<le> length (h (le_Term (last l)))" "take (length l) (h (le_Term (last l))) = l"
proof -
  obtain k where k: "length l = Suc k" using assms(2) by (cases l) auto
  then have "l ! k = last l" using assms(2) by (simp add: last_conv_nth)
  moreover have "k < length (h (le_Term (l ! k)))" "take (Suc k) l = take (Suc k) (h (le_Term (l ! k)))"
    using tracedD [OF assms(1), of k] k by simp_all
  ultimately show "length l \<le> length (h (le_Term (last l)))" "take (length l) (h (le_Term (last l))) = l"
    using k by simp_all
qed

lemma traced_shape:
  assumes "\<And>t. tlog_ok C t" "traced (cl_tlog C) l" "l \<noteq> []"
  shows "sorted (map le_Term l)" "l ! 0 = sentinel 0"
proof -
  let ?L = "cl_tlog C (le_Term (last l))"
  note l = traced_last [OF assms(2,3)]
  have L: "sorted (map le_Term ?L)" "?L \<noteq> [] \<longrightarrow> ?L ! 0 = sentinel 0" using assms(1) by (simp_all add: tlog_ok_def)
  have "map le_Term l = take (length l) (map le_Term ?L)"  by (simp only: take_map l(2))
  then show "sorted (map le_Term l)" using L(1) by (simp only: sorted_wrt_take)
  have "0 < length l" "?L \<noteq> []" using l(1) assms(3) by auto
  moreover have "take (length l) ?L ! 0 = l ! 0" by (simp only: l(2))
  ultimately show "l ! 0 = sentinel 0" using L(2) by simp
qed

lemma logs_ok_campaigned:
  assumes "logs_ok ids C" "votes_ok ids C" "votes_ok ids C'" "cluster_wf ids C" "frame ids C C' i n"
    "nd_currentTerm n = Suc (node_term C i)" "nd_role n = Candidate" "nd_log n = nd_log (cl_node C i)"
    "cl_clog C' = (cl_clog C)(i := (cl_clog C i)(nd_currentTerm n := nd_log n))"
    "\<And>c p a. VoteReq c p a \<in># cl_net C' \<Longrightarrow> VoteReq c p a \<in># cl_net C \<or>
       c = i \<and> rv_Term a = nd_currentTerm n \<and> rv_LastLogIndex a = length (nd_log n) - 1 \<and>
       rv_LastLogTerm a = le_Term (last (nd_log n))"
    "cl_cast C' = insert (i, nd_currentTerm n, i) (cl_cast C)" "same_logs C C'"
  shows "logs_ok ids C'"
proof -
  note D = logs_okD [OF assms(1)] and F = frameD [OF assms(5)]
  have h: "cl_led C' = cl_led C" "cl_tlog C' = cl_tlog C" using assms(12) by (simp_all add: same_logs_def)
  have i: "node_ok C i (cl_node C i)" using D(2) [OF F(1)] .
  then have low: "\<forall>e\<in>set (nd_log n). le_Term e < nd_currentTerm n" using assms(6,8) by (auto simp: node_ok_def)
  have ne: "nd_log n \<noteq> []" using cluster_wfD(4) [OF assms(4) F(1)] assms(8) by (simp add: member_def node_wf_iff)
  have none: "cl_clog C i (nd_currentTerm n) = []" using D(6) [of i "nd_currentTerm n"] assms(6) by auto
  have "t \<le> node_term C i" if "(i, t) \<in> cl_led C" for t
    using votes_okD(11) [OF assms(2) that] votes_okD(1) [OF assms(2), of i t i] by blast
  then have "(i, nd_currentTerm n) \<notin> cl_led C'" using assms(6) h(1) by fastforce
  then have "node_ok C' i n" using i low assms(7) by (simp add: node_ok_def h assms(6,8,9) less_imp_le)
  moreover have "tlog_ok C' t" for t using D(1) [of t] by (simp add: tlog_ok_def led_term_def h)
  moreover have "VoteReq c p a \<in># cl_net C \<or> vote_request_ok C' c a" if "VoteReq c p a \<in># cl_net C'" for c p a
    using assms(10) [OF that] ne by (auto simp: vote_request_ok_def assms(9))
  ultimately show ?thesis
    using assms(9,11) ne none low by (intro logs_ok_step [OF assms(1,5,3)]) (auto simp: h split: if_splits)
qed

lemma logs_ok_won:
  assumes "logs_ok ids C" "votes_ok ids C'" "cluster_wf ids C" "single_leader C'" "frame ids C C' c n"
    "nd_role (cl_node C c) = Candidate" "nd_role n = Leader" "nd_currentTerm n = node_term C c"
    "nd_log n = nd_log (cl_node C c)" "cl_led C' = insert (c, nd_currentTerm n) (cl_led C)"
    "cl_tlog C' = (cl_tlog C)(nd_currentTerm n := nd_log n)" "cl_cast C' = cl_cast C" "old_requests C C'"
  shows "logs_ok ids C'" "\<not> led_term C (nd_currentTerm n)" "cl_tlog C (nd_currentTerm n) = []"
proof -
  note D = logs_okD [OF assms(1)] and F = frameD [OF assms(5)]
  let ?t = "nd_currentTerm n"
  have c: "node_ok C c (cl_node C c)" using D(2) [OF F(1)] .
  then have t: "0 < ?t" "(c, ?t) \<notin> cl_led C" using assms(6,8) by (simp_all add: node_ok_def)
  have "x = c" if "(x, ?t) \<in> cl_led C" for x using assms(4,10) that unfolding single_leader_def by blast
  then show new: "\<not> led_term C ?t" using t(2) by (auto simp: led_term_def)
  then show empty: "cl_tlog C ?t = []" using D(1) [of ?t] t(1) by (auto simp: tlog_ok_def)
  then have grow: "prefix (cl_tlog C t) (cl_tlog C' t)" for t by (simp add: assms(11))
  have ne: "nd_log n \<noteq> []" using cluster_wfD(4) [OF assms(3) F(1)] assms(9) by (simp add: member_def node_wf_iff)
  have tr: "traced (cl_tlog C) (nd_log n)" using c assms(9) by (simp add: node_ok_def)
  note shape = traced_shape [OF D(1) tr ne]
  have h: "cl_tlog C' ?t = nd_log n" "u \<noteq> ?t \<Longrightarrow> cl_tlog C' u = cl_tlog C u" for u by (simp_all add: assms(11))
  have tr': "traced (cl_tlog C') (nd_log n)" using traced_grow [OF tr grow] .
  have low: "\<forall>e\<in>set (nd_log n). le_Term e \<le> ?t" using c assms(8,9) by (simp add: node_ok_def)
  have led: "led_term C' u \<longleftrightarrow> u = ?t \<or> led_term C u" for u by (auto simp: led_term_def assms(10))
  have "tlog_ok C' u" for u
  proof (cases "u = ?t")
    case True
    then show ?thesis using shape ne t(1) tr' low by (simp add: tlog_ok_def led h)
  next
    case False
    have "traced (cl_tlog C') (cl_tlog C u)" by (rule traced_grow [OF _ grow]) (use D(1) [of u] in \<open>simp add: tlog_ok_def\<close>)
    then show ?thesis using D(1) [of u] False by (simp add: tlog_ok_def led h)
  qed
  moreover have "node_ok C' c n"
    using low t(1) assms(7) tr' by (simp add: node_ok_def h)
  moreover have "cl_tlog C' (node_term C j) = cl_tlog C (node_term C j)" if "j \<in> ids" "nd_role (cl_node C j) = Leader" for j
  proof -
    have "nd_log (cl_node C j) \<noteq> []" using cluster_wfD(4) [OF assms(3) that(1)] by (simp add: member_def node_wf_iff)
    then have "node_term C j \<noteq> ?t" using D(2) [OF that(1)] that(2) empty by (auto simp: node_ok_def)
    then show ?thesis by (rule h)
  qed
  ultimately show "logs_ok ids C'"
    using grow assms(12,13) by (intro logs_ok_step [OF assms(1,5,2)]) (auto simp: assms(10) old_requests_def)
qed

lemma logs_ok_proposed:
  assumes "logs_ok ids C" "votes_ok ids C" "votes_ok ids C'" "single_leader C'" "frame ids C C' i n"
    "nd_role (cl_node C i) = Leader" "nd_role n = Leader" "nd_currentTerm n = node_term C i"
    "nd_log n = nd_log (cl_node C i) @ [e]" "le_Term e = nd_currentTerm n"
    "cl_tlog C' = (cl_tlog C)(nd_currentTerm n := nd_log n)" "cl_led C' = cl_led C" "cl_cast C' = cl_cast C" "old_requests C C'"
  shows "logs_ok ids C'" "cl_tlog C' (nd_currentTerm n) = cl_tlog C (nd_currentTerm n) @ [e]" "(i, nd_currentTerm n) \<in> cl_led C"
proof -
  note D = logs_okD [OF assms(1)] and F = frameD [OF assms(5)]
  let ?t = "nd_currentTerm n"
  have i: "node_ok C i (cl_node C i)" using D(2) [OF F(1)] .
  then have L: "nd_log (cl_node C i) = cl_tlog C ?t" using assms(6,8) by (simp add: node_ok_def)
  show led: "(i, ?t) \<in> cl_led C" using votes_okD(10) [OF assms(2) F(1) assms(6)] assms(8) by simp
  show h: "cl_tlog C' ?t = cl_tlog C ?t @ [e]" using assms(9) L by (simp add: assms(11))
  have h': "cl_tlog C' u = cl_tlog C u" if "u \<noteq> ?t" for u using that by (simp add: assms(11))
  have grow: "prefix (cl_tlog C u) (cl_tlog C' u)" for u using h h' [of u] by (cases "u = ?t") simp_all
  have lt: "led_term C' u \<longleftrightarrow> led_term C u" for u by (simp add: led_term_def assms(12))
  have t: "0 < ?t" "cl_tlog C ?t \<noteq> []" using D(1) [of ?t] led by (auto simp: tlog_ok_def led_term_def)
  have tr: "traced (cl_tlog C') (cl_tlog C u)" for u
    by (rule traced_grow [OF _ grow]) (use D(1) [of u] in \<open>simp add: tlog_ok_def\<close>)
  have "traced (cl_tlog C') (cl_tlog C ?t @ [e])"
    unfolding traced_def
  proof (intro allI impI)
    fix k assume k: "k < length (cl_tlog C ?t @ [e])"
    show "k < length (cl_tlog C' (le_Term ((cl_tlog C ?t @ [e]) ! k))) \<and>
      take (Suc k) (cl_tlog C ?t @ [e]) = take (Suc k) (cl_tlog C' (le_Term ((cl_tlog C ?t @ [e]) ! k)))"
    proof (cases "k < length (cl_tlog C ?t)")
      case True
      then show ?thesis using tr [of ?t] by (simp add: traced_def nth_append)
    next
      case False
      then have "(cl_tlog C ?t @ [e]) ! k = e" using k by (simp add: nth_append)
      then show ?thesis using k assms(10) h by simp
    qed
  qed
  then have tr': "traced (cl_tlog C') (cl_tlog C' ?t)" by (simp only: h)
  have low: "\<forall>x\<in>set (cl_tlog C' ?t). le_Term x \<le> ?t" and sorted: "sorted (map le_Term (cl_tlog C' ?t))"
    using D(1) [of ?t] assms(10) by (auto simp: tlog_ok_def h sorted_append)
  have "tlog_ok C' u" for u
  proof (cases "u = ?t")
    case True
    have "cl_tlog C' ?t ! 0 = sentinel 0" using D(1) [of ?t] t by (simp add: tlog_ok_def h nth_append)
    moreover have "led_term C ?t" "cl_tlog C' ?t \<noteq> []" using led by (auto simp: led_term_def h)
    ultimately show ?thesis using True t tr' low sorted by (simp add: tlog_ok_def lt)
  next
    case False
    then show ?thesis using D(1) [of u] tr [of u] by (simp add: tlog_ok_def lt h')
  qed
  moreover have log: "nd_log n = cl_tlog C' ?t" by (simp add: assms(11))
  then have "node_ok C' i n" using tr' low t(1) assms(7) by (simp add: node_ok_def)
  moreover have "cl_tlog C' (node_term C j) = cl_tlog C (node_term C j)"
    if "j \<in> ids" "j \<noteq> i" "nd_role (cl_node C j) = Leader" for j
  proof -
    have "(j, node_term C j) \<in> cl_led C" using votes_okD(10) [OF assms(2) that(1,3)] .
    then have "node_term C j \<noteq> ?t" using led assms(4,12) that(2) unfolding single_leader_def by metis
    then show ?thesis by (rule h')
  qed
  ultimately show "logs_ok ids C'"
    using grow assms(12-14) by (intro logs_ok_step [OF assms(1,5,3)]) (auto simp: old_requests_def)
qed

text \<open>
  An accepted request: the log agrees with the leader's up to the last entry of the request, and what
  agreed with it before is still there.
\<close>

lemma merge_result:
  assumes "traced h l" "traced h (h (ae_Term a))" "entries_ok h a"
    "ae_PrevLogIndex a < length l" "le_Term (l ! ae_PrevLogIndex a) = ae_PrevLogTerm a"
  defines "m \<equiv> ae_PrevLogIndex a + length (ae_Entries a)" and "L \<equiv> h (ae_Term a)"
    and "l' \<equiv> merge_log (Suc (ae_PrevLogIndex a)) (ae_Entries a) l"
  shows "traced h l'" "set l' \<subseteq> set l \<union> set L" "take (Suc m) l' = take (Suc m) L" "m < length l'" "m < length L"
    "k < length l \<Longrightarrow> take (Suc k) l = take (Suc k) L \<Longrightarrow> k < length l' \<and> take (Suc k) l' = take (Suc k) l"
proof -
  show m: "m < length L" using assms(3) by (simp add: entries_ok_def m_def L_def)
  show len: "m < length l'"
    using merge_log_length [of "Suc (ae_PrevLogIndex a)" l "ae_Entries a"] assms(4) by (simp add: m_def l'_def)
  have "traced h l' \<and> set l' \<subseteq> set l \<union> set L \<and> take (Suc m) l' = take (Suc m) L \<and>
    (k < length l \<longrightarrow> take (Suc k) l = take (Suc k) L \<longrightarrow> k < length l' \<and> take (Suc k) l' = take (Suc k) l)"
  proof (cases rule: merge_traced [OF assms(1-5), folded m_def L_def l'_def])
    case 1
    then show ?thesis using assms(1) by auto
  next
    case (2 d)
    have "k < d" if k: "k < length l" "take (Suc k) l = take (Suc k) L"
    proof (rule ccontr)
      assume "\<not> k < d"
      then show False using take_Suc_nth [OF k(2), of d] 2(3) k(1) by simp
    qed
    then show ?thesis
      using 2(1,2) m assms(2) traced_take [of h L "Suc m"] set_take_subset [of "Suc m" L]
      by (auto simp: L_def min_def)
  qed
  then show "traced h l'" "set l' \<subseteq> set l \<union> set L" "take (Suc m) l' = take (Suc m) L"
    "k < length l \<Longrightarrow> take (Suc k) l = take (Suc k) L \<Longrightarrow> k < length l' \<and> take (Suc k) l' = take (Suc k) l"
    by blast+
qed

lemma accepted_result:
  assumes "logs_ok ids C" "p \<in> ids" "AppReq l p a \<in># cl_net C" "ae_PrevLogIndex a < length (nd_log (cl_node C p))"
    "le_Term (nd_log (cl_node C p) ! ae_PrevLogIndex a) = ae_PrevLogTerm a"
  shows "traced (cl_tlog C) (nd_log (cl_node C p))" "traced (cl_tlog C) (cl_tlog C (ae_Term a))" "entries_ok (cl_tlog C) a"
  using logs_okD(1) [OF assms(1), of "ae_Term a"] logs_okD(2) [OF assms(1,2)] logs_okD(3) [OF assms(1,3)]
  by (simp_all add: tlog_ok_def node_ok_def)

lemma protocol_step_logs:
  assumes "protocol_step ids C C'" "cluster_wf ids C" "votes_ok ids C" "votes_ok ids C'" "single_leader C'" "logs_ok ids C"
  shows "logs_ok ids C'"
  using assms(1)
proof cases
  case (quiet i n)
  have "node_ok C i n"
    using node_ok_stays [OF logs_okD(2) [OF assms(6) frameD(1) [OF quiet(1)]] quiet(2) frameD(3) [OF quiet(1)]] .
  then show ?thesis using logs_ok_same [OF assms(6) quiet(1) assms(4) quiet(6,7)] quiet(4) by simp
next
  case (voted p n c a)
  have "node_ok C p n"
    using node_ok_stays [OF logs_okD(2) [OF assms(6) frameD(1) [OF voted(1)]] voted(2) frameD(3) [OF voted(1)]] .
  moreover have "cl_clog C c (rv_Term a) \<noteq> []"
    using logs_okD(4) [OF assms(6) voted(4)] by (auto simp: vote_request_ok_def Let_def)
  ultimately show ?thesis using logs_ok_same [OF assms(6) voted(1) assms(4) voted(9,10)] voted(7) by auto
next
  case (campaigned i n)
  show ?thesis
    by (rule logs_ok_campaigned [OF assms(6,3,4,2) campaigned(1-4,6) _ campaigned(8,10)]) (rule campaigned(7))
next
  case (won c n)
  show ?thesis using logs_ok_won(1) [OF assms(6,4,2,5) won(1-5,8-10,12)] .
next
  case (appended p n l a)
  note F = frameD [OF appended(1)]
  note r = accepted_result [OF assms(6) F(1) appended(2,6,7)]
  note m = merge_result [OF r appended(6,7), folded appended(8)]
  have "le_Term e \<le> ae_Term a" if "e \<in> set (nd_log n)" for e
    using m(2) that logs_okD(2) [OF assms(6) F(1)] logs_okD(1) [OF assms(6), of "ae_Term a"] appended(3)
    by (fastforce simp: node_ok_def tlog_ok_def)
  then have "node_ok C p n" using m(1) appended(4,5) by (simp add: node_ok_def)
  then show ?thesis using logs_ok_same [OF assms(6) appended(1) assms(4) appended(12,13)] appended(11) by simp
next
  case (replied l n p a r)
  have "node_ok C l n"
    using logs_okD(2) [OF assms(6) frameD(1) [OF replied(1)]] replied(4-8) by (auto simp: node_ok_def)
  then show ?thesis using logs_ok_same [OF assms(6) replied(1) assms(4) replied(13,14)] replied(11) by simp
next
  case (proposed i n e)
  show ?thesis using logs_ok_proposed(1) [OF assms(6,3,4,5) proposed(1-6,9,11-13)] .
qed

section \<open>The invariant of stored entries\<close>

text \<open>
  \<open>has l t j\<close>: the log has an entry of term \<open>t\<close> at index \<open>j\<close>, by log matching the one of the leader of \<open>t\<close>.
  \<open>stored\<close>: a member has acknowledged it. \<open>skipped\<close>: a leader of a later term below \<open>u\<close> did not have it.
\<close>

definition has :: "LogEntry list \<Rightarrow> nat \<Rightarrow> nat \<Rightarrow> bool" where
  "has l t j \<longleftrightarrow> j < length l \<and> le_Term (l ! j) = t"

definition stored :: "cluster \<Rightarrow> bytes \<Rightarrow> nat \<Rightarrow> nat \<Rightarrow> bool" where
  "stored C p t j \<longleftrightarrow> has (cl_tlog C t) t j \<and> (\<exists>k\<ge>j. (p, t, k) \<in> cl_acks C)"

definition skipped :: "cluster \<Rightarrow> nat \<Rightarrow> nat \<Rightarrow> nat \<Rightarrow> bool" where
  "skipped C t j u \<longleftrightarrow> (\<exists>v. t < v \<and> v < u \<and> led_term C v \<and> \<not> has (cl_tlog C v) t j)"

lemma has_agree:
  assumes "traced h l" "traced h l'" "has l t j" "has l' t j"
  shows "take (Suc j) l = take (Suc j) l'"
  using traced_agree [OF assms(1,2), of j] assms(3,4) by (simp add: has_def)

lemma has_take: "take (Suc k) l = take (Suc k) l' \<Longrightarrow> j \<le> k \<Longrightarrow> has l t j \<longleftrightarrow> has l' t j"
  using take_Suc_nth [of k l l' j] by (auto simp: has_def)

lemma has_prefix: "prefix l l' \<Longrightarrow> j < length l \<Longrightarrow> has l' t j \<longleftrightarrow> has l t j"
  by (auto simp: has_def prefix_def nth_append)

definition acked_ok :: "bytes set \<Rightarrow> cluster \<Rightarrow> bool" where
  "acked_ok ids C \<longleftrightarrow>
     (\<forall>p t k. (p, t, k) \<in> cl_acks C \<longrightarrow> p \<in> ids \<and> led_term C t \<and> t \<le> node_term C p \<and> k < length (cl_tlog C t))"

definition held_ok :: "cluster \<Rightarrow> bool" where
  "held_ok C \<longleftrightarrow>
     (\<forall>p t j. stored C p t j \<longrightarrow> has (nd_log (cl_node C p)) t j \<or> skipped C t j (Suc (node_term C p)))"

definition cast_held_ok :: "cluster \<Rightarrow> bool" where
  "cast_held_ok C \<longleftrightarrow>
     (\<forall>p u c t j. (p, u, c) \<in> cl_cast C \<longrightarrow> \<not> led_term C u \<longrightarrow> t < u \<longrightarrow> stored C p t j \<longrightarrow>
        has (cl_clog C c u) t j \<or> skipped C t j u)"

definition led_held_ok :: "cluster \<Rightarrow> bool" where
  "led_held_ok C \<longleftrightarrow>
     (\<forall>c u p t j. (c, u) \<in> cl_led C \<longrightarrow> p \<in> insert c (set (cl_voters C c u)) \<longrightarrow> t < u \<longrightarrow> stored C p t j \<longrightarrow>
        has (cl_tlog C u) t j \<or> skipped C t j u)"

definition leader_held_ok :: "cluster \<Rightarrow> bool" where
  "leader_held_ok C \<longleftrightarrow> (\<forall>c t j. (c, t) \<in> cl_led C \<longrightarrow> has (cl_tlog C t) t j \<longrightarrow> (c, t, j) \<in> cl_acks C)"

definition matches_ok :: "bytes set \<Rightarrow> cluster \<Rightarrow> bool" where
  "matches_ok ids C \<longleftrightarrow>
     (\<forall>l\<in>ids. nd_role (cl_node C l) = Leader \<longrightarrow>
        (\<forall>p. 0 < nd_matchIndex (cl_node C l) p \<longrightarrow> (p, node_term C l, nd_matchIndex (cl_node C l) p) \<in> cl_acks C)) \<and>
     (\<forall>l p a r. AppRep l p a r \<in># cl_net C \<longrightarrow> aer_Success r \<longrightarrow>
        (p, ae_Term a, ae_PrevLogIndex a + length (ae_Entries a)) \<in> cl_acks C)"

definition acks_ok :: "bytes set \<Rightarrow> cluster \<Rightarrow> bool" where
  "acks_ok ids C \<longleftrightarrow>
     acked_ok ids C \<and> held_ok C \<and> cast_held_ok C \<and> led_held_ok C \<and> leader_held_ok C \<and> matches_ok ids C"

lemma acks_okD:
  assumes "acks_ok ids C"
  shows "(p, t, k) \<in> cl_acks C \<Longrightarrow> p \<in> ids \<and> led_term C t \<and> t \<le> node_term C p \<and> k < length (cl_tlog C t)"
    "stored C p t j \<Longrightarrow> has (nd_log (cl_node C p)) t j \<or> skipped C t j (Suc (node_term C p))"
    "(p, u, c) \<in> cl_cast C \<Longrightarrow> \<not> led_term C u \<Longrightarrow> t < u \<Longrightarrow> stored C p t j \<Longrightarrow> has (cl_clog C c u) t j \<or> skipped C t j u"
    "(c, u) \<in> cl_led C \<Longrightarrow> p \<in> insert c (set (cl_voters C c u)) \<Longrightarrow> t < u \<Longrightarrow> stored C p t j \<Longrightarrow>
       has (cl_tlog C u) t j \<or> skipped C t j u"
    "(c, t) \<in> cl_led C \<Longrightarrow> has (cl_tlog C t) t j \<Longrightarrow> (c, t, j) \<in> cl_acks C"
    "l \<in> ids \<Longrightarrow> nd_role (cl_node C l) = Leader \<Longrightarrow> 0 < nd_matchIndex (cl_node C l) p \<Longrightarrow>
       (p, node_term C l, nd_matchIndex (cl_node C l) p) \<in> cl_acks C"
    "AppRep l p a r \<in># cl_net C \<Longrightarrow> aer_Success r \<Longrightarrow> (p, ae_Term a, ae_PrevLogIndex a + length (ae_Entries a)) \<in> cl_acks C"
proof -
  have a: "acked_ok ids C" "held_ok C" "cast_held_ok C" "led_held_ok C" "leader_held_ok C" "matches_ok ids C"
    using assms by (simp_all add: acks_ok_def)
  show "(p, t, k) \<in> cl_acks C \<Longrightarrow> p \<in> ids \<and> led_term C t \<and> t \<le> node_term C p \<and> k < length (cl_tlog C t)"
    using a(1) unfolding acked_ok_def by blast
  show "stored C p t j \<Longrightarrow> has (nd_log (cl_node C p)) t j \<or> skipped C t j (Suc (node_term C p))"
    using a(2) unfolding held_ok_def by blast
  show "(p, u, c) \<in> cl_cast C \<Longrightarrow> \<not> led_term C u \<Longrightarrow> t < u \<Longrightarrow> stored C p t j \<Longrightarrow> has (cl_clog C c u) t j \<or> skipped C t j u"
    using a(3) unfolding cast_held_ok_def by blast
  show "(c, u) \<in> cl_led C \<Longrightarrow> p \<in> insert c (set (cl_voters C c u)) \<Longrightarrow> t < u \<Longrightarrow> stored C p t j \<Longrightarrow>
       has (cl_tlog C u) t j \<or> skipped C t j u"
    using a(4) unfolding led_held_ok_def by blast
  show "(c, t) \<in> cl_led C \<Longrightarrow> has (cl_tlog C t) t j \<Longrightarrow> (c, t, j) \<in> cl_acks C"
    using a(5) unfolding leader_held_ok_def by blast
  show "l \<in> ids \<Longrightarrow> nd_role (cl_node C l) = Leader \<Longrightarrow> 0 < nd_matchIndex (cl_node C l) p \<Longrightarrow>
       (p, node_term C l, nd_matchIndex (cl_node C l) p) \<in> cl_acks C"
    "AppRep l p a r \<in># cl_net C \<Longrightarrow> aer_Success r \<Longrightarrow> (p, ae_Term a, ae_PrevLogIndex a + length (ae_Entries a)) \<in> cl_acks C"
    using a(6) unfolding matches_ok_def by blast+
qed

text \<open>The logs of leaders only grow, by entries of their own term.\<close>

definition grown :: "cluster \<Rightarrow> cluster \<Rightarrow> bool" where
  "grown C C' \<longleftrightarrow>
     (\<forall>t. prefix (cl_tlog C t) (cl_tlog C' t)) \<and> cl_led C \<subseteq> cl_led C' \<and>
     (\<forall>v t j. led_term C v \<longrightarrow> t \<noteq> v \<longrightarrow> has (cl_tlog C' v) t j \<longrightarrow> has (cl_tlog C v) t j)"

lemma grown_same: "same_logs C C' \<Longrightarrow> grown C C'"
  by (simp add: grown_def same_logs_def)

lemma grown_led: "grown C C' \<Longrightarrow> led_term C t \<Longrightarrow> led_term C' t"
  by (auto simp: grown_def led_term_def)

lemma grown_skipped:
  assumes "grown C C'" "skipped C t j u" "u \<le> u'"
  shows "skipped C' t j u'"
proof -
  from assms(2) obtain v where v: "t < v" "v < u" "led_term C v" "\<not> has (cl_tlog C v) t j" by (auto simp: skipped_def)
  moreover from v assms(1) have "\<not> has (cl_tlog C' v) t j" by (auto simp: grown_def)
  ultimately show ?thesis using assms(3) grown_led [OF assms(1) v(3)] unfolding skipped_def
    by (intro exI [of _ v]) simp
qed

lemma grown_has: "grown C C' \<Longrightarrow> has (cl_tlog C u) t j \<Longrightarrow> has (cl_tlog C' u) t j"
  using has_prefix [of "cl_tlog C u" "cl_tlog C' u" j t] by (simp add: grown_def) (simp add: has_def)

lemma grown_stored:
  assumes "grown C C'" "acks_ok ids C" "stored C' p t j"
  shows "stored C p t j \<or> (\<exists>k\<ge>j. (p, t, k) \<in> cl_acks C' \<and> (p, t, k) \<notin> cl_acks C)"
proof -
  from assms(3) obtain k where k: "has (cl_tlog C' t) t j" "j \<le> k" "(p, t, k) \<in> cl_acks C'" by (auto simp: stored_def)
  show ?thesis
  proof (cases "(p, t, k) \<in> cl_acks C")
    case True
    then have "j < length (cl_tlog C t)" using acks_okD(1) [OF assms(2) True] k(2) by simp
    then have "has (cl_tlog C t) t j" using has_prefix [of "cl_tlog C t" "cl_tlog C' t" j t] k(1) assms(1) by (simp add: grown_def)
    then show ?thesis using True k(2) by (auto simp: stored_def)
  qed (use k in blast)
qed

lemma acks_ok_step:
  assumes "acks_ok ids C" "frame ids C C' i n" "votes_ok ids C'" "grown C C'" "logs_ok ids C"
    and acks: "cl_acks C \<subseteq> cl_acks C'"
      "\<And>p t k. (p, t, k) \<in> cl_acks C' \<Longrightarrow> (p, t, k) \<notin> cl_acks C \<Longrightarrow> p = i \<and> t = nd_currentTerm n \<and> led_term C' t \<and>
         k < length (cl_tlog C' t) \<and> (\<forall>j\<le>k. has (cl_tlog C' t) t j \<longrightarrow> has (nd_log n) t j)"
    and node: "\<And>t j. stored C i t j \<Longrightarrow> has (nd_log (cl_node C i)) t j \<Longrightarrow> has (nd_log n) t j \<or> skipped C' t j (Suc (nd_currentTerm n))"
    and clog: "\<And>c u. cl_clog C c u \<noteq> [] \<Longrightarrow> cl_clog C' c u = cl_clog C c u"
    and cast: "\<And>p u c t j. (p, u, c) \<in> cl_cast C' \<Longrightarrow> (p, u, c) \<notin> cl_cast C \<Longrightarrow> \<not> led_term C' u \<Longrightarrow> t < u \<Longrightarrow> stored C p t j \<Longrightarrow>
         has (cl_clog C' c u) t j \<or> skipped C' t j u"
    and led: "\<And>c u p t j. (c, u) \<in> cl_led C' \<Longrightarrow> (c, u) \<notin> cl_led C \<Longrightarrow> p \<in> insert c (set (cl_voters C' c u)) \<Longrightarrow> t < u \<Longrightarrow>
         stored C p t j \<Longrightarrow> has (cl_tlog C' u) t j \<or> skipped C' t j u"
      "\<And>c u. (c, u) \<in> cl_led C \<Longrightarrow> cl_voters C' c u = cl_voters C c u"
    and rest: "leader_held_ok C'" "matches_ok ids C'"
  shows "acks_ok ids C'"
proof -
  note D = acks_okD [OF assms(1)] and F = frameD [OF assms(2)]
  have tm: "node_term C j \<le> node_term C' j" for j using F(2,3) by simp
  have skip: "skipped C t j u \<Longrightarrow> skipped C' t j u" for t j u using grown_skipped [OF assms(4) _ order.refl] .
  have old: "stored C p t j" if "stored C' p t j" "(p, u, c) \<in> cl_cast C'" "t < u" for p t j u c
  proof (rule ccontr)
    assume "\<not> stored C p t j"
    then have "p = i" "t = nd_currentTerm n" using grown_stored [OF assms(4,1) that(1)] acks(2) by blast+
    then show False using votes_okD(1) [OF assms(3) that(2)] that(3) F(2) by simp
  qed
  have "acked_ok ids C'" unfolding acked_ok_def
  proof (intro allI impI)
    fix p t k assume a: "(p, t, k) \<in> cl_acks C'"
    show "p \<in> ids \<and> led_term C' t \<and> t \<le> node_term C' p \<and> k < length (cl_tlog C' t)"
    proof (cases "(p, t, k) \<in> cl_acks C")
      case True
      have "length (cl_tlog C t) \<le> length (cl_tlog C' t)" using assms(4) by (simp add: grown_def prefix_length_le)
      then show ?thesis using D(1) [OF True] grown_led [OF assms(4)] tm [of p] by auto
    qed (use acks(2) [OF a] F(1,2) in auto)
  qed
  moreover have "held_ok C'" unfolding held_ok_def
  proof (intro allI impI)
    fix p t j assume s: "stored C' p t j"
    show "has (nd_log (cl_node C' p)) t j \<or> skipped C' t j (Suc (node_term C' p))"
    proof (cases "stored C p t j")
      case True
      have "skipped C' t j (Suc (node_term C' p))" if "skipped C t j (Suc (node_term C p))"
        using grown_skipped [OF assms(4) that] tm [of p] by simp
      then show ?thesis using D(2) [OF True] node [of t j] True F(2) by (cases "p = i") auto
    next
      case False
      then obtain k where "j \<le> k" "(p, t, k) \<in> cl_acks C'" "(p, t, k) \<notin> cl_acks C" using grown_stored [OF assms(4,1) s] by blast
      then show ?thesis using acks(2) [of p t k] s F(2) by (auto simp: stored_def)
    qed
  qed
  moreover have "cast_held_ok C'" unfolding cast_held_ok_def
  proof (intro allI impI)
    fix p u c t j assume a: "(p, u, c) \<in> cl_cast C'" "\<not> led_term C' u" "t < u" "stored C' p t j"
    note s = old [OF a(4,1,3)]
    show "has (cl_clog C' c u) t j \<or> skipped C' t j u"
    proof (cases "(p, u, c) \<in> cl_cast C")
      case True
      have "\<not> led_term C u" using a(2) grown_led [OF assms(4)] by blast
      then show ?thesis
        using D(3) [OF True _ a(3) s] clog [OF logs_okD(5) [OF assms(5) True]] skip by metis
    qed (use cast [OF a(1) _ a(2,3) s] in blast)
  qed
  moreover have "led_held_ok C'" unfolding led_held_ok_def
  proof (intro allI impI)
    fix c u p t j assume a: "(c, u) \<in> cl_led C'" "p \<in> insert c (set (cl_voters C' c u))" "t < u" "stored C' p t j"
    have "(p, u, c) \<in> cl_cast C'" using votes_okD(5) [OF assms(3), of p c u] votes_okD(11) [OF assms(3) a(1)] a(2) by blast
    note s = old [OF a(4) this a(3)]
    show "has (cl_tlog C' u) t j \<or> skipped C' t j u"
    proof (cases "(c, u) \<in> cl_led C")
      case True
      then show ?thesis
        using D(4) [OF True _ a(3) s] a(2) skip grown_has [OF assms(4), of u t j] unfolding led(2) [OF True] by blast
    qed (use led(1) [OF a(1) _ a(2,3) s] in blast)
  qed
  ultimately show ?thesis using rest by (simp add: acks_ok_def)
qed

lemma matches_ok_step:
  assumes "acks_ok ids C" "frame ids C C' i n" "cl_acks C \<subseteq> cl_acks C'"
    "\<And>p. nd_role n = Leader \<Longrightarrow> 0 < nd_matchIndex n p \<Longrightarrow> (p, nd_currentTerm n, nd_matchIndex n p) \<in> cl_acks C'"
    "\<And>l p a r. AppRep l p a r \<in># cl_net C' \<Longrightarrow> aer_Success r \<Longrightarrow> AppRep l p a r \<in># cl_net C \<or>
       (p, ae_Term a, ae_PrevLogIndex a + length (ae_Entries a)) \<in> cl_acks C'"
  shows "matches_ok ids C'"
  unfolding matches_ok_def
proof (intro conjI allI ballI impI)
  note D = acks_okD [OF assms(1)] and F = frameD [OF assms(2)]
  show "(p, node_term C' l, nd_matchIndex (cl_node C' l) p) \<in> cl_acks C'"
    if "l \<in> ids" "nd_role (cl_node C' l) = Leader" "0 < nd_matchIndex (cl_node C' l) p" for l p
  proof (cases "l = i")
    case True
    then show ?thesis using assms(4) [of p] that F(2) by simp
  next
    case False
    then show ?thesis using D(6) [of l p] that F(2) assms(3) by auto
  qed
  show "(p, ae_Term a, ae_PrevLogIndex a + length (ae_Entries a)) \<in> cl_acks C'"
    if "AppRep l p a r \<in># cl_net C'" "aer_Success r" for l p a r
    using assms(5) [OF that] D(7) [of l p a r] that(2) assms(3) by auto
qed

lemma leader_held_same: "acks_ok ids C \<Longrightarrow> same_logs C C' \<Longrightarrow> cl_acks C \<subseteq> cl_acks C' \<Longrightarrow> leader_held_ok C'"
  by (auto simp: acks_ok_def leader_held_ok_def same_logs_def)

lemma skipped_below:
  assumes "skipped C t j (Suc v)" "v \<le> u" "\<not> led_term C u"
  shows "skipped C t j u"
proof -
  from assms(1) obtain w where w: "t < w" "w \<le> v" "led_term C w" "\<not> has (cl_tlog C w) t j" by (auto simp: skipped_def)
  then have "w \<noteq> u" using assms(3) by auto
  then show ?thesis using w assms(2) unfolding skipped_def by (intro exI [of _ w]) simp
qed

text \<open>
  A log that is as up to date as another one has its entries, unless a later leader did without them.
\<close>

lemma up_to_date_has:
  assumes "\<And>t. tlog_ok C t" "traced (cl_tlog C) l" "traced (cl_tlog C) m" "l \<noteq> []" "m \<noteq> []"
    "\<forall>e\<in>set m. le_Term e < u" "has l t j"
    "le_Term (last l) < le_Term (last m) \<or> le_Term (last m) = le_Term (last l) \<and> length l \<le> length m"
  shows "has m t j \<or> skipped C t j u"
proof -
  let ?w = "le_Term (last m)"
  let ?L = "cl_tlog C ?w"
  note l = traced_last [OF assms(2,4)] and m = traced_last [OF assms(3,5)]
  have j: "j < length l" "le_Term (l ! j) = t" using assms(7) by (simp_all add: has_def)
  have mj: "m ! k = ?L ! k" if "k < length m" for k using m(2) that by (metis nth_take)
  show ?thesis
  proof (cases "?w = le_Term (last l)")
    case True
    then have "length l \<le> length m" using assms(8) by simp
    moreover have "l ! j = ?L ! j" using l(2) j(1) True by (metis nth_take)
    ultimately show ?thesis using j mj [of j] by (simp add: has_def)
  next
    case False
    have "t \<le> le_Term (last l)"
      using sorted_nth_mono [OF traced_shape(1) [OF assms(1,2,4)], of j "length l - 1"] j assms(4) by (simp add: last_conv_nth)
    then have t: "t < ?w" using False assms(8) by simp
    have L: "tlog_ok C ?w" using assms(1) .
    have "?L \<noteq> []" using m(1) assms(5) by auto
    then have led: "led_term C ?w" using t L by (simp add: tlog_ok_def)
    have "?w < u" using assms(5,6) by simp
    show ?thesis
    proof (cases "has ?L t j")
      case True
      have "j < length m"
      proof (rule ccontr)
        assume "\<not> j < length m"
        then have "le_Term (?L ! (length m - 1)) \<le> le_Term (?L ! j)"
          using L True sorted_nth_mono [of "map le_Term ?L" "length m - 1" j] by (simp add: tlog_ok_def has_def)
        moreover have "?L ! (length m - 1) = last m" using mj [of "length m - 1"] assms(5) by (simp add: last_conv_nth)
        ultimately show False using True t by (simp add: has_def)
      qed
      then show ?thesis using mj [of j] True by (simp add: has_def)
    next
      case False
      then show ?thesis using t led \<open>?w < u\<close> unfolding skipped_def by blast
    qed
  qed
qed

lemma acks_ok_quiet:
  assumes "acks_ok ids C" "logs_ok ids C" "votes_ok ids C'" "frame ids C C' i n" "same_logs C C'" "old_requests C C'" "old_replies C C'"
    "nd_log n = nd_log (cl_node C i)" "cl_acks C' = cl_acks C"
    "\<And>p. nd_role n = Leader \<Longrightarrow> 0 < nd_matchIndex n p \<Longrightarrow> (p, nd_currentTerm n, nd_matchIndex n p) \<in> cl_acks C"
    "\<And>p u c t j. (p, u, c) \<in> cl_cast C' \<Longrightarrow> (p, u, c) \<notin> cl_cast C \<Longrightarrow> \<not> led_term C u \<Longrightarrow> t < u \<Longrightarrow> stored C p t j \<Longrightarrow>
       has (cl_clog C c u) t j \<or> skipped C t j u"
    "\<And>c t. cl_voters C' c t \<noteq> cl_voters C c t \<Longrightarrow> c \<in> ids \<and> nd_role (cl_node C c) = Candidate \<and> node_term C c = t"
  shows "acks_ok ids C'"
proof -
  have h: "cl_led C' = cl_led C" "cl_tlog C' = cl_tlog C" "cl_clog C' = cl_clog C"
    using assms(5,6) by (simp_all add: same_logs_def old_requests_def)
  have e: "led_term C' u \<longleftrightarrow> led_term C u" "skipped C' t j u \<longleftrightarrow> skipped C t j u" for t j u
    by (simp_all add: skipped_def led_term_def h)
  have v: "cl_voters C' c u = cl_voters C c u" if "(c, u) \<in> cl_led C" for c u
    using assms(12) [of c u] logs_okD(2) [OF assms(2), of c] that by (auto simp: node_ok_def)
  show ?thesis
  proof (rule acks_ok_step [OF assms(1,4,3) grown_same [OF assms(5)] assms(2)])
    show "matches_ok ids C'"
      by (rule matches_ok_step [OF assms(1,4)]) (use assms(7,9,10) in \<open>auto simp: old_replies_def\<close>)
    show "leader_held_ok C'" using leader_held_same [OF assms(1,5)] assms(9) by simp
    show "has (cl_clog C' c u) t j \<or> skipped C' t j u"
      if "(p, u, c) \<in> cl_cast C'" "(p, u, c) \<notin> cl_cast C" "\<not> led_term C' u" "t < u" "stored C p t j" for p u c t j
      using assms(11) [OF that(1,2) _ that(4,5)] that(3) by (simp add: e h)
  qed (use v in \<open>simp_all add: h assms(8,9)\<close>)
qed

lemma acks_ok_voted:
  assumes "acks_ok ids C" "logs_ok ids C" "cluster_wf ids C" "votes_ok ids C'" "frame ids C C' p n" "stays (cl_node C p) n"
    "VoteReq c p a \<in># cl_net C" "nd_currentTerm n = rv_Term a"
    "rv_LastLogTerm a > le_Term (last (nd_log n)) \<or>
      rv_LastLogTerm a = le_Term (last (nd_log n)) \<and> rv_LastLogIndex a \<ge> length (nd_log n) - 1"
    "cl_cast C' = insert (p, rv_Term a, c) (cl_cast C)" "cl_acks C' = cl_acks C" "same_logs C C'" "old_requests C C'"
    "old_replies C C'" "cl_voters C' = cl_voters C"
  shows "acks_ok ids C'"
proof (rule acks_ok_quiet [OF assms(1,2,4,5,12-14) _ assms(11)])
  note F = frameD [OF assms(5)]
  let ?l = "nd_log (cl_node C p)" and ?m = "cl_clog C c (rv_Term a)"
  show log: "nd_log n = ?l" using assms(6) by (simp add: stays_def)
  show "(q, nd_currentTerm n, nd_matchIndex n q) \<in> cl_acks C" if "nd_role n = Leader" "0 < nd_matchIndex n q" for q
    using acks_okD(6) [OF assms(1) F(1), of q] that assms(6) by (simp add: stays_def)
  have m: "?m \<noteq> []" "rv_LastLogIndex a = length ?m - 1" "rv_LastLogTerm a = le_Term (last ?m)"
    using logs_okD(4) [OF assms(2,7)] by (simp_all add: vote_request_ok_def Let_def)
  have l: "?l \<noteq> []" using cluster_wfD(4) [OF assms(3) F(1)] by (simp add: member_def node_wf_iff)
  have "length ?l - 1 \<le> length ?m - 1 \<longleftrightarrow> length ?l \<le> length ?m" using l m(1) by (cases ?l; cases ?m) simp_all
  then have up: "le_Term (last ?l) < le_Term (last ?m) \<or> le_Term (last ?m) = le_Term (last ?l) \<and> length ?l \<le> length ?m"
    using assms(9) m(2,3) log by simp
  have tr: "traced (cl_tlog C) ?l" "traced (cl_tlog C) ?m" "\<forall>e\<in>set ?m. le_Term e < rv_Term a"
    using logs_okD(2) [OF assms(2) F(1)] logs_okD(6) [OF assms(2) m(1)] by (simp_all add: node_ok_def)
  show "has (cl_clog C d u) t j \<or> skipped C t j u"
    if "(q, u, d) \<in> cl_cast C'" "(q, u, d) \<notin> cl_cast C" "\<not> led_term C u" "t < u" "stored C q t j" for q u d t j
  proof -
    have q: "q = p" "u = rv_Term a" "d = c" using that(1,2) assms(10) by auto
    have "has ?l t j \<or> skipped C t j u"
      using acks_okD(2) [OF assms(1) that(5)] skipped_below [OF _ _ that(3), of t j "node_term C p"] F(3) assms(8) q by auto
    then show ?thesis
      using up_to_date_has [OF logs_okD(1) [OF assms(2)] tr(1,2) l m(1) tr(3) _ up, of t j] q by blast
  qed
qed (use assms(15) in simp)

lemma acks_ok_campaigned:
  assumes "acks_ok ids C" "logs_ok ids C" "votes_ok ids C'" "frame ids C C' i n"
    "nd_currentTerm n = Suc (node_term C i)" "nd_role n = Candidate" "nd_log n = nd_log (cl_node C i)"
    "cl_clog C' = (cl_clog C)(i := (cl_clog C i)(nd_currentTerm n := nd_log n))"
    "cl_cast C' = insert (i, nd_currentTerm n, i) (cl_cast C)" "cl_acks C' = cl_acks C" "same_logs C C'"
    "old_replies C C'" "cl_voters C' = cl_voters C"
  shows "acks_ok ids C'"
proof (rule acks_ok_step [OF assms(1,4,3) grown_same [OF assms(11)] assms(2)])
  have h: "cl_led C' = cl_led C" "cl_tlog C' = cl_tlog C" using assms(11) by (simp_all add: same_logs_def)
  have e: "skipped C' t j u \<longleftrightarrow> skipped C t j u" for t j u by (simp add: skipped_def led_term_def h)
  show "matches_ok ids C'"
    by (rule matches_ok_step [OF assms(1,4)]) (use assms(6,10,12) in \<open>auto simp: old_replies_def\<close>)
  show "leader_held_ok C'" using leader_held_same [OF assms(1,11)] assms(10) by simp
  show "cl_clog C' c u = cl_clog C c u" if "cl_clog C c u \<noteq> []" for c u
    using logs_okD(6) [OF assms(2) that] assms(5,8) by auto
  show "has (cl_clog C' c u) t j \<or> skipped C' t j u"
    if "(p, u, c) \<in> cl_cast C'" "(p, u, c) \<notin> cl_cast C" "stored C p t j" for p u c t j
    using that(1,2) acks_okD(2) [OF assms(1) that(3)] assms(5,7-9) by (auto simp: e)
qed (use assms(7,10,11,13) in \<open>simp_all add: same_logs_def\<close>)

lemma acks_ok_won:
  assumes "acks_ok ids C" "logs_ok ids C" "cluster_wf ids C" "votes_ok ids C'" "single_leader C'" "frame ids C C' c n"
    "nd_role (cl_node C c) = Candidate" "nd_role n = Leader" "nd_currentTerm n = node_term C c"
    "nd_log n = nd_log (cl_node C c)" "nd_matchIndex n = (\<lambda>_. 0)" "cl_led C' = insert (c, nd_currentTerm n) (cl_led C)"
    "cl_tlog C' = (cl_tlog C)(nd_currentTerm n := nd_log n)" "cl_cast C' = cl_cast C" "cl_acks C' = cl_acks C"
    "old_requests C C'" "old_replies C C'"
    "\<And>d t. cl_voters C' d t \<noteq> cl_voters C d t \<Longrightarrow> d = c \<and> t = nd_currentTerm n"
  shows "acks_ok ids C'" "grown C C'"
proof -
  note D = acks_okD [OF assms(1)] and F = frameD [OF assms(6)]
  let ?t = "nd_currentTerm n"
  have un: "\<not> led_term C ?t" "cl_tlog C ?t = []" using logs_ok_won [OF assms(2,4,3,5-10,12-14,16)] by simp_all
  have h: "cl_tlog C' ?t = nd_log n" "u \<noteq> ?t \<Longrightarrow> cl_tlog C' u = cl_tlog C u" for u by (simp_all add: assms(13))
  have log: "nd_log n = cl_clog C c ?t"
    using logs_okD(2) [OF assms(2) F(1)] assms(7,9,10) by (simp add: node_ok_def)
  show g: "grown C C'" unfolding grown_def
  proof (intro conjI allI impI)
    show "prefix (cl_tlog C t) (cl_tlog C' t)" for t using h un(2) by (cases "t = ?t") simp_all
    show "has (cl_tlog C v) t j" if "led_term C v" "has (cl_tlog C' v) t j" for v t j
      using h(2) [of v] un(1) that by (cases "v = ?t") simp_all
  qed (use assms(12) in blast)
  have c: "cl_clog C' = cl_clog C" using assms(16) by (simp add: old_requests_def)
  show "acks_ok ids C'"
  proof (rule acks_ok_step [OF assms(1,6,4) g assms(2)])
    show "matches_ok ids C'"
      by (rule matches_ok_step [OF assms(1,6)]) (use assms(11,15,17) in \<open>auto simp: old_replies_def\<close>)
    show "leader_held_ok C'" unfolding leader_held_ok_def
    proof (intro allI impI)
      fix d t j assume a: "(d, t) \<in> cl_led C'" "has (cl_tlog C' t) t j"
      have "t \<noteq> ?t"
      proof
        assume t: "t = ?t"
        then have "has (cl_clog C c ?t) ?t j" using a(2) h(1) log by simp
        then have "cl_clog C c ?t \<noteq> []" "cl_clog C c ?t ! j \<in> set (cl_clog C c ?t)" "le_Term (cl_clog C c ?t ! j) = ?t"
          by (auto simp: has_def)
        then show False using logs_okD(6) [OF assms(2), of c ?t] by fastforce
      qed
      then show "(d, t, j) \<in> cl_acks C'" using D(5) [of d t j] a h(2) [of t] assms(12,15) by auto
    qed
    show "has (cl_tlog C' u) t j \<or> skipped C' t j u"
      if "(d, u) \<in> cl_led C'" "(d, u) \<notin> cl_led C" "p \<in> insert d (set (cl_voters C' d u))" "t < u" "stored C p t j" for d u p t j
    proof -
      have d: "d = c" "u = ?t" using that(1,2) assms(12) by auto
      have "(p, u, d) \<in> cl_cast C"
        using votes_okD(5) [OF assms(4), of p d u] votes_okD(11) [OF assms(4) that(1)] that(3) assms(14) by auto
      then show ?thesis
        using D(3) [of p u d t j] un(1) that(4,5) d h(1) log grown_skipped [OF g, of t j u u] by auto
    qed
    show "cl_voters C' d u = cl_voters C d u" if "(d, u) \<in> cl_led C" for d u
      using assms(18) [of d u] un(1) that by (auto simp: led_term_def)
  qed (use assms(10,14,15) c in simp_all)
qed

lemma acks_ok_appended:
  assumes "acks_ok ids C" "logs_ok ids C" "votes_ok ids C'" "frame ids C C' p n" "AppReq l p a \<in># cl_net C"
    "node_term C p \<le> ae_Term a" "nd_currentTerm n = ae_Term a" "nd_role n = Follower"
    "ae_PrevLogIndex a < length (nd_log (cl_node C p))" "le_Term (nd_log (cl_node C p) ! ae_PrevLogIndex a) = ae_PrevLogTerm a"
    "nd_log n = merge_log (Suc (ae_PrevLogIndex a)) (ae_Entries a) (nd_log (cl_node C p))"
    "cl_acks C' = insert (p, ae_Term a, ae_PrevLogIndex a + length (ae_Entries a)) (cl_acks C)"
    "cl_cast C' = cl_cast C" "same_logs C C'" "old_requests C C'" "cl_voters C' = cl_voters C"
    "\<And>l' p' a' r'. AppRep l' p' a' r' \<in># cl_net C' \<Longrightarrow> AppRep l' p' a' r' \<in># cl_net C \<or> p' = p \<and> a' = a"
  shows "acks_ok ids C'"
proof (rule acks_ok_step [OF assms(1,4,3) grown_same [OF assms(14)] assms(2)])
  note D = acks_okD [OF assms(1)] and F = frameD [OF assms(4)]
  let ?t = "ae_Term a" and ?m = "ae_PrevLogIndex a + length (ae_Entries a)"
  note r = accepted_result [OF assms(2) F(1) assms(5,9,10)]
  note m = merge_result [OF r assms(9,10), folded assms(11)]
  have h: "cl_led C' = cl_led C" "cl_tlog C' = cl_tlog C" using assms(14) by (simp_all add: same_logs_def)
  have e: "led_term C' u \<longleftrightarrow> led_term C u" "skipped C' t j u \<longleftrightarrow> skipped C t j u" for t j u
    by (simp_all add: skipped_def led_term_def h)
  have led: "led_term C ?t" using logs_okD(3) [OF assms(2,5)] by (auto simp: led_term_def)
  show "matches_ok ids C'"
    by (rule matches_ok_step [OF assms(1,4)]) (use assms(8,12) in \<open>auto dest: assms(17)\<close>)
  show "leader_held_ok C'" by (rule leader_held_same [OF assms(1,14)]) (auto simp: assms(12))
  show "q = p \<and> t = nd_currentTerm n \<and> led_term C' t \<and> k < length (cl_tlog C' t) \<and>
     (\<forall>j\<le>k. has (cl_tlog C' t) t j \<longrightarrow> has (nd_log n) t j)"
    if "(q, t, k) \<in> cl_acks C'" "(q, t, k) \<notin> cl_acks C" for q t k
  proof -
    have "q = p" "t = ?t" "k = ?m" using that assms(12) by auto
    then show ?thesis using has_take [OF m(3), of _ ?t] m(5) led assms(7) by (simp add: e h)
  qed
  show "has (nd_log n) t j \<or> skipped C' t j (Suc (nd_currentTerm n))"
    if s: "stored C p t j" "has (nd_log (cl_node C p)) t j" for t j
  proof (cases "has (cl_tlog C ?t) t j")
    case True
    have same: "take (Suc j) (nd_log (cl_node C p)) = take (Suc j) (cl_tlog C ?t)" using has_agree [OF r(1,2) s(2) True] .
    have "j < length (nd_log (cl_node C p))" using s(2) by (simp add: has_def)
    then have "take (Suc j) (nd_log n) = take (Suc j) (nd_log (cl_node C p))" using m(6) same by blast
    then show ?thesis using has_take [of j "nd_log n" "nd_log (cl_node C p)" j t] s(2) by simp
  next
    case False
    from s(1) obtain k where "(p, t, k) \<in> cl_acks C" "has (cl_tlog C t) t j" by (auto simp: stored_def)
    then have "t < ?t" using D(1) [of p t k] False assms(6) by (cases "t = ?t") auto
    then have "skipped C t j (Suc ?t)" using False led unfolding skipped_def by (intro exI [of _ ?t]) simp
    then show ?thesis using assms(7) by (simp add: e)
  qed
qed (use assms(12,13,14,15,16) in \<open>auto simp: same_logs_def old_requests_def\<close>)

lemma acks_ok_proposed:
  assumes "acks_ok ids C" "logs_ok ids C" "votes_ok ids C" "votes_ok ids C'" "single_leader C'" "frame ids C C' i n"
    "nd_role (cl_node C i) = Leader" "nd_role n = Leader" "nd_currentTerm n = node_term C i"
    "nd_log n = nd_log (cl_node C i) @ [e]" "le_Term e = nd_currentTerm n"
    "nd_matchIndex n = (nd_matchIndex (cl_node C i))(i := length (nd_log (cl_node C i)))"
    "cl_tlog C' = (cl_tlog C)(nd_currentTerm n := nd_log n)"
    "cl_acks C' = insert (i, nd_currentTerm n, length (nd_log (cl_node C i))) (cl_acks C)"
    "cl_led C' = cl_led C" "cl_cast C' = cl_cast C" "old_requests C C'" "old_replies C C'" "cl_voters C' = cl_voters C"
  shows "acks_ok ids C'" "grown C C'"
proof -
  note D = acks_okD [OF assms(1)] and F = frameD [OF assms(6)]
  let ?t = "nd_currentTerm n"
  note p = logs_ok_proposed [OF assms(2-11,13,15-17)]
  have log: "nd_log n = cl_tlog C' ?t" "nd_log (cl_node C i) = cl_tlog C ?t"
    using assms(10) p(2) by (simp_all add: assms(13))
  have h: "u \<noteq> ?t \<Longrightarrow> cl_tlog C' u = cl_tlog C u" for u by (simp add: assms(13))
  have has: "has (cl_tlog C' ?t) t j \<longleftrightarrow> has (cl_tlog C ?t) t j \<or> t = ?t \<and> j = length (cl_tlog C ?t)" for t j
    unfolding p(2) using assms(11) by (auto simp: has_def nth_append less_Suc_eq)
  show g: "grown C C'" unfolding grown_def
  proof (intro conjI allI impI)
    show "prefix (cl_tlog C t) (cl_tlog C' t)" for t using h [of t] p(2) by (cases "t = ?t") simp_all
    show "has (cl_tlog C v) t j" if "t \<noteq> v" "has (cl_tlog C' v) t j" for v t j
      using h [of v] has [of t j] that by (cases "v = ?t") simp_all
  qed (use assms(15) in simp)
  have led: "led_term C' ?t" using p(3) assms(15) by (auto simp: led_term_def)
  show "acks_ok ids C'"
  proof (rule acks_ok_step [OF assms(1,6,4) g assms(2)])
    show "matches_ok ids C'"
    proof (rule matches_ok_step [OF assms(1,6)])
      show "(q, ?t, nd_matchIndex n q) \<in> cl_acks C'" if "0 < nd_matchIndex n q" for q
        using D(6) [OF F(1) assms(7), of q] that by (simp add: assms(9,12,14) split: if_splits)
    qed (use assms(14,18) in \<open>auto simp: old_replies_def\<close>)
    show "leader_held_ok C'" unfolding leader_held_ok_def
    proof (intro allI impI)
      fix d t j assume a: "(d, t) \<in> cl_led C'" "has (cl_tlog C' t) t j"
      show "(d, t, j) \<in> cl_acks C'"
      proof (cases "t = ?t")
        case True
        have "d = i" using a(1) p(3) True assms(5,15) unfolding single_leader_def by metis
        then show ?thesis using a has [of t j] D(5) [of i t j] True p(3) log(2) by (auto simp: assms(14))
      next
        case False
        then show ?thesis using a D(5) [of d t j] h [of t] assms(15) by (simp add: assms(14))
      qed
    qed
    show "q = i \<and> t = ?t \<and> led_term C' t \<and> k < length (cl_tlog C' t) \<and> (\<forall>j\<le>k. has (cl_tlog C' t) t j \<longrightarrow> has (nd_log n) t j)"
      if "(q, t, k) \<in> cl_acks C'" "(q, t, k) \<notin> cl_acks C" for q t k
    proof -
      have "q = i" "t = ?t" "k = length (cl_tlog C ?t)" using that by (auto simp: assms(14) log(2))
      then show ?thesis using led log(1) p(2) by simp
    qed
    show "has (nd_log n) t j \<or> skipped C' t j (Suc ?t)" if "has (nd_log (cl_node C i)) t j" for t j
      using that has [of t j] log by simp
  qed (use assms(14-17,19) in \<open>auto simp: old_requests_def\<close>)
qed

lemma protocol_step_grown:
  assumes "protocol_step ids C C'" "cluster_wf ids C" "votes_ok ids C" "votes_ok ids C'" "single_leader C'"
    "logs_ok ids C" "acks_ok ids C"
  shows "grown C C' \<and> acks_ok ids C' \<and> cl_acks C \<subseteq> cl_acks C'"
  using assms(1)
proof cases
  case (quiet i n)
  have "acks_ok ids C'"
  proof (rule acks_ok_quiet [OF assms(7,6,4) quiet(1,6-8) _ quiet(5)])
    show "(p, nd_currentTerm n, nd_matchIndex n p) \<in> cl_acks C" if "nd_role n = Leader" "0 < nd_matchIndex n p" for p
      using acks_okD(6) [OF assms(7) frameD(1) [OF quiet(1)], of p] quiet(2) that by (simp add: stays_def)
  qed (use quiet(2,4,9) in \<open>simp_all add: stays_def\<close>)
  then show ?thesis using grown_same [OF quiet(6)] quiet(5) by simp
next
  case (voted p n c a)
  then show ?thesis
    using acks_ok_voted [OF assms(7,6,2,4) voted(1,2,4-12)] grown_same by simp
next
  case (campaigned i n)
  then show ?thesis using acks_ok_campaigned [OF assms(7,6,4) campaigned(1-4,6,8-12)] grown_same by simp
next
  case (won c n)
  have "acks_ok ids C'" "grown C C'"
    by (rule acks_ok_won [OF assms(7,6,2,4,5) won(1-6,8-13)]; rule won(14); assumption)+
  then show ?thesis using won(11) by simp
next
  case (appended p n l a)
  have "acks_ok ids C'"
    by (rule acks_ok_appended [OF assms(7,6,4) appended(1-8,10-14)]; rule appended(15); assumption)
  then show ?thesis using grown_same [OF appended(12)] appended(10) by auto
next
  case (replied l n p a r)
  note F = frameD [OF replied(1)]
  have "acks_ok ids C'"
  proof (rule acks_ok_quiet [OF assms(7,6,4) replied(1,13-15,8,12)])
    show "(q, nd_currentTerm n, nd_matchIndex n q) \<in> cl_acks C" if "0 < nd_matchIndex n q" for q
      using acks_okD(6) [OF assms(7) F(1) replied(4), of q] acks_okD(7) [OF assms(7) replied(2,3)] that replied(6,7,9)
      by (auto simp: max_def split: if_splits)
  qed (use replied(11,16) in simp_all)
  then show ?thesis using grown_same [OF replied(13)] replied(12) by simp
next
  case (proposed i n e)
  show ?thesis using acks_ok_proposed [OF assms(7,6,3-5) proposed(1-7,9-15)] proposed(10) by auto
qed

section \<open>The invariant of the commit indices\<close>

text \<open>An entry is chosen when a majority has stored it in the term it was created in.\<close>

definition chosen :: "bytes set \<Rightarrow> cluster \<Rightarrow> nat \<Rightarrow> nat \<Rightarrow> bool" where
  "chosen ids C t j \<longleftrightarrow> has (cl_tlog C t) t j \<and> (\<exists>Q\<subseteq>ids. card ids < 2 * card Q \<and> (\<forall>p\<in>Q. stored C p t j))"

lemma chosen_grown:
  assumes "grown C C'" "cl_acks C \<subseteq> cl_acks C'" "chosen ids C t j"
  shows "chosen ids C' t j" "take (Suc j) (cl_tlog C' t) = take (Suc j) (cl_tlog C t)"
proof -
  have "stored C' p t j" if "stored C p t j" for p
    using that grown_has [OF assms(1), of t t j] assms(2) by (auto simp: stored_def)
  then show "chosen ids C' t j" using assms(3) grown_has [OF assms(1), of t t j] unfolding chosen_def by blast
  have "prefix (cl_tlog C t) (cl_tlog C' t)" "j < length (cl_tlog C t)"
    using assms(1,3) by (simp_all add: grown_def chosen_def has_def)
  then show "take (Suc j) (cl_tlog C' t) = take (Suc j) (cl_tlog C t)" by (rule prefix_take_Suc)
qed

text \<open>Every leader of a later term has the chosen entries.\<close>

lemma chosen_in_leaders:
  assumes "cluster_wf ids C" "votes_ok ids C" "acks_ok ids C" "chosen ids C t j"
  shows "led_term C u \<Longrightarrow> t < u \<Longrightarrow> has (cl_tlog C u) t j"
proof (induction u rule: less_induct)
  case (less u)
  from less.prems(1) obtain c where c: "(c, u) \<in> cl_led C" by (auto simp: led_term_def)
  note A = leader_majority [OF assms(1,2) c]
  from assms(4) obtain Q where Q: "Q \<subseteq> ids" "card ids < 2 * card Q" "\<And>p. p \<in> Q \<Longrightarrow> stored C p t j"
    by (auto simp: chosen_def)
  from majorities_meet [OF cluster_wfD(1) [OF assms(1)] A(1) Q(1) A(2) Q(2)] obtain p where
    p: "p \<in> insert c (set (cl_voters C c u))" "p \<in> Q" by blast
  have "\<not> skipped C t j u" using less.IH unfolding skipped_def by blast
  then show ?case using acks_okD(4) [OF assms(3) c p(1) less.prems(2) Q(3) [OF p(2)]] by blast
qed

lemma chosen_agree:
  assumes "cluster_wf ids C" "votes_ok ids C" "logs_ok ids C" "acks_ok ids C" "chosen ids C t j" "t \<le> u"
    "t = u \<or> led_term C u"
  shows "take (Suc j) (cl_tlog C u) = take (Suc j) (cl_tlog C t)"
proof (cases "t = u")
  case False
  then have "has (cl_tlog C u) t j" using chosen_in_leaders [OF assms(1,2,4,5)] assms(6,7) by simp
  moreover have "has (cl_tlog C t) t j" using assms(5) by (simp add: chosen_def)
  moreover have "traced (cl_tlog C) (cl_tlog C v)" for v using logs_okD(1) [OF assms(3), of v] by (simp add: tlog_ok_def)
  ultimately show ?thesis by (intro has_agree)
qed simp

lemma chosen_led: "acks_ok ids C \<Longrightarrow> chosen ids C t j \<Longrightarrow> led_term C t"
proof -
  assume a: "acks_ok ids C" "chosen ids C t j"
  then obtain Q where Q: "card ids < 2 * card Q" "\<forall>p\<in>Q. stored C p t j" by (auto simp: chosen_def)
  have "Q \<noteq> {}" using Q(1) by auto
  then obtain p where "stored C p t j" using Q(2) by blast
  then obtain k where "(p, t, k) \<in> cl_acks C" unfolding stored_def by blast
  then show ?thesis using acks_okD(1) [OF a(1)] by blast
qed

text \<open>Up to index \<open>m\<close> the log \<open>l\<close> of a member in term \<open>t\<close> is chosen.\<close>

definition settled :: "bytes set \<Rightarrow> cluster \<Rightarrow> nat \<Rightarrow> LogEntry list \<Rightarrow> nat \<Rightarrow> bool" where
  "settled ids C t l m \<longleftrightarrow>
     m = 0 \<or> (\<exists>v j. chosen ids C v j \<and> v \<le> t \<and> m \<le> j \<and> m < length l \<and> take (Suc m) l = take (Suc m) (cl_tlog C v))"

lemma settled_mono:
  assumes "settled ids C t l m" "t \<le> t'" "take (Suc m) l' = take (Suc m) l"
  shows "settled ids C t' l' m"
proof -
  have "m < length l' \<longleftrightarrow> m < length l" using take_Suc_nth(1) [OF assms(3), of m] by simp
  then show ?thesis using assms(1,2) order_trans [OF _ assms(2)] unfolding settled_def assms(3) by blast
qed

lemma settled_grown:
  assumes "grown C C'" "cl_acks C \<subseteq> cl_acks C'" "settled ids C t l m"
  shows "settled ids C' t l m"
proof (cases "m = 0")
  case False
  then obtain v j where v: "chosen ids C v j" "v \<le> t" "m \<le> j" "m < length l" "take (Suc m) l = take (Suc m) (cl_tlog C v)"
    using assms(3) by (auto simp: settled_def)
  note c = chosen_grown [OF assms(1,2) v(1)]
  have "take (Suc m) l = take (Suc m) (cl_tlog C' v)" using v(5) take_Suc_mono [OF c(2) v(3)] by simp
  then show ?thesis using v c(1) unfolding settled_def by blast
qed (simp add: settled_def)

text \<open>What is settled does not depend on the leader that is asked.\<close>

lemma settled_agree:
  assumes "cluster_wf ids C" "votes_ok ids C" "logs_ok ids C" "acks_ok ids C" "settled ids C t l m" "led_term C u" "t \<le> u"
  shows "m = 0 \<or> take (Suc m) l = take (Suc m) (cl_tlog C u) \<and> m < length (cl_tlog C u)"
proof (cases "m = 0")
  case False
  then obtain v j where v: "chosen ids C v j" "v \<le> t" "m \<le> j" "m < length l" "take (Suc m) l = take (Suc m) (cl_tlog C v)"
    using assms(5) by (auto simp: settled_def)
  have "take (Suc j) (cl_tlog C u) = take (Suc j) (cl_tlog C v)"
    by (rule chosen_agree [OF assms(1-4) v(1)]) (use v(2) assms(6,7) in simp_all)
  from take_Suc_mono [OF this v(3)] have "take (Suc m) (cl_tlog C u) = take (Suc m) l" using v(5) by (simp only:)
  then show ?thesis using take_Suc_nth(1) [of m "cl_tlog C u" l m] v(4) by (metis order.refl)
qed simp

definition commits_ok :: "bytes set \<Rightarrow> cluster \<Rightarrow> bool" where
  "commits_ok ids C \<longleftrightarrow>
     (\<forall>i\<in>ids. settled ids C (node_term C i) (nd_log (cl_node C i)) (nd_commitIndex (cl_node C i))) \<and>
     (\<forall>l p a. AppReq l p a \<in># cl_net C \<longrightarrow> settled ids C (ae_Term a) (cl_tlog C (ae_Term a)) (ae_LeaderCommit a))"

lemma commits_ok_step:
  assumes "commits_ok ids C" "frame ids C C' i n" "grown C C'" "cl_acks C \<subseteq> cl_acks C'" "logs_ok ids C'"
    "settled ids C' (nd_currentTerm n) (nd_log n) (nd_commitIndex n)"
  shows "commits_ok ids C'"
  unfolding commits_ok_def
proof (intro conjI ballI allI impI)
  note F = frameD [OF assms(2)]
  show "settled ids C' (node_term C' j) (nd_log (cl_node C' j)) (nd_commitIndex (cl_node C' j))" if "j \<in> ids" for j
    using assms(1,6) settled_grown [OF assms(3,4)] F(2) that by (simp add: commits_ok_def)
  show "settled ids C' (ae_Term a) (cl_tlog C' (ae_Term a)) (ae_LeaderCommit a)" if "AppReq l p a \<in># cl_net C'" for l p a
    using F(4) [OF that]
  proof (elim disjE conjE)
    assume "AppReq l p a \<in># cl_net C"
    then have s: "settled ids C (ae_Term a) (cl_tlog C (ae_Term a)) (ae_LeaderCommit a)" using assms(1) by (auto simp: commits_ok_def)
    have "prefix (cl_tlog C (ae_Term a)) (cl_tlog C' (ae_Term a))" using assms(3) by (simp add: grown_def)
    then have eq: "take (Suc m) (cl_tlog C' (ae_Term a)) = take (Suc m) (cl_tlog C (ae_Term a))"
      if "m < length (cl_tlog C (ae_Term a))" for m using that by (rule prefix_take_Suc)
    show ?thesis
    proof (cases "ae_LeaderCommit a = 0")
      case False
      then have "ae_LeaderCommit a < length (cl_tlog C (ae_Term a))" using s by (auto simp: settled_def)
      then show ?thesis by (rule settled_mono [OF settled_grown [OF assms(3,4) s] order.refl eq])
    qed (simp add: settled_def)
  next
    assume s: "l = i" "nd_role n = Leader" "sendAppendEntries p n = Some a"
    have "node_ok C' i n" using logs_okD(2) [OF assms(5) F(1)] F(2) by simp
    then show ?thesis using sendAppendEntries_Some [OF s(3)] assms(6) s(2) by (simp add: node_ok_def)
  qed
qed

text \<open>The three ways a commit index changes: with the log of a leader, with a majority, not at all.\<close>

lemma settled_appended:
  assumes "cluster_wf ids C" "votes_ok ids C" "logs_ok ids C" "acks_ok ids C" "commits_ok ids C" "p \<in> ids"
    "AppReq l p a \<in># cl_net C" "node_term C p \<le> ae_Term a"
    "ae_PrevLogIndex a < length (nd_log (cl_node C p))" "le_Term (nd_log (cl_node C p) ! ae_PrevLogIndex a) = ae_PrevLogTerm a"
  defines "l' \<equiv> merge_log (Suc (ae_PrevLogIndex a)) (ae_Entries a) (nd_log (cl_node C p))"
    and "m \<equiv> ae_PrevLogIndex a + length (ae_Entries a)"
  shows "settled ids C (ae_Term a) l' (nd_commitIndex (cl_node C p))" "settled ids C (ae_Term a) l' (min (ae_LeaderCommit a) m)"
proof -
  let ?l = "nd_log (cl_node C p)" and ?c = "nd_commitIndex (cl_node C p)" and ?L = "cl_tlog C (ae_Term a)"
  note r = accepted_result [OF assms(3,6,7,9,10)]
  note M = merge_result [OF r assms(9,10), folded m_def l'_def]
  have led: "led_term C (ae_Term a)" using logs_okD(3) [OF assms(3,7)] by (auto simp: led_term_def)
  have s: "settled ids C (node_term C p) ?l ?c" "settled ids C (ae_Term a) ?L (ae_LeaderCommit a)"
    using assms(5-7) by (auto simp: commits_ok_def)
  show "settled ids C (ae_Term a) l' ?c"
  proof (cases "?c = 0")
    case False
    then have "take (Suc ?c) ?l = take (Suc ?c) ?L" "?c < length ?l"
      using settled_agree [OF assms(1-4) s(1) led assms(8)] s(1) by (auto simp: settled_def)
    then have "take (Suc ?c) l' = take (Suc ?c) ?l" using M(6) by blast
    then show ?thesis by (rule settled_mono [OF s(1) assms(8)])
  qed (simp add: settled_def)
  let ?k = "min (ae_LeaderCommit a) m"
  show "settled ids C (ae_Term a) l' ?k"
  proof (cases "?k = 0")
    case False
    then obtain v j where v: "chosen ids C v j" "v \<le> ae_Term a" "ae_LeaderCommit a \<le> j"
      "take (Suc (ae_LeaderCommit a)) ?L = take (Suc (ae_LeaderCommit a)) (cl_tlog C v)"
      using s(2) by (auto simp: settled_def)
    have "take (Suc ?k) l' = take (Suc ?k) ?L" using take_Suc_mono [OF M(3), of ?k] by simp
    also have "\<dots> = take (Suc ?k) (cl_tlog C v)" using take_Suc_mono [OF v(4), of ?k] by simp
    finally have "take (Suc ?k) l' = take (Suc ?k) (cl_tlog C v)" .
    moreover have "?k < length l'" "?k \<le> j" using M(4) v(3) by simp_all
    ultimately show ?thesis using v(1,2) unfolding settled_def by blast
  qed (simp add: settled_def)
qed

lemma settled_replied:
  assumes "cluster_wf ids C'" "votes_ok ids C'" "logs_ok ids C'" "acks_ok ids C'" "l \<in> ids" "n = cl_node C' l"
    "nd_role n = Leader" "committable (n\<lparr>nd_commitIndex := c\<rparr>) j"
  shows "settled ids C' (nd_currentTerm n) (nd_log n) j"
proof -
  let ?t = "nd_currentTerm n" and ?ps = "filter (\<lambda>p. j \<le> nd_matchIndex n p) (nd_peers n)"
  have m: "distinct (nd_peers n)" "set (nd_peers n) = ids - {l}"
    using cluster_wfD(4) [OF assms(1,5)] assms(6) by (simp_all add: member_def)
  have j: "0 < j" "j < length (nd_log n)" "le_Term (nd_log n ! j) = ?t" "length (nd_peers n) + 1 < 2 * (1 + length ?ps)"
    using assms(8) by (simp_all add: committable_def)
  have log: "nd_log n = cl_tlog C' ?t" using logs_okD(2) [OF assms(3,5)] assms(6,7) by (simp add: node_ok_def)
  then have has: "has (cl_tlog C' ?t) ?t j" using j(2,3) by (simp add: has_def)
  have led: "(l, ?t) \<in> cl_led C'" using votes_okD(10) [OF assms(2,5)] assms(6,7) by simp
  let ?Q = "insert l (set ?ps)"
  have "stored C' p ?t j" if "p \<in> set ?ps" for p
  proof -
    have "j \<le> nd_matchIndex n p" using that by simp
    moreover from this have "(p, ?t, nd_matchIndex n p) \<in> cl_acks C'"
      using acks_okD(6) [OF assms(4,5), of p, folded assms(6), OF assms(7)] j(1) by simp
    ultimately show ?thesis using has unfolding stored_def by blast
  qed
  moreover have "stored C' l ?t j" using acks_okD(5) [OF assms(4) led has] has unfolding stored_def by blast
  ultimately have st: "\<forall>p\<in>?Q. stored C' p ?t j" by blast
  have "card (ids - {l}) = length (nd_peers n)" using m(2) distinct_card [OF m(1)] by simp
  then have "card ids = length (nd_peers n) + 1"
    using card_Suc_Diff1 [OF cluster_wfD(1) [OF assms(1)] assms(5)] by (simp only: Suc_eq_plus1)
  moreover have l: "l \<notin> set ?ps" "distinct ?ps" using m by simp_all
  have "card ?Q = 1 + length ?ps"
    using card_insert_disjoint [OF List.finite_set l(1)] distinct_card [OF l(2)] by (simp only: plus_1_eq_Suc)
  ultimately have card: "card ids < 2 * card ?Q" using j(4) by simp
  have "?Q \<subseteq> ids" using m(2) assms(5) by auto
  then have "chosen ids C' ?t j" using has st card unfolding chosen_def by blast
  moreover have "take (Suc j) (nd_log n) = take (Suc j) (cl_tlog C' ?t)" by (simp only: log)
  ultimately show ?thesis using j(2) unfolding settled_def by blast
qed

lemma protocol_step_commits:
  assumes "protocol_step ids C C'" "cluster_wf ids C" "votes_ok ids C" "cluster_wf ids C'" "votes_ok ids C'" "single_leader C'"
    "logs_ok ids C" "acks_ok ids C" "commits_ok ids C"
  shows "commits_ok ids C'"
proof -
  have L: "logs_ok ids C'" using protocol_step_logs [OF assms(1-3,5-7)] .
  have G: "grown C C'" "acks_ok ids C'" "cl_acks C \<subseteq> cl_acks C'" using protocol_step_grown [OF assms(1-3,5-8)] by simp_all
  have old: "settled ids C' t l (nd_commitIndex (cl_node C i))"
    if "i \<in> ids" "node_term C i \<le> t" "prefix (nd_log (cl_node C i)) l" for i t l
  proof -
    let ?c = "nd_commitIndex (cl_node C i)"
    have s: "settled ids C (node_term C i) (nd_log (cl_node C i)) ?c" using assms(9) that(1) by (simp add: commits_ok_def)
    show ?thesis
    proof (cases "?c = 0")
      case False
      then have "?c < length (nd_log (cl_node C i))" using s by (auto simp: settled_def)
      from prefix_take_Suc [OF that(3) this] show ?thesis by (rule settled_mono [OF settled_grown [OF G(1,3) s] that(2)])
    qed (simp add: settled_def)
  qed
  have step: ?thesis if "frame ids C C' i n" "settled ids C' (nd_currentTerm n) (nd_log n) (nd_commitIndex n)" for i n
    using commits_ok_step [OF assms(9) that(1) G(1,3) L that(2)] .
  from assms(1) show ?thesis
  proof cases
    case (quiet i n)
    note F = frameD [OF quiet(1)]
    have "settled ids C' (nd_currentTerm n) (nd_log n) (nd_commitIndex n)"
      using old [OF F(1,3), of "nd_log n"] quiet(2,3) by (auto simp: stays_def settled_def [of _ _ _ _ 0])
    then show ?thesis by (rule step [OF quiet(1)])
  next
    case (voted p n c a)
    note F = frameD [OF voted(1)]
    show ?thesis by (rule step [OF voted(1)]) (use old [OF F(1,3), of "nd_log n"] voted(2,3) in \<open>simp add: stays_def\<close>)
  next
    case (campaigned i n)
    note F = frameD [OF campaigned(1)]
    show ?thesis by (rule step [OF campaigned(1)]) (use old [OF F(1,3), of "nd_log n"] campaigned(4,5) in simp)
  next
    case (won c n)
    note F = frameD [OF won(1)]
    show ?thesis by (rule step [OF won(1)]) (use old [OF F(1,3), of "nd_log n"] won(5,7) in simp)
  next
    case (appended p n l a)
    note F = frameD [OF appended(1)]
    note s = settled_appended [OF assms(2,3,7-9) F(1) appended(2,3,6,7), folded appended(8)]
    show ?thesis
      by (rule step [OF appended(1)], rule settled_grown [OF G(1,3)]) (use s appended(4,9) in simp)
  next
    case (replied l n p a r)
    note F = frameD [OF replied(1)]
    have "n = cl_node C' l" using F(2) by simp
    note s = settled_replied [OF assms(4,5) L G(2) F(1) this replied(5)]
    have "settled ids C' (nd_currentTerm n) (nd_log n) (nd_commitIndex n)"
      using replied(10)
    proof
      assume "nd_commitIndex n = nd_commitIndex (cl_node C l)"
      then show ?thesis using old [OF F(1,3), of "nd_log n"] replied(8) by simp
    qed (rule s)
    then show ?thesis by (rule step [OF replied(1)])
  next
    case (proposed i n e)
    note F = frameD [OF proposed(1)]
    show ?thesis by (rule step [OF proposed(1)]) (use old [OF F(1,3), of "nd_log n"] proposed(5,8) in simp)
  qed
qed

section \<open>Reachable clusters\<close>

lemma cluster_step_led: "cluster_step ids C C' \<Longrightarrow> cl_led C \<subseteq> cl_led C'"
  by (erule cluster_step.cases) auto

lemma single_leader_back: "cluster_step ids C C' \<Longrightarrow> single_leader C' \<Longrightarrow> single_leader C"
  using cluster_step_led unfolding single_leader_def by blast

definition safe :: "bytes set \<Rightarrow> cluster \<Rightarrow> bool" where
  "safe ids C \<longleftrightarrow> logs_ok ids C \<and> acks_ok ids C \<and> commits_ok ids C"

lemma cluster_init_safe:
  assumes "cluster_init ids C" shows "safe ids C"
proof -
  have n: "nd_log (cl_node C i) = [sentinel 0]" "nd_role (cl_node C i) = Follower" "nd_commitIndex (cl_node C i) = 0"
    if "i \<in> ids" for i
    using assms that fresh_node_member [of ids i "cl_node C i"] by (auto simp: cluster_init_def)
  have h: "cl_tlog C = (\<lambda>t. if t = 0 then [sentinel 0] else [])" "cl_led C = {}" "cl_net C = {#}" "cl_acks C = {}" "cl_cast C = {}"
    "cl_clog C = (\<lambda>_ _. [])"
    using assms by (simp_all add: cluster_init_def)
  have t: "traced (cl_tlog C) [sentinel 0]" by (simp add: traced_def h sentinel_def)
  moreover have "traced (cl_tlog C) []" by (simp add: traced_def)
  ultimately have "tlog_ok C t" for t
    by (cases "t = 0") (simp_all add: tlog_ok_def led_term_def h sentinel_def)
  moreover have "node_ok C i (cl_node C i)" if "i \<in> ids" for i
    using n [OF that] t by (simp add: node_ok_def sentinel_def)
  ultimately have "logs_ok ids C" by (simp add: logs_ok_def requests_ok_def clogs_ok_def h)
  moreover have "acks_ok ids C"
    using n by (simp add: acks_ok_def acked_ok_def held_ok_def cast_held_ok_def led_held_ok_def leader_held_ok_def matches_ok_def stored_def h)
  moreover have "commits_ok ids C" using n by (simp add: commits_ok_def settled_def h)
  ultimately show ?thesis by (simp add: safe_def)
qed

lemma cluster_step_safe:
  assumes "cluster_step ids C C'" "cluster_wf ids C" "votes_ok ids C" "single_leader C'" "safe ids C"
  shows "safe ids C' \<and> grown C C' \<and> cl_acks C \<subseteq> cl_acks C'"
proof -
  have s: "logs_ok ids C" "acks_ok ids C" "commits_ok ids C" using assms(5) by (simp_all add: safe_def)
  have ok: "cluster_wf ids C'" "votes_ok ids C'"
    using cluster_step_wf [OF assms(1,2)] cluster_step_votes [OF assms(1-3)] by simp_all
  have p: "protocol_step ids C C'"
    by (rule cluster_step_protocol [OF assms(1-3)]) (use logs_okD(2) [OF s(1)] in \<open>simp add: node_ok_def\<close>)
  show ?thesis
    using protocol_step_logs [OF p assms(2,3) ok(2) assms(4) s(1)] protocol_step_grown [OF p assms(2,3) ok(2) assms(4) s(1,2)]
      protocol_step_commits [OF p assms(2,3) ok assms(4) s] by (simp add: safe_def)
qed

lemma cluster_reach_safe: "cluster_reach ids C \<Longrightarrow> single_leader C \<Longrightarrow> safe ids C"
proof (induction rule: cluster_reach.induct)
  case (init C)
  then show ?case by (simp add: cluster_init_safe)
next
  case (step C C')
  have "cluster_wf ids C" "votes_ok ids C" using cluster_reach_votes [OF step(1)] by simp_all
  then show ?case using cluster_step_safe [OF step(2)] step(4) step(3) [OF single_leader_back [OF step(2,4)]] by blast
qed

text \<open>A run from one state of the cluster to a later one.\<close>

inductive cluster_run :: "bytes set \<Rightarrow> cluster \<Rightarrow> cluster \<Rightarrow> bool" for ids C where
  stop: "cluster_run ids C C"
| more: "cluster_run ids C C' \<Longrightarrow> cluster_step ids C' C'' \<Longrightarrow> cluster_run ids C C''"

lemma cluster_run_reach: "cluster_run ids C C' \<Longrightarrow> cluster_reach ids C \<Longrightarrow> cluster_reach ids C'"
  by (induction rule: cluster_run.induct) (auto intro: cluster_reach.step)

lemma cluster_run_settled:
  assumes "cluster_run ids C C'" "cluster_reach ids C" "single_leader C'" "settled ids C t l m"
  shows "settled ids C' t l m \<and> single_leader C"
  using assms(1,3)
proof (induction rule: cluster_run.induct)
  case stop
  then show ?case using assms(4) by simp
next
  case (more C' C'')
  note s = single_leader_back [OF more(2,4)] and r = cluster_run_reach [OF more(1) assms(2)]
  have "cluster_wf ids C'" "votes_ok ids C'" using cluster_reach_votes [OF r] by simp_all
  then have "grown C' C''" "cl_acks C' \<subseteq> cl_acks C''"
    using cluster_step_safe [OF more(2) _ _ more(4) cluster_reach_safe [OF r s]] by simp_all
  then show ?case using settled_grown more(3) [OF s] by blast
qed

lemma settled_pair:
  assumes "cluster_wf ids C" "votes_ok ids C" "logs_ok ids C" "acks_ok ids C" "settled ids C t l m" "settled ids C t' l' m'"
    "k \<le> m" "k \<le> m'" "0 < k"
  shows "k < length l \<and> k < length l' \<and> l ! k = l' ! k"
proof -
  obtain v j where v: "chosen ids C v j" "m \<le> j" "m < length l" "take (Suc m) l = take (Suc m) (cl_tlog C v)"
    using assms(5,7,9) by (auto simp: settled_def)
  obtain v' j' where v': "chosen ids C v' j'" "m' \<le> j'" "m' < length l'" "take (Suc m') l' = take (Suc m') (cl_tlog C v')"
    using assms(6,8,9) by (auto simp: settled_def)
  have eq: "l ! k = cl_tlog C v ! k" "l' ! k = cl_tlog C v' ! k"
    using take_Suc_nth(2) [OF v(4) assms(7)] take_Suc_nth(2) [OF v'(4) assms(8)] v(3) v'(3) assms(7,8) by simp_all
  have same: "cl_tlog C w ! k = cl_tlog C w' ! k" if "chosen ids C w i" "k \<le> i" "chosen ids C w' i'" "w \<le> w'" for w w' i i'
  proof -
    have "take (Suc i) (cl_tlog C w') = take (Suc i) (cl_tlog C w)"
      by (rule chosen_agree [OF assms(1-4) that(1,4)]) (use chosen_led [OF assms(4) that(3)] in simp)
    moreover have "k < length (cl_tlog C w)" using that(1,2) by (simp add: chosen_def has_def)
    ultimately show ?thesis using take_Suc_nth [of i "cl_tlog C w'" "cl_tlog C w" k] that(2) by simp
  qed
  have "cl_tlog C v ! k = cl_tlog C v' ! k"
  proof (cases "v \<le> v'")
    case True
    show ?thesis by (rule same [OF v(1) _ v'(1) True]) (use v(2) assms(7) in simp)
  next
    case False
    then have le: "v' \<le> v" by simp
    show ?thesis by (rule same [OF v'(1) _ v(1) le, symmetric]) (use v'(2) assms(8) in simp)
  qed
  then show ?thesis using eq v(3) v'(3) assms(7,8) by simp
qed

lemma run_safe:
  assumes "cluster_reach ids C" "cluster_run ids C C'" "single_leader C'"
  shows "cluster_wf ids C" "votes_ok ids C" "logs_ok ids C" "acks_ok ids C" "commits_ok ids C"
    "cluster_wf ids C'" "votes_ok ids C'" "logs_ok ids C'" "acks_ok ids C'" "commits_ok ids C'"
proof -
  have "single_leader C" using cluster_run_settled [OF assms(2,1,3), of 0 "[]" 0] by (simp add: settled_def)
  then have "safe ids C" "safe ids C'" using cluster_reach_safe assms cluster_run_reach [OF assms(2,1)] by blast+
  then show "logs_ok ids C" "acks_ok ids C" "commits_ok ids C" "logs_ok ids C'" "acks_ok ids C'" "commits_ok ids C'"
    by (simp_all add: safe_def)
  show "cluster_wf ids C" "votes_ok ids C" "cluster_wf ids C'" "votes_ok ids C'"
    using cluster_reach_votes assms(1) cluster_run_reach [OF assms(2,1)] by simp_all
qed

lemma first_entry:
  assumes "logs_ok ids C" "cluster_wf ids C" "i \<in> ids"
  shows "nd_log (cl_node C i) \<noteq> []" "nd_log (cl_node C i) ! 0 = sentinel 0"
proof -
  show "nd_log (cl_node C i) \<noteq> []" using cluster_wfD(4) [OF assms(2,3)] by (simp add: member_def node_wf_iff)
  moreover have "traced (cl_tlog C) (nd_log (cl_node C i))" using logs_okD(2) [OF assms(1,3)] by (simp add: node_ok_def)
  ultimately show "nd_log (cl_node C i) ! 0 = sentinel 0" by (intro traced_shape(2) [OF logs_okD(1) [OF assms(1)]])
qed

text \<open>Two commit indices, the second at a later time.\<close>

lemma settled_later:
  assumes "cluster_reach ids C" "cluster_run ids C C'" "single_leader C'" "i \<in> ids" "j \<in> ids"
    "k \<le> nd_commitIndex (cl_node C i)" "settled ids C' t l m" "k \<le> m" "l \<noteq> []" "l ! 0 = sentinel 0"
  shows "k < length (nd_log (cl_node C i)) \<and> k < length l \<and> nd_log (cl_node C i) ! k = l ! k"
proof (cases "k = 0")
  case True
  then show ?thesis using first_entry [OF run_safe(3,1) [OF assms(1-3)] assms(4)] assms(9,10) by simp
next
  case False
  note S = run_safe [OF assms(1-3)]
  have "settled ids C (node_term C i) (nd_log (cl_node C i)) (nd_commitIndex (cl_node C i))"
    using S(5) assms(4) by (simp add: commits_ok_def)
  then have "settled ids C' (node_term C i) (nd_log (cl_node C i)) (nd_commitIndex (cl_node C i))"
    using cluster_run_settled [OF assms(2,1,3)] by blast
  from settled_pair [OF S(6-9) this assms(7,6,8)] show ?thesis using False by simp
qed

section \<open>A run that commits an entry\<close>

text \<open>The first leader of the trio replicates one command to \<open>a\<close> and tells it that the command is committed.\<close>

definition entry :: LogEntry where
  "entry = \<lparr>le_Term = 1, le_Command = Some (str ''x'')\<rparr>"

definition send_entry :: AppendEntriesArgs where
  "send_entry = \<lparr>ae_Term = 1, ae_LeaderId = str ''b'', ae_PrevLogIndex = 0, ae_PrevLogTerm = 0, ae_Entries = [entry], ae_LeaderCommit = 0\<rparr>"

definition send_commit :: AppendEntriesArgs where
  "send_commit = \<lparr>ae_Term = 1, ae_LeaderId = str ''b'', ae_PrevLogIndex = 1, ae_PrevLogTerm = 1, ae_Entries = [], ae_LeaderCommit = 1\<rparr>"

definition accepted :: AppendEntriesReply where
  "accepted = \<lparr>aer_Term = 1, aer_Success = True, aer_ConflictIndex = 0, aer_ConflictTerm = 0\<rparr>"

lemma trio_propose:
  assumes "new_leader (str ''b'') [str ''a'', str ''c''] n"
  shows "\<exists>n'. Propose (str ''x'') n = Some ((1, 1, True), n', [(str ''a'', send_entry), (str ''c'', send_entry)]) \<and>
    nd_role n' = Leader \<and> nd_currentTerm n' = 1 \<and> nd_log n' = [sentinel 0, entry] \<and> nd_commitIndex n' = 0 \<and>
    nd_peers n' = [str ''a'', str ''c''] \<and> nd_id n' = str ''b'' \<and>
    nd_matchIndex n' (str ''a'') = 0 \<and> nd_matchIndex n' (str ''c'') = 0 \<and> nd_nextIndex n' (str ''c'') = 1 \<and>
    nd_lastApplied n' = 0"
  using assms
  by (simp add: new_leader_def Propose_def Let_def broadcastAppendEntries_def sendAppendEntries_def entry_def send_entry_def sentinel_def)

lemma trio_append:
  assumes "nd_currentTerm n = 1" "nd_log n = [sentinel 0]" "nd_commitIndex n = 0"
  shows "\<exists>n'. HandleAppendEntries 0 send_entry n = (accepted, n') \<and>
    nd_currentTerm n' = 1 \<and> nd_log n' = [sentinel 0, entry] \<and> nd_commitIndex n' = 0 \<and> nd_lastApplied n' = nd_lastApplied n"
  using assms by (simp add: HandleAppendEntries_def Let_def send_entry_def accepted_def entry_def sentinel_def)

lemma trio_commit:
  assumes "nd_role n = Leader" "nd_currentTerm n = 1" "nd_log n = [sentinel 0, entry]" "nd_commitIndex n = 0"
    "nd_peers n = [str ''a'', str ''c'']" "nd_id n = str ''b''" "nd_matchIndex n (str ''a'') = 0"
    "nd_matchIndex n (str ''c'') = 0" "nd_nextIndex n (str ''c'') = 1"
  shows "\<exists>n' a. onAppendReply (str ''a'') send_entry accepted n = Some (n', []) \<and> nd_role n' = Leader \<and> nd_currentTerm n' = 1 \<and>
    nd_commitIndex n' = 1 \<and> nd_log n' = [sentinel 0, entry] \<and> nd_lastApplied n' = nd_lastApplied n \<and>
    heartbeatTick n' = Some [(str ''a'', send_commit), (str ''c'', a)]"
  using assms
  by (simp add: onAppendReply_def Let_def send_entry_def send_commit_def accepted_def maybeAdvanceCommitIndex_def entry_def
      heartbeatTick_def broadcastAppendEntries_def sendAppendEntries_def numeral_2_eq_2)

lemma trio_learn:
  assumes "nd_currentTerm n = 1" "nd_log n = [sentinel 0, entry]" "nd_commitIndex n = 0"
  shows "\<exists>r n'. HandleAppendEntries 0 send_commit n = (r, n') \<and> nd_log n' = [sentinel 0, entry] \<and> nd_commitIndex n' = 1 \<and>
    nd_lastApplied n' = nd_lastApplied n"
  using assms by (simp add: HandleAppendEntries_def Let_def send_commit_def entry_def)

lemma commit_run:
  "\<exists>C C'. cluster_reach trio C \<and> cluster_run trio C C' \<and> single_leader C' \<and>
     nd_role (cl_node C (str ''b'')) = Leader \<and> nd_commitIndex (cl_node C (str ''b'')) = 1 \<and>
     nd_currentTerm (cl_node C (str ''b'')) = 1 \<and> nd_log (cl_node C (str ''b'')) = [sentinel 0, entry] \<and>
     cl_node C' (str ''b'') = cl_node C (str ''b'') \<and> nd_lastApplied (cl_node C (str ''b'')) = 0 \<and>
     nd_lastApplied (cl_node C' (str ''a'')) = 0 \<and> nd_commitIndex (cl_node C' (str ''a'')) = 1 \<and> nd_log (cl_node C' (str ''a'')) = [sentinel 0, entry]"
proof -
  let ?a = "str ''a''" and ?b = "str ''b''" and ?c = "str ''c''"
  have m: "?b \<in> trio" by (simp add: trio_def)
  obtain C na nb where C: "cluster_reach trio C" "cl_node C ?a = na" "cl_node C ?b = nb" "cl_led C = {(?b, 1)}"
    and na: "nd_currentTerm na = 1" "nd_log na = [sentinel 0]" "nd_commitIndex na = 0" "nd_lastApplied na = 0" and nb: "new_leader ?b [?a, ?c] nb"
    using first_leader_run by blast
  obtain nb1 where nb1: "Propose (str ''x'') nb = Some ((1, 1, True), nb1, [(?a, send_entry), (?c, send_entry)])"
    "nd_role nb1 = Leader" "nd_currentTerm nb1 = 1" "nd_log nb1 = [sentinel 0, entry]" "nd_commitIndex nb1 = 0"
    "nd_peers nb1 = [?a, ?c]" "nd_id nb1 = ?b" "nd_matchIndex nb1 ?a = 0" "nd_matchIndex nb1 ?c = 0" "nd_nextIndex nb1 ?c = 1"
    "nd_lastApplied nb1 = 0"
    using trio_propose [OF nb] by blast
  obtain na1 where na1: "HandleAppendEntries 0 send_entry na = (accepted, na1)" "nd_currentTerm na1 = 1"
    "nd_log na1 = [sentinel 0, entry]" "nd_commitIndex na1 = 0" "nd_lastApplied na1 = 0" using trio_append [OF na(1-3)] na(4) by auto
  obtain nb2 x where nb2: "onAppendReply ?a send_entry accepted nb1 = Some (nb2, [])" "nd_role nb2 = Leader" "nd_currentTerm nb2 = 1"
    "nd_commitIndex nb2 = 1" "nd_log nb2 = [sentinel 0, entry]" "heartbeatTick nb2 = Some [(?a, send_commit), (?c, x)]"
    "nd_lastApplied nb2 = 0" using trio_commit [OF nb1(2-10)] nb1(11) by auto
  obtain r na2 where na2: "HandleAppendEntries 0 send_commit na1 = (r, na2)" "nd_log na2 = [sentinel 0, entry]" "nd_commitIndex na2 = 1"
    "nd_lastApplied na2 = 0" using trio_learn [OF na1(2-4)] na1(5) by auto
  have e1: "Propose (str ''x'') (cl_node C ?b) = Some ((1, 1, True), nb1, [(?a, send_entry), (?c, send_entry)])" using nb1(1) C(3) by simp
  obtain C1 where C1: "cluster_reach trio C1" "cl_node C1 = (cl_node C)(?b := nb1)"
    "cl_net C1 = cl_net C + app_reqs ?b [(?a, send_entry), (?c, send_entry)]" "cl_led C1 = cl_led C"
    by (rule that [OF cluster_reach.step [OF C(1) cluster_step.propose [OF m e1]]]) simp_all
  have f2: "AppReq ?b ?a send_entry \<in># cl_net C1" by (simp add: C1(3) app_reqs_def)
  have e2: "HandleAppendEntries 0 send_entry (cl_node C1 ?a) = (accepted, na1)" using na1(1) C(2) C1(2) by simp
  from run_append_request [OF C1(1) f2 e2] obtain C2 where C2: "cluster_reach trio C2" "cl_node C2 = (cl_node C1)(?a := na1)"
    "cl_net C2 = cl_net C1 - {#AppReq ?b ?a send_entry#} + {#AppRep ?b ?a send_entry accepted#}" "cl_led C2 = cl_led C1" by blast
  have f3: "AppRep ?b ?a send_entry accepted \<in># cl_net C2" by (simp add: C2(3))
  have e3: "onAppendReply ?a send_entry accepted (cl_node C2 ?b) = Some (nb2, [])" using nb2(1) C1(2) C2(2) by simp
  obtain C3 where C3: "cluster_reach trio C3" "cl_node C3 = (cl_node C2)(?b := nb2)" "cl_led C3 = cl_led C2"
    by (rule that [OF cluster_reach.step [OF C2(1) cluster_step.append_reply [OF f3 e3]]]) simp_all
  have e4: "heartbeatTick (cl_node C3 ?b) = Some [(?a, send_commit), (?c, x)]" using nb2(6) C3(2) by simp
  note s4 = cluster_step.heartbeat [OF m e4]
  let ?C4 = "C3\<lparr>cl_net := cl_net C3 + app_reqs ?b [(?a, send_commit), (?c, x)]\<rparr>"
  have f5: "AppReq ?b ?a send_commit \<in># cl_net ?C4" by (simp add: app_reqs_def)
  have e5: "HandleAppendEntries 0 send_commit (cl_node ?C4 ?a) = (r, na2)" using na2(1) C2(2) C3(2) by simp
  note s5 = cluster_step.append_request [OF f5 e5, of trio]
  obtain C5 where C5: "cluster_run trio C3 C5" "cl_node C5 = (cl_node C3)(?a := na2)" "cl_led C5 = cl_led C3"
    by (rule that [OF cluster_run.more [OF cluster_run.more [OF cluster_run.stop s4] s5]]) simp_all
  have "single_leader C5" using C(4) by (simp add: single_leader_def C5(3) C3(3) C2(4) C1(4))
  moreover have "cl_node C3 ?b = nb2" "cl_node C5 ?b = nb2" "cl_node C5 ?a = na2" by (simp_all add: C5(2) C3(2))
  ultimately show ?thesis using C3(1) C5(1) nb2(2-5,7) na2(2-4) by metis
qed

section \<open>Properties: agreement\<close>

text \<open>
  C6: state machine safety. In every run without a second leader of a term, whatever is lost, delayed,
  reordered or restarted, an entry that one member has committed is the entry every member commits at
  that index, then or at any later time; it is in the log of both, so the state machines are given the
  same commands.
\<close>

theorem committed_entries_agree:
  assumes "cluster_reach ids C" "cluster_run ids C C'" "single_leader C'" "i \<in> ids" "j \<in> ids"
    "k \<le> nd_commitIndex (cl_node C i)" "k \<le> nd_commitIndex (cl_node C' j)"
  shows "k < length (nd_log (cl_node C i)) \<and> k < length (nd_log (cl_node C' j)) \<and>
    nd_log (cl_node C i) ! k = nd_log (cl_node C' j) ! k"
proof -
  note S = run_safe [OF assms(1-3)]
  have "settled ids C' (node_term C' j) (nd_log (cl_node C' j)) (nd_commitIndex (cl_node C' j))"
    using S(10) assms(5) by (simp add: commits_ok_def)
  from settled_later [OF assms(1-6) this assms(7) first_entry [OF S(8,6) assms(5)]] show ?thesis .
qed

theorem committed_entries_agree_witness:
  "\<exists>C C'. cluster_reach trio C \<and> cluster_run trio C C' \<and>
     nd_log (cl_node C (str ''b'')) ! 1 = entry \<and> nd_log (cl_node C (str ''b'')) ! 1 = nd_log (cl_node C' (str ''a'')) ! 1"
proof -
  obtain C C' where C: "cluster_reach trio C" "cluster_run trio C C'" "single_leader C'"
    "nd_commitIndex (cl_node C (str ''b'')) = 1" "nd_log (cl_node C (str ''b'')) = [sentinel 0, entry]"
    "nd_commitIndex (cl_node C' (str ''a'')) = 1" using commit_run by blast
  have m: "str ''b'' \<in> trio" "str ''a'' \<in> trio" by (simp_all add: trio_def)
  have "nd_log (cl_node C (str ''b'')) ! 1 = nd_log (cl_node C' (str ''a'')) ! 1"
    using committed_entries_agree [OF C(1-3) m, of 1] C(4,6) by simp
  moreover have "nd_log (cl_node C (str ''b'')) ! 1 = entry" using C(5) by simp
  ultimately show ?thesis using C(1,2) by blast
qed

text \<open>
  C9: leader completeness. In every run without a second leader of a term, a leader has every entry that a
  member of the same or a lower term has committed before, at the same index.
\<close>

theorem leader_completeness:
  assumes "cluster_reach ids C" "cluster_run ids C C'" "single_leader C'" "i \<in> ids" "j \<in> ids"
    "nd_role (cl_node C' j) = Leader" "nd_currentTerm (cl_node C i) \<le> nd_currentTerm (cl_node C' j)"
    "k \<le> nd_commitIndex (cl_node C i)"
  shows "k < length (nd_log (cl_node C' j)) \<and> nd_log (cl_node C' j) ! k = nd_log (cl_node C i) ! k"
proof -
  note S = run_safe [OF assms(1-3)]
  let ?m = "nd_commitIndex (cl_node C i)" and ?l = "nd_log (cl_node C i)"
  have "settled ids C (node_term C i) ?l ?m" using S(5) assms(4) by (simp add: commits_ok_def)
  then have s: "settled ids C' (node_term C i) ?l ?m" using cluster_run_settled [OF assms(2,1,3)] by blast
  have L: "nd_log (cl_node C' j) = cl_tlog C' (node_term C' j)" using logs_okD(2) [OF S(8) assms(5)] assms(6) by (simp add: node_ok_def)
  have led: "led_term C' (node_term C' j)" using votes_okD(10) [OF S(7) assms(5,6)] by (auto simp: led_term_def)
  show ?thesis
  proof (cases "?m = 0")
    case True
    then show ?thesis using first_entry [OF S(8,6) assms(5)] first_entry [OF S(3,1) assms(4)] assms(8) by simp
  next
    case False
    then have eq: "take (Suc ?m) (nd_log (cl_node C' j)) = take (Suc ?m) ?l" "?m < length (nd_log (cl_node C' j))"
      using settled_agree [OF S(6-9) s led assms(7)] L by simp_all
    show ?thesis using take_Suc_nth [OF eq(1) assms(8)] eq(2) assms(8) by simp
  qed
qed

theorem leader_completeness_witness:
  "\<exists>C C'. cluster_reach trio C \<and> cluster_run trio C C' \<and> nd_role (cl_node C' (str ''b'')) = Leader \<and>
     1 < length (nd_log (cl_node C' (str ''b''))) \<and> nd_log (cl_node C' (str ''b'')) ! 1 = nd_log (cl_node C (str ''b'')) ! 1"
proof -
  obtain C C' where C: "cluster_reach trio C" "cluster_run trio C C'" "single_leader C'"
    "nd_role (cl_node C (str ''b'')) = Leader" "nd_commitIndex (cl_node C (str ''b'')) = 1"
    "cl_node C' (str ''b'') = cl_node C (str ''b'')" using commit_run by blast
  have m: "str ''b'' \<in> trio" by (simp add: trio_def)
  have l: "nd_role (cl_node C' (str ''b'')) = Leader" using C(4,6) by simp
  have "1 < length (nd_log (cl_node C' (str ''b''))) \<and> nd_log (cl_node C' (str ''b'')) ! 1 = nd_log (cl_node C (str ''b'')) ! 1"
    using leader_completeness [OF C(1-3) m m l, of 1] C(5,6) by simp
  then show ?thesis using C(1,2) l by blast
qed

text \<open>
  C10: log matching. In every reachable cluster without a second leader of a term, two logs with entries of
  the same term at an index are equal up to there; they start with the same entry, and a term starts in
  both at the same index.
\<close>

theorem log_matching:
  assumes "cluster_reach ids C" "single_leader C" "i \<in> ids" "j \<in> ids"
  shows "logs_match (nd_log (cl_node C i)) (nd_log (cl_node C j))"
proof -
  note S = run_safe [OF assms(1) cluster_run.stop assms(2)]
  have tr: "traced (cl_tlog C) (nd_log (cl_node C i))" "traced (cl_tlog C) (nd_log (cl_node C j))"
    using logs_okD(2) [OF S(3)] assms(3,4) by (simp_all add: node_ok_def)
  let ?L = "nd_log (cl_node C i)" and ?F = "nd_log (cl_node C j)"
  have "le_Term (?L ! y) = le_Term (?F ! y)"
    if xy: "x < length ?L" "y < length ?F" "y \<le> x" "le_Term (?L ! x) = le_Term (?F ! y)" for x y
  proof -
    let ?T = "cl_tlog C (le_Term (?F ! y))"
    have x: "take (Suc x) ?L = take (Suc x) ?T" using tracedD(2) [OF tr(1) xy(1)] xy(4) by simp
    have "?L ! y = ?T ! y" using take_Suc_nth(2) [OF x xy(3)] xy(1,3) by simp
    moreover have "?F ! y = ?T ! y" using take_Suc_nth(2) [OF tracedD(2) [OF tr(2) xy(2)], of y] xy(2) by simp
    ultimately show ?thesis by simp
  qed
  then show ?thesis
    using traced_agree [OF tr(2,1)] first_entry [OF S(3,1) assms(3)] first_entry [OF S(3,1) assms(4)]
    unfolding logs_match_def by auto
qed

theorem log_matching_witness:
  "\<exists>C. cluster_reach trio C \<and> length (nd_log (cl_node C (str ''b''))) = 2 \<and>
     logs_match (nd_log (cl_node C (str ''b''))) (nd_log (cl_node C (str ''a'')))"
proof -
  obtain C C' where C: "cluster_reach trio C" "cluster_run trio C C'" "single_leader C'"
    "nd_log (cl_node C (str ''b'')) = [sentinel 0, entry]" "cl_node C' (str ''b'') = cl_node C (str ''b'')" using commit_run by blast
  have m: "str ''b'' \<in> trio" "str ''a'' \<in> trio" by (simp_all add: trio_def)
  note r = cluster_run_reach [OF C(2,1)]
  show ?thesis using log_matching [OF r C(3) m] r C(4,5) by (intro exI [of _ C']) simp
qed

end
