(* ===== verification/Raft_Panic.thy ===== *)
theory Raft_Panic
  imports Raft_Safety
begin

text \<open>
  The indices a Raft leader keeps for its peers (\<^verbatim>\<open>nextIndex\<close>, \<^verbatim>\<open>matchIndex\<close>) and the indices in the messages
  in flight stay inside its log, so no handler of \<^verbatim>\<open>internal/raft/raft.go\<close> indexes a log out of range: a
  cluster that takes no snapshots never panics. (\<open>snapshot_then_heartbeat_panics\<close> shows that one that
  takes snapshots does.)
\<close>

section \<open>Lemmas: the indices of a leader\<close>

definition indices_ok :: "Node \<Rightarrow> bool" where
  "indices_ok n \<longleftrightarrow> (\<forall>p. nd_nextIndex n p \<le> length (nd_log n) \<and> nd_matchIndex n p < length (nd_log n))"

lemma indices_ok_send:
  assumes "indices_ok n" "nd_log n \<noteq> []"
  shows "sendAppendEntries p n \<noteq> None"
proof -
  have "max 1 (nd_nextIndex n p) \<le> length (nd_log n)" using assms by (cases "nd_log n") (simp_all add: indices_ok_def)
  then show ?thesis using sendAppendEntries_ok by (metis option.distinct(1))
qed

lemma all_some_total: "(\<And>x. x \<in> set xs \<Longrightarrow> f x \<noteq> None) \<Longrightarrow> all_some (map f xs) \<noteq> None"
  by (induction xs) (auto split: option.splits)

lemma indices_ok_broadcast: "indices_ok n \<Longrightarrow> nd_log n \<noteq> [] \<Longrightarrow> broadcastAppendEntries n \<noteq> None"
  unfolding broadcastAppendEntries_def by (rule all_some_total) (use indices_ok_send in simp)

lemma becomeLeader_indices:
  assumes "nd_log n \<noteq> []"
  shows "becomeLeader n \<noteq> None" "becomeLeader n = Some (n', rpcs) \<Longrightarrow> indices_ok n'"
proof -
  have ok: "indices_ok (n\<lparr>nd_role := Leader, nd_leaderId := nd_id n,
      nd_nextIndex := \<lambda>p. if p \<in> set (nd_peers n) then fst (lastLogIndexAndTerm n) + 1 else 0, nd_matchIndex := \<lambda>_. 0\<rparr>)"
    using assms by (simp add: indices_ok_def lastLogIndexAndTerm_def Suc_le_eq)
  show "becomeLeader n \<noteq> None" using indices_ok_broadcast [OF ok] assms by (simp add: becomeLeader_def Let_def)
  show "becomeLeader n = Some (n', rpcs) \<Longrightarrow> indices_ok n'" using ok becomeLeader_Some by blast
qed

lemma Propose_indices:
  assumes "nd_role n = Leader \<Longrightarrow> indices_ok n" "nd_log n \<noteq> []"
  shows "Propose c n \<noteq> None" "Propose c n = Some (res, n', rpcs) \<Longrightarrow> nd_role n' = Leader \<Longrightarrow> indices_ok n'"
proof -
  let ?n = "snd (persist (n\<lparr>nd_log := nd_log n @ [\<lparr>le_Term = nd_currentTerm n, le_Command = Some c\<rparr>],
              nd_matchIndex := (nd_matchIndex n)(nd_id n := length (nd_log n))\<rparr>))"
  have ok: "indices_ok ?n" if "nd_role n = Leader"
    using assms(1) [OF that] by (auto simp: indices_ok_def le_SucI less_SucI)
  show "Propose c n \<noteq> None"
  proof (cases "nd_role n = Leader")
    case True
    then have "broadcastAppendEntries ?n \<noteq> None" using indices_ok_broadcast [OF ok] by simp
    then obtain rpcs where "broadcastAppendEntries ?n = Some rpcs" by blast
    then show ?thesis using True by (simp add: Propose_def Let_def)
  qed (simp add: Propose_def)
  show "indices_ok n'" if "Propose c n = Some (res, n', rpcs)" "nd_role n' = Leader"
    using that ok assms(1) by (auto simp: Propose_def Let_def split: if_splits)
qed

lemma onAppendReply_indices:
  assumes "nd_role n = Leader \<Longrightarrow> indices_ok n" "nd_log n \<noteq> []" "aer_ConflictIndex r \<le> ae_PrevLogIndex a"
    "nd_role n = Leader \<Longrightarrow> nd_currentTerm n = ae_Term a \<Longrightarrow> ae_PrevLogIndex a + length (ae_Entries a) < length (nd_log n)"
  shows "onAppendReply p a r n \<noteq> None"
    "onAppendReply p a r n = Some (n', rpcs) \<Longrightarrow> nd_role n' = Leader \<Longrightarrow> indices_ok n'"
proof -
  define nxt where "nxt =
    (if aer_ConflictTerm r \<noteq> 0 then
       (let found = last_of_term (aer_ConflictTerm r) (nd_log n) (length (nd_log n) - 1)
        in if found > 0 then found + 1 else aer_ConflictIndex r)
     else if aer_ConflictIndex r > 0 then aer_ConflictIndex r
     else if nd_nextIndex n p > 1 then nd_nextIndex n p - 1
     else nd_nextIndex n p)"
  let ?b = "n\<lparr>nd_nextIndex := (nd_nextIndex n)(p := nxt)\<rparr>"
  let ?m = "max (ae_PrevLogIndex a + length (ae_Entries a)) (nd_matchIndex n p)"
  let ?s = "maybeAdvanceCommitIndex (n\<lparr>nd_matchIndex := (nd_matchIndex n)(p := ?m), nd_nextIndex := (nd_nextIndex n)(p := ?m + 1)\<rparr>)"
  have b: "indices_ok ?b" and s: "indices_ok ?s" if "nd_role n = Leader" "nd_currentTerm n = ae_Term a"
  proof -
    have "last_of_term t (nd_log n) (length (nd_log n) - 1) + 1 \<le> length (nd_log n)"
      if "0 < last_of_term t (nd_log n) (length (nd_log n) - 1)" for t
      using last_of_term_pos [OF that] assms(2) by (cases "nd_log n") simp_all
    then have "nxt \<le> length (nd_log n)"
      using assms(1) [OF that(1)] assms(3) assms(4) [OF that] by (auto simp: nxt_def Let_def indices_ok_def intro: le_trans [OF diff_le_self])
    then show "indices_ok ?b" using assms(1) [OF that(1)] by (simp add: indices_ok_def)
    show "indices_ok ?s" using assms(1) [OF that(1)] assms(4) [OF that] by (simp add: indices_ok_def Suc_le_eq)
  qed
  have "onAppendReply p a r n =
    (if aer_Term r > nd_currentTerm n then Some (becomeFollower (aer_Term r) n, [])
     else if nd_role n \<noteq> Leader \<or> nd_currentTerm n \<noteq> ae_Term a then Some (n, [])
     else if aer_Success r then Some (?s, [])
     else map_option (\<lambda>x. (?b, [(p, x)])) (sendAppendEntries p ?b))"
    by (simp add: onAppendReply_def nxt_def Let_def max_def not_le)
  then show "onAppendReply p a r n \<noteq> None"
    "onAppendReply p a r n = Some (n', rpcs) \<Longrightarrow> nd_role n' = Leader \<Longrightarrow> indices_ok n'"
    using b s assms(1) indices_ok_send [of ?b p] assms(2) by (auto split: if_splits)
qed

lemma HandleAppendEntries_conflict:
  "HandleAppendEntries now a n = (r, n') \<Longrightarrow> aer_ConflictIndex r \<le> ae_PrevLogIndex a"
  using conflict_index_bounds(1) by (auto simp: HandleAppendEntries_def Let_def split: if_splits)

section \<open>Lemmas: the indices in flight\<close>

text \<open>
  A request and its reply refer to entries of the log of the leader that sent it, as long as it leads its
  term.
\<close>

definition sent_by :: "cluster \<Rightarrow> bytes \<Rightarrow> AppendEntriesArgs \<Rightarrow> bool" where
  "sent_by C l a \<longleftrightarrow>
     (l, ae_Term a) \<in> cl_led C \<and>
     (nd_role (cl_node C l) = Leader \<longrightarrow> node_term C l = ae_Term a \<longrightarrow>
        ae_PrevLogIndex a + length (ae_Entries a) < length (nd_log (cl_node C l)))"

definition nodes_in_range :: "bytes set \<Rightarrow> cluster \<Rightarrow> bool" where
  "nodes_in_range ids C \<longleftrightarrow>
     (\<forall>i\<in>ids. (nd_role (cl_node C i) = Leader \<longrightarrow> indices_ok (cl_node C i)) \<and>
        (nd_role (cl_node C i) = Candidate \<longrightarrow> (i, node_term C i) \<notin> cl_led C))"

definition net_in_range :: "cluster \<Rightarrow> bool" where
  "net_in_range C \<longleftrightarrow>
     (\<forall>l p a. AppReq l p a \<in># cl_net C \<longrightarrow> sent_by C l a) \<and>
     (\<forall>l p a r. AppRep l p a r \<in># cl_net C \<longrightarrow> sent_by C l a \<and> aer_ConflictIndex r \<le> ae_PrevLogIndex a)"

lemma in_rangeD:
  assumes "nodes_in_range ids C" "net_in_range C"
  shows "i \<in> ids \<Longrightarrow> nd_role (cl_node C i) = Leader \<Longrightarrow> indices_ok (cl_node C i)"
    "i \<in> ids \<Longrightarrow> nd_role (cl_node C i) = Candidate \<Longrightarrow> (i, node_term C i) \<notin> cl_led C"
    "AppReq l p a \<in># cl_net C \<Longrightarrow> sent_by C l a"
    "AppRep l p a r \<in># cl_net C \<Longrightarrow> sent_by C l a \<and> aer_ConflictIndex r \<le> ae_PrevLogIndex a"
  using assms unfolding nodes_in_range_def net_in_range_def by blast+

text \<open>
  One step: node \<open>i\<close> becomes \<open>n\<close>. If \<open>n\<close> leads a term that \<open>i\<close> had led before, it only extended its log.
\<close>

lemma in_range_step:
  assumes "nodes_in_range ids C" "net_in_range C" "votes_ok ids C'" "i \<in> ids" "cl_node C' = (cl_node C)(i := n)"
    and node: "nd_role n = Leader \<Longrightarrow> indices_ok n" "nd_role n = Candidate \<Longrightarrow> (i, nd_currentTerm n) \<notin> cl_led C'"
      "nd_role n = Leader \<Longrightarrow> (i, nd_currentTerm n) \<in> cl_led C \<Longrightarrow>
         nd_role (cl_node C i) = Leader \<and> node_term C i = nd_currentTerm n \<and> length (nd_log (cl_node C i)) \<le> length (nd_log n)"
    and led: "cl_led C \<subseteq> cl_led C'" "\<And>j t. j \<noteq> i \<Longrightarrow> (j, t) \<in> cl_led C' \<Longrightarrow> (j, t) \<in> cl_led C"
    and net: "sends n rpcs" "\<And>m. m \<in># cl_net C' \<Longrightarrow> m \<in># cl_net C \<or> m \<in># app_reqs i rpcs \<or> (\<forall>l p a r. m \<noteq> AppReq l p a \<and> m \<noteq> AppRep l p a r) \<or>
         (\<exists>l p a r. m = AppRep l p a r \<and> AppReq l p a \<in># cl_net C \<and> aer_ConflictIndex r \<le> ae_PrevLogIndex a)"
  shows "nodes_in_range ids C' \<and> net_in_range C'"
proof
  note D = in_rangeD [OF assms(1,2)]
  have keep: "sent_by C' l a" if "sent_by C l a" for l a
  proof (cases "l = i")
    case True
    then show ?thesis using that node(3) led(1) assms(5) unfolding sent_by_def by fastforce
  next
    case False
    then show ?thesis using that led(1) assms(5) by (auto simp: sent_by_def)
  qed
  have new: "sent_by C' l a" if "AppReq l p a \<in># app_reqs i rpcs" for l p a
  proof -
    have s: "l = i" "nd_role n = Leader" "sendAppendEntries p n = Some a" using that net(1) by (auto simp: app_reqs_def sends_def)
    have "(i, nd_currentTerm n) \<in> cl_led C'" using votes_okD(10) [OF assms(3,4)] s(2) assms(5) by simp
    moreover have "ae_PrevLogIndex a + length (ae_Entries a) < length (nd_log n)"
      using sendAppendEntries_Some(2,5) [OF s(3)] by simp
    ultimately show ?thesis using sendAppendEntries_Some(4) [OF s(3)] s(1) assms(5) by (simp add: sent_by_def)
  qed
  show "nodes_in_range ids C'" unfolding nodes_in_range_def
  proof (intro ballI)
    fix j assume j: "j \<in> ids"
    show "(nd_role (cl_node C' j) = Leader \<longrightarrow> indices_ok (cl_node C' j)) \<and>
        (nd_role (cl_node C' j) = Candidate \<longrightarrow> (j, node_term C' j) \<notin> cl_led C')"
      using D(1,2) [OF j] node(1,2) led(2) [of j] assms(5) by (cases "j = i") auto
  qed
  show "net_in_range C'" unfolding net_in_range_def
  proof (intro conjI allI impI)
    show "sent_by C' l a" if "AppReq l p a \<in># cl_net C'" for l p a
      using net(2) [OF that] D(3) [of l p a] keep new by blast
    fix l p a r assume r: "AppRep l p a r \<in># cl_net C'"
    have "AppRep l p a r \<notin># app_reqs i rpcs" by (auto simp: app_reqs_def)
    then have "AppRep l p a r \<in># cl_net C \<or> AppReq l p a \<in># cl_net C \<and> aer_ConflictIndex r \<le> ae_PrevLogIndex a"
      using net(2) [OF r] by blast
    then show "sent_by C' l a" "aer_ConflictIndex r \<le> ae_PrevLogIndex a" using D(3) [of l p a] D(4) [of l p a r] keep by blast+
  qed
qed

text \<open>A handler that neither wins an election nor extends a log.\<close>

lemma in_range_keeps:
  assumes "nodes_in_range ids C" "net_in_range C" "votes_ok ids C'" "i \<in> ids" "cl_node C' = (cl_node C)(i := n)"
    "nd_role n \<noteq> Follower \<Longrightarrow> nd_role n = nd_role (cl_node C i) \<and> nd_currentTerm n = node_term C i"
    "nd_role n = Leader \<Longrightarrow> indices_ok n \<and> length (nd_log (cl_node C i)) \<le> length (nd_log n)"
    "cl_led C' = cl_led C" "sends n rpcs"
    "\<And>m. m \<in># cl_net C' \<Longrightarrow> m \<in># cl_net C \<or> m \<in># app_reqs i rpcs \<or> (\<forall>l p a r. m \<noteq> AppReq l p a \<and> m \<noteq> AppRep l p a r) \<or>
       (\<exists>l p a r. m = AppRep l p a r \<and> AppReq l p a \<in># cl_net C \<and> aer_ConflictIndex r \<le> ae_PrevLogIndex a)"
  shows "nodes_in_range ids C' \<and> net_in_range C'"
proof (rule in_range_step [OF assms(1-5) _ _ _ _ _ assms(9,10)])
  show "nd_role n = Candidate \<Longrightarrow> (i, nd_currentTerm n) \<notin> cl_led C'"
    using in_rangeD(2) [OF assms(1,2,4)] assms(6,8) by simp
qed (use assms(6-8) in auto)

lemma keeps_voteD:
  "keeps_vote n n' \<Longrightarrow> nd_role n' \<noteq> Follower \<Longrightarrow> nd_role n' = nd_role n \<and> nd_currentTerm n' = nd_currentTerm n"
  by (simp add: keeps_vote_def)

lemma cluster_step_in_range:
  assumes "cluster_step ids C C'" "cluster_wf ids C" "votes_ok ids C" "votes_ok ids C'" "nodes_in_range ids C" "net_in_range C"
  shows "nodes_in_range ids C' \<and> net_in_range C'"
proof -
  note D = in_rangeD [OF assms(5,6)]
  have ne: "nd_log (cl_node C i) \<noteq> []" if "i \<in> ids" for i
    using cluster_wfD(4) [OF assms(2) that] by (simp add: member_def node_wf_iff)
  note keeps = in_range_keeps [OF assms(5,6,4)]
  from assms(1) show ?thesis
  proof cases
    case (election i now n rpcs)
    have n: "nd_currentTerm n = Suc (node_term C i)" "nd_role n = Candidate"
      using startElection_node [of now "cl_node C i"] election(4,5) by simp_all
    have "t \<le> node_term C i" if "(i, t) \<in> cl_led C" for t
      using votes_okD(11) [OF assms(3) that] votes_okD(1) [OF assms(3), of i t i] by blast
    then have "(i, nd_currentTerm n) \<notin> cl_led C" using n(1) by fastforce
    then show ?thesis
      using n by (intro in_range_step [OF assms(5,6,4) election(2), of n "[]"]) (auto simp: election(1) vote_reqs_def)
  next
    case (heartbeat i rpcs)
    show ?thesis
      by (rule keeps [OF heartbeat(2), of "cl_node C i" rpcs])
        (use D(1) [OF heartbeat(2)] heartbeat_sends [OF heartbeat(3)] in \<open>auto simp: heartbeat(1)\<close>)
  next
    case (vote_request c p a now r n)
    have p: "p \<in> ids" using cluster_wfD(5) [OF assms(2) vote_request(2)] by simp
    have n: "nd_role n \<noteq> Follower \<Longrightarrow> nd_role n = nd_role (cl_node C p) \<and> nd_currentTerm n = node_term C p"
      "nd_log n = nd_log (cl_node C p)" "nd_nextIndex n = nd_nextIndex (cl_node C p)" "nd_matchIndex n = nd_matchIndex (cl_node C p)"
      using vote_request(3) by (cases rule: HandleRequestVote_cases [of now a "cl_node C p"]; auto split: if_splits)+
    show ?thesis
      by (rule keeps [OF p, of n "[]"])
        (use n D(1) [OF p] in \<open>auto simp: vote_request(1) indices_ok_def dest: in_diffD\<close>)
  next
    case (vote_reply c p t r votes n rpcs)
    have c: "c \<in> ids" using cluster_wfD(5) [OF assms(2) vote_reply(2)] by simp
    note s = onVoteReply_sends [OF vote_reply(3)]
    have net: "m \<in># cl_net C \<or> m \<in># app_reqs c rpcs" if "m \<in># cl_net C'" for m
      using that by (auto simp: vote_reply(1) dest: in_diffD)
    from vote_reply(3) show ?thesis
    proof (cases rule: onVoteReply_cases)
      case won
      note n = becomeLeader_Some [OF won(1)]
      have "(c, nd_currentTerm n) \<notin> cl_led C" using D(2) [OF c won(4)] n by simp
      then show ?thesis
        using becomeLeader_indices(2) [OF ne [OF c] won(1)] n net
        by (intro in_range_step [OF assms(5,6,4) c _ _ _ _ _ _ s]) (auto simp: vote_reply(1))
    next
      case newer
      then show ?thesis
        using net by (intro keeps [OF c _ _ _ _ s]) (auto simp: vote_reply(1))
    next
      case ignored
      have "cl_led C' = cl_led C" using votes_okD(10) [OF assms(3) c] ignored(1) by (auto simp: vote_reply(1))
      then show ?thesis
        using ignored net D(1) [OF c] by (intro keeps [OF c _ _ _ _ s]) (auto simp: vote_reply(1))
    next
      case counted
      then show ?thesis
        using net by (intro keeps [OF c _ _ _ _ s]) (auto simp: vote_reply(1))
    qed
  next
    case (append_request l p a now r n)
    have p: "p \<in> ids" using cluster_wfD(5) [OF assms(2) append_request(2)] by simp
    have n: "n = cl_node C p \<or> nd_role n = Follower"
      using append_request(3) by (cases rule: HandleAppendEntries_cases [of a "cl_node C p" now]) simp_all
    have "m \<in># cl_net C \<or> m \<in># app_reqs p [] \<or> (\<forall>l p a r. m \<noteq> AppReq l p a \<and> m \<noteq> AppRep l p a r) \<or>
       (\<exists>l p a r. m = AppRep l p a r \<and> AppReq l p a \<in># cl_net C \<and> aer_ConflictIndex r \<le> ae_PrevLogIndex a)"
      if "m \<in># cl_net C'" for m
      using that append_request(2) HandleAppendEntries_conflict [OF append_request(3)] by (auto simp: append_request(1) dest: in_diffD)
    then show ?thesis
      using n D(1) [OF p] by (intro keeps [OF p, of n "[]"]) (auto simp: append_request(1))
  next
    case (append_reply l p a r n rpcs)
    have l: "l \<in> ids" "p \<in> ids" "p \<noteq> l" using cluster_wfD(5) [OF assms(2) append_reply(2)] by simp_all
    have "p \<in> set (nd_peers (cl_node C l))" using cluster_wfD(4) [OF assms(2) l(1)] l by (simp add: member_def)
    note s = onAppendReply_sends [OF append_reply(3) this]
    have sb: "sent_by C l a" "aer_ConflictIndex r \<le> ae_PrevLogIndex a" using D(4) [OF append_reply(2)] by simp_all
    have "nd_log n = nd_log (cl_node C l)" using append_reply(3) by (cases rule: onAppendReply_cases) simp_all
    moreover have "ae_PrevLogIndex a + length (ae_Entries a) < length (nd_log (cl_node C l))"
      if "nd_role (cl_node C l) = Leader" "node_term C l = ae_Term a" using sb(1) that unfolding sent_by_def by blast
    then have "indices_ok n" if "nd_role n = Leader"
      using onAppendReply_indices(2) [OF D(1) [OF l(1)] ne [OF l(1)] sb(2) _ append_reply(3) that] by blast
    moreover have "m \<in># cl_net C \<or> m \<in># app_reqs l rpcs" if "m \<in># cl_net C'" for m
      using that by (auto simp: append_reply(1) dest: in_diffD)
    ultimately show ?thesis
      using keeps_voteD [OF keeps_vote_append_reply [OF append_reply(3)]]
      by (intro keeps [OF l(1) _ _ _ _ s]) (auto simp: append_reply(1))
  next
    case (propose i c res n rpcs)
    note s = Propose_sends [OF propose(3)]
    have "length (nd_log (cl_node C i)) \<le> length (nd_log n)"
      using propose(3) by (auto simp: Propose_def Let_def split: if_splits)
    moreover have "indices_ok n" if "nd_role n = Leader"
      using Propose_indices(2) [OF D(1) [OF propose(2)] ne [OF propose(2)] propose(3) that] .
    ultimately show ?thesis
      using keeps_voteD [OF keeps_vote_propose [OF propose(3)]]
      by (intro keeps [OF propose(2) _ _ _ _ s]) (auto simp: propose(1))
  next
    case (apply_entry i m n)
    have n: "nd_role n = nd_role (cl_node C i)" "nd_currentTerm n = node_term C i" "nd_log n = nd_log (cl_node C i)"
      "nd_nextIndex n = nd_nextIndex (cl_node C i)" "nd_matchIndex n = nd_matchIndex (cl_node C i)"
      using apply_entry(3) by (auto simp: applyStep_def Let_def split: if_splits)
    show ?thesis
      by (rule keeps [OF apply_entry(2), of n "[]"]) (use n D(1) [OF apply_entry(2)] in \<open>auto simp: apply_entry(1) indices_ok_def\<close>)
  next
    case (restarted i n)
    have "nd_role n = Follower" using member_restart [OF cluster_wfD(4) [OF assms(2) restarted(2)] restarted(3)] by simp
    then show ?thesis by (intro keeps [OF restarted(2), of n "[]"]) (auto simp: restarted(1))
  next
    case (lost m)
    have "\<exists>i. i \<in> ids" using cluster_wfD(5) [OF assms(2) lost(2)] by (cases m) auto
    then obtain i where i: "i \<in> ids" by blast
    show ?thesis
      by (rule keeps [OF i, of "cl_node C i" "[]"]) (use D(1) [OF i] in \<open>auto simp: lost(1) dest: in_diffD\<close>)
  qed
qed

lemma cluster_reach_in_range: "cluster_reach ids C \<Longrightarrow> nodes_in_range ids C \<and> net_in_range C"
proof (induction rule: cluster_reach.induct)
  case (init C)
  have "nd_role (cl_node C i) = Follower" if "i \<in> ids" for i
    using init that fresh_node_member(3) [of ids i "cl_node C i"] by (simp add: cluster_init_def)
  then show ?case using init by (simp add: cluster_init_def nodes_in_range_def net_in_range_def)
next
  case (step C C')
  have "cluster_wf ids C" "votes_ok ids C" "votes_ok ids C'"
    using cluster_reach_votes [OF step(1)] cluster_reach_votes [OF cluster_reach.step [OF step(1,2)]] by simp_all
  then show ?case using cluster_step_in_range [OF step(2)] step(3) by blast
qed

section \<open>Properties: no panics\<close>

text \<open>
  C11: no member of a cluster that takes no snapshots panics. In every reachable cluster, the heartbeat, a
  proposal, the handling of any vote or append reply in flight and a restart of a member return a result;
  so does its apply loop, as long as no term has had two leaders.
\<close>

theorem cluster_never_panics:
  assumes "cluster_reach ids C" "i \<in> ids"
  shows "heartbeatTick (cl_node C i) \<noteq> None \<and> Propose c (cl_node C i) \<noteq> None \<and> restart (cl_node C i) \<noteq> None \<and>
    (VoteRep i p t v \<in># cl_net C \<longrightarrow> onVoteReply t votes v (cl_node C i) \<noteq> None) \<and>
    (AppRep i p a r \<in># cl_net C \<longrightarrow> onAppendReply p a r (cl_node C i) \<noteq> None) \<and>
    (single_leader C \<longrightarrow> applyStep (cl_node C i) \<noteq> None)"
proof (intro conjI impI)
  have ok: "nodes_in_range ids C" "net_in_range C" and wf: "cluster_wf ids C"
    using cluster_reach_in_range [OF assms(1)] cluster_reach_votes [OF assms(1)] by simp_all
  note D = in_rangeD [OF ok]
  have m: "member ids i (cl_node C i)" using cluster_wfD(4) [OF wf assms(2)] .
  then have ne: "nd_log (cl_node C i) \<noteq> []" by (simp add: member_def node_wf_iff)
  show "heartbeatTick (cl_node C i) \<noteq> None"
    using indices_ok_broadcast [OF D(1) [OF assms(2)] ne] by (auto simp: heartbeatTick_def)
  show "Propose c (cl_node C i) \<noteq> None" using Propose_indices(1) [OF D(1) [OF assms(2)] ne] .
  show "restart (cl_node C i) \<noteq> None" using restart_recoverable m by (auto simp: member_def)
  show "onVoteReply t votes v (cl_node C i) \<noteq> None" using becomeLeader_indices(1) [OF ne] by (auto simp: onVoteReply_def)
  show "onAppendReply p a r (cl_node C i) \<noteq> None" if "AppRep i p a r \<in># cl_net C"
  proof (rule onAppendReply_indices(1) [OF D(1) [OF assms(2)] ne])
    show "aer_ConflictIndex r \<le> ae_PrevLogIndex a" using D(4) [OF that] by simp
    show "ae_PrevLogIndex a + length (ae_Entries a) < length (nd_log (cl_node C i))"
      if "nd_role (cl_node C i) = Leader" "nd_currentTerm (cl_node C i) = ae_Term a"
      using D(4) [OF \<open>AppRep i p a r \<in># cl_net C\<close>] that unfolding sent_by_def by blast
  qed
  show "applyStep (cl_node C i) \<noteq> None" if "single_leader C"
  proof -
    have "settled ids C (node_term C i) (nd_log (cl_node C i)) (nd_commitIndex (cl_node C i))"
      using run_safe(5) [OF assms(1) cluster_run.stop that] assms(2) by (simp add: commits_ok_def)
    then show ?thesis by (auto simp: applyStep_def Let_def settled_def)
  qed
qed

theorem cluster_never_panics_witness:
  "\<exists>C. cluster_reach trio C \<and> nd_role (cl_node C (str ''b'')) = Leader \<and> nd_commitIndex (cl_node C (str ''b'')) = 1 \<and>
     heartbeatTick (cl_node C (str ''b'')) \<noteq> None \<and> applyStep (cl_node C (str ''b'')) \<noteq> None"
proof -
  obtain C C' where C: "cluster_reach trio C" "cluster_run trio C C'" "single_leader C'"
    "nd_role (cl_node C (str ''b'')) = Leader" "nd_commitIndex (cl_node C (str ''b'')) = 1"
    "cl_node C' (str ''b'') = cl_node C (str ''b'')" using commit_run by blast
  have m: "str ''b'' \<in> trio" by (simp add: trio_def)
  note r = cluster_run_reach [OF C(2,1)]
  show ?thesis using cluster_never_panics [OF r m] r C(3-6) by (intro exI [of _ C']) simp
qed

text \<open>
  C12: the types of a cluster. Every step keeps the configuration of the members (identity and peers), the
  shape of their state (a log that is never empty, terms and votes that fit the fields of the state file)
  and a state file that gives back term, vote and log; every message in flight is between two different
  members and carries terms of 64 bits.
\<close>

theorem cluster_well_typed:
  assumes "cluster_reach ids C"
  shows "(\<forall>i\<in>ids. member ids i (cl_node C i)) \<and> (\<forall>m\<in>#cl_net C. msg_ok ids m)"
  using cluster_reach_votes [OF assms] by (simp add: cluster_wf_def)

theorem cluster_well_typed_witness:
  "\<exists>C. cluster_reach trio C \<and> cl_net C \<noteq> {#} \<and> (\<forall>i\<in>trio. member trio i (cl_node C i)) \<and> (\<forall>m\<in>#cl_net C. msg_ok trio m)"
proof -
  obtain C where C: "cluster_reach trio C" "AppReq (str ''b'') (str ''a'') (beat (str ''b'')) \<in># cl_net C"
    using first_leader_run by blast
  then have "cl_net C \<noteq> {#}" by auto
  then show ?thesis using cluster_well_typed [OF C(1)] C(1) by blast
qed

end
