(* ===== verification/Faultwriter.thy ===== *)
theory Faultwriter
  imports Store
begin

text \<open>
  \<^verbatim>\<open>test/fault_injection/faultwriter/main.go\<close>: the process the fault-injection test kills while it writes
  records to a log. It appends a record, syncs, and prints the number of the record; the test then checks
  that a replay of the log gives the records in order, with every number that was printed.

  The process is killed after a number of steps, each of which is an append, a sync or a line of output.
  Standard error is not modelled.
\<close>

section \<open>The program\<close>

datatype fw_end = Killed | Exit nat

text \<open>\<^verbatim>\<open>%04d\<close>: at least four digits, padded with zeros on the left.\<close>

definition fmt_04d :: "nat \<Rightarrow> bytes" where
  "fmt_04d n = replicate (4 - length (fmt_d n)) 48 @ fmt_d n"

definition fw_record :: "nat \<Rightarrow> Record" where
  "fw_record i = \<lparr>rec_Type = RecordPut, rec_Key = str ''key-'' @ fmt_04d i, rec_Value = str ''val-'' @ fmt_04d i\<rparr>"

definition fw_line :: "nat \<Rightarrow> bytes" where
  "fw_line i = str ''WROTE '' @ fmt_d i @ [10]"

text \<open>\<open>kill\<close> steps are left before the process is killed, \<open>m\<close> records before the loop ends.\<close>

fun fw_loop :: "nat \<Rightarrow> nat \<Rightarrow> nat \<Rightarrow> bytes \<Rightarrow> WAL \<Rightarrow> fw_end \<times> bytes \<times> WAL" where
  "fw_loop kill i 0 out w = (Exit 0, out, w)"
| "fw_loop kill i (Suc m) out w =
     (if kill = 0 then (Killed, out, w)
      else case WAL_Append (fw_record i) w of
        (Some _, w) \<Rightarrow> (Exit 1, out, w)
      | (None, w) \<Rightarrow>
          (if kill = 1 then (Killed, out, w)
           else case WAL_Sync w of
             (Some _, w) \<Rightarrow> (Exit 1, out, w)
           | (None, w) \<Rightarrow>
               (if kill = 2 then (Killed, out, w) else fw_loop (kill - 3) (Suc i) m (out @ fw_line i) w)))"

text \<open>
  \<^verbatim>\<open>main\<close>: \<open>f\<close> is what opening the log returns. Only a loop that ends closes the log, \<^verbatim>\<open>os.Exit\<close> does not
  run deferred calls.
\<close>

definition faultwriter_main ::
  "bytes list \<Rightarrow> osfile option \<Rightarrow> bool \<Rightarrow> bool \<Rightarrow> nat \<Rightarrow> fw_end \<times> bytes \<times> WAL option" where
  "faultwriter_main args f stat_ok close_ok kill =
     (if length args \<noteq> 3 then (Exit 2, [], None)
      else case Atoi (args ! 2) of
        None \<Rightarrow> (Exit 2, [], None)
      | Some n \<Rightarrow>
          (case WAL_Open (args ! 1) f stat_ok of
             Inl _ \<Rightarrow> (Exit 1, [], None)
           | Inr w \<Rightarrow>
               (case fw_loop kill 0 (nat n) [] w of
                  (e, out, w) \<Rightarrow>
                    (e, out, Some (if e = Exit 0 then snd (WAL_Close close_ok w) else w)))))"

section \<open>Lemmas\<close>

lemma fw_record_ok:
  assumes "i < 2 ^ 63" shows "rec_ok (fw_record i)"
proof -
  have "length (fmt_d i) \<le> 19" by (rule length_fmt_d) (use assms in simp_all)
  then have "length (fmt_04d i) \<le> 23" by (simp add: fmt_04d_def)
  then show ?thesis by (simp add: rec_ok_def fw_record_def str_def)
qed

text \<open>
  After \<open>i\<close> records the log holds them durably and buffers nothing; the loop extends it to \<open>r\<close> records, of
  which the \<open>q\<close> that were printed are durable.
\<close>

lemma fw_loop_spec:
  assumes "fw_loop kill i m out w = (e, out', w')" "wbuf (wal_w w) = []"
    "log_inv (rs @ map fw_record [0..<i]) (length rs + i) w"
  shows "\<exists>q r. q \<le> r \<and> r \<le> i + m \<and> i \<le> q \<and> out' = out @ concat (map fw_line [i..<q]) \<and>
    log_inv (rs @ map fw_record [0..<r]) (length rs + q) w' \<and> (e = Exit 0 \<longrightarrow> wbuf (wal_w w') = [])"
  using assms
proof (induction m arbitrary: kill i out w)
  case 0
  then show ?case by (intro exI [of _ i]) simp
next
  case (Suc m)
  obtain a w1 where a: "WAL_Append (fw_record i) w = (a, w1)" by (metis prod.exhaust)
  obtain s w2 where s: "WAL_Sync w1 = (s, w2)" by (metis prod.exhaust)
  have l1: "log_inv (rs @ map fw_record [0..<Suc i]) (length rs + i) w1"
    using log_inv_append [OF a Suc.prems(3)] by simp
  have l2: "log_inv (rs @ map fw_record [0..<Suc i]) (if s = None then length rs + Suc i else length rs + i) w2"
    using log_inv_sync [OF s l1] by (cases s) simp_all
  have stop: ?case if "e \<noteq> Exit 0" "out' = out" "log_inv (rs @ map fw_record [0..<r]) (length rs + i) w'" "i \<le> r" "r \<le> Suc i" for r
    using that by (intro exI [of _ i] exI [of _ r]) simp
  have weak: "log_inv xs (length rs + i) w2" if "log_inv xs (length rs + Suc i) w2" for xs
    using that length_encode_all_mono [of "length rs + i" "length rs + Suc i" xs] by (simp add: log_inv_def)
  consider (before) "kill = 0" "e = Killed" "out' = out" "w' = w"
    | (append) "e \<noteq> Exit 0" "out' = out" "w' = w1"
    | (sync) "e \<noteq> Exit 0" "out' = out" "w' = w2"
    | (next_one) "s = None" "fw_loop (kill - 3) (Suc i) m (out @ fw_line i) w2 = (e, out', w')"
    using Suc.prems(1) a s by (auto split: if_splits option.splits)
  then show ?case
  proof cases
    case before
    then show ?thesis using stop [of i] Suc.prems(3) by simp
  next
    case append
    then show ?thesis using stop [of "Suc i"] l1 by simp
  next
    case sync
    then show ?thesis using stop [of "Suc i"] l2 weak by (auto split: if_splits)
  next
    case next_one
    have "log_inv (rs @ map fw_record [0..<Suc i]) (length rs + Suc i) w2" using l2 next_one(1) by simp
    moreover have "wbuf (wal_w w2) = []" using WAL_Sync_None s next_one(1) by blast
    ultimately obtain q r where qr: "q \<le> r" "r \<le> Suc i + m" "Suc i \<le> q" "out' = (out @ fw_line i) @ concat (map fw_line [Suc i..<q])"
      "log_inv (rs @ map fw_record [0..<r]) (length rs + q) w'" "e = Exit 0 \<longrightarrow> wbuf (wal_w w') = []"
      using Suc.IH [OF next_one(2)] by blast
    have "[i..<q] = i # [Suc i..<q]" using qr(3) by (simp add: upt_conv_Cons)
    then show ?thesis using qr by (intro exI [of _ q] exI [of _ r]) simp
  qed
qed

section \<open>Properties\<close>

text \<open>
  What the fault-injection test relies on. Whenever the process is killed or fails on a clean log, and
  whatever part of the unsynced bytes is lost, its output is the numbers from 0 up to some \<open>q\<close>, and a replay
  of the log gives the records that were there before and then the records from 0 up to some \<open>r\<close>, with
  \<open>r \<ge> q\<close>.
\<close>

theorem faultwriter_recovery:
  assumes "list_all rec_ok rs" "content f = encode_all rs" "synced f = length (content f)" "Atoi num = Some n"
    "faultwriter_main [prog, path, num] (Some f) True close_ok kill = (e, out, Some w)"
  shows "\<exists>q r. q \<le> r \<and> r \<le> nat n \<and> out = concat (map fw_line [0..<q]) \<and>
    Replay_loop (content (crash_file (wal_file w) k fl)) = rs @ map fw_record [0..<r]"
proof -
  obtain w0 where w0: "WAL_Open path (Some f) True = Inr w0" by (simp add: WAL_Open_def)
  obtain e1 out1 w1 where l1: "fw_loop kill 0 (nat n) [] w0 = (e1, out1, w1)" by (metis prod_cases3)
  then have "e1 = e" "out1 = out" and w: "w = (if e = Exit 0 then snd (WAL_Close close_ok w1) else w1)"
    using assms(4,5) w0 by (auto simp: faultwriter_main_def)
  then have l: "fw_loop kill 0 (nat n) [] w0 = (e, out, w1)" using l1 by simp
  have w00: "wal_w w0 = NewWriter f" using WAL_Open_file [OF w0] .
  then have i0: "log_inv (rs @ map fw_record [0..<0]) (length rs + 0) w0" "wbuf (wal_w w0) = []"
    using assms(2,3) by (simp_all add: log_inv_def logical_def)
  from fw_loop_spec [OF l i0(2,1)] obtain q r where qr: "q \<le> r" "r \<le> nat n" "out = concat (map fw_line [0..<q])"
    "log_inv (rs @ map fw_record [0..<r]) (length rs + q) w1" "e = Exit 0 \<longrightarrow> wbuf (wal_w w1) = []" by auto
  have "wal_w w = wal_w w1" using w qr(5) by (simp add: WAL_Close_def bufio_Flush_def)
  then have inv: "log_inv (rs @ map fw_record [0..<r]) (length rs + q) w" using qr(4) by (simp add: log_inv_def)
  have "n < 2 ^ 63" using assms(4) by (auto simp: Atoi_def split: list.splits if_splits option.splits)
  then have "nat n \<le> 2 ^ 63" by simp
  then have "rec_ok (fw_record i)" if "i < r" for i using fw_record_ok [of i] that qr(2) by simp
  then have "list_all rec_ok (rs @ map fw_record [0..<r])" using assms(1) by (auto simp: list_all_iff)
  from log_inv_crash [OF inv this, of k fl] obtain j where j: "length rs + q \<le> j" "j \<le> length (rs @ map fw_record [0..<r])"
    "Replay_loop (content (crash_file (wal_file w) k fl)) = take j (rs @ map fw_record [0..<r])" by blast
  have "take j (rs @ map fw_record [0..<r]) = rs @ map fw_record [0..<j - length rs]"
    using j(1,2) by (simp add: take_map)
  then have "Replay_loop (content (crash_file (wal_file w) k fl)) = rs @ map fw_record [0..<j - length rs]" using j(3) by simp
  moreover have "q \<le> j - length rs" "j - length rs \<le> nat n" using j(1,2) qr(2) by simp_all
  ultimately show ?thesis using qr(3) by blast
qed

theorem faultwriter_recovery_witness:
  "\<exists>e out w r. faultwriter_main [[], [], [50]] (Some \<lparr>content = [], synced = 0, faults = []\<rparr>) True True 4 = (e, out, Some w) \<and>
     Replay_loop (content (crash_file (wal_file w) 0 [])) = map fw_record [0..<r] \<and> r \<le> 2"
proof -
  let ?f = "\<lparr>content = [], synced = 0, faults = []\<rparr>"
  have n: "Atoi [50] = Some 2" by (simp add: Atoi_def Atoi_digits_def is_digit_def dec_value_def digit_val_def)
  then have "\<exists>e out w. faultwriter_main [[], [], [50]] (Some ?f) True True 4 = (e, out, Some w)"
    by (simp add: faultwriter_main_def WAL_Open_def case_prod_beta)
  then obtain e out w where m: "faultwriter_main [[], [], [50]] (Some ?f) True True 4 = (e, out, Some w)" by blast
  from faultwriter_recovery [OF _ _ _ n m, of "[]" 0 "[]"] obtain r where "r \<le> nat 2"
    "Replay_loop (content (crash_file (wal_file w) 0 [])) = map fw_record [0..<r]" by auto
  then have "r \<le> 2" by simp
  then show ?thesis using m \<open>Replay_loop (content (crash_file (wal_file w) 0 [])) = map fw_record [0..<r]\<close> by blast
qed

end
