(* ===== verification/Spec2Isabelle.thy ===== *)
theory Spec2Isabelle
  imports Store_Concurrent Linearcheck LSM_Correct Server_Correct Transport_Correct Replication CLI_Raft Raft_Panic Faultwriter
begin

text \<open>
  Verification of kvengine, a durable key-value store in Go.
\<close>

section \<open>The server over the store\<close>

text \<open>Connections served one after the other, whatever the clients send.\<close>

lemma served_ops:
  "\<exists>xs. list_all op_bounded xs \<and> fold (\<lambda>io s. fst (handleConn U kv errtext s io)) ios s = snd (kv_run kv xs s)"
proof (induction ios arbitrary: s)
  case Nil
  show ?case by (intro exI [of _ "[]"]) simp
next
  case (Cons io ios)
  obtain xs where xs: "list_all op_bounded xs" "fst (handleConn U kv errtext s io) = snd (kv_run kv xs s)"
    using handleConn_ops [of U kv errtext s io] by (auto simp: list_all_iff)
  obtain ys where ys: "list_all op_bounded ys"
    "fold (\<lambda>io s. fst (handleConn U kv errtext s io)) ios (snd (kv_run kv xs s)) = snd (kv_run kv ys (snd (kv_run kv xs s)))"
    using Cons.IH by blast
  have "snd (kv_run kv (xs @ ys) s) = snd (kv_run kv ys (snd (kv_run kv xs s)))" by (simp add: kv_run_append case_prod_beta)
  then show ?case using xs ys by (intro exI [of _ "xs @ ys"]) simp
qed

lemma op_bounded_rec_ok: "op_bounded x \<Longrightarrow> rec_ok (op_record x)"
  by (cases x) (simp_all add: rec_ok_def maxLineSize_def maxValueSize_def)



section \<open>The cluster over the stores\<close>

text \<open>A store whose disk works; what it holds after an operation is what a map would.\<close>

definition disk_works :: "Store \<Rightarrow> bool" where
  "disk_works s \<longleftrightarrow> \<not> werr (wal_w (st_log s)) \<and> faults (st_file s) = []"

lemma exec_disk_works:
  assumes "disk_works s"
  shows "disk_works (snd (kv_exec Store_kv x s))" "st_data (snd (kv_exec Store_kv x s)) = apply_op x (st_data s)"
proof -
  obtain e s' where e: "kv_exec Store_kv x s = (e, s')" by (metis prod.exhaust)
  then show "disk_works (snd (kv_exec Store_kv x s))" "st_data (snd (kv_exec Store_kv x s)) = apply_op x (st_data s)"
    using assms Store_exec_no_faults [OF _ _ e] Store_run_working [of s "[x]"] by (auto simp: disk_works_def)
qed

lemma apply_message_data:
  assumes "disk_works (ma_store m)" "disk_works (ma_store m')" "st_data (ma_store m) = st_data (ma_store m')"
  shows "disk_works (ma_store (apply_message isnil msg m))"
    "st_data (ma_store (apply_message isnil msg m)) = st_data (ma_store (apply_message isnil' msg m'))"
proof -
  have put: "disk_works (snd (Store_Put k v s))" "st_data (snd (Store_Put k v s)) = (st_data s)(k \<mapsto> v)"
    and del: "disk_works (snd (Store_Delete k s))" "st_data (snd (Store_Delete k s)) = (st_data s)(k := None)"
    if "disk_works s" for k v s
    using exec_disk_works [OF that, of "KPut k v"] exec_disk_works [OF that, of "KDel k"] by (simp_all add: Store_kv_def)
  show "disk_works (ma_store (apply_message isnil msg m))"
    "st_data (ma_store (apply_message isnil msg m)) = st_data (ma_store (apply_message isnil' msg m'))"
    using assms by (auto simp: apply_message_def Let_def put del split: option.splits)
qed

lemma applyRaftToStore_data:
  "disk_works (ma_store m) \<Longrightarrow> disk_works (ma_store m') \<Longrightarrow> st_data (ma_store m) = st_data (ma_store m') \<Longrightarrow>
     st_data (ma_store (applyRaftToStore isnil msgs m)) = st_data (ma_store (applyRaftToStore isnil' msgs m'))"
proof (induction msgs arbitrary: m m')
  case (Cons msg msgs)
  show ?case
    using Cons.IH [of "apply_message isnil msg m" "apply_message isnil' msg m'"] apply_message_data [OF Cons.prems]
      apply_message_data(1) [OF Cons.prems(2,1) Cons.prems(3) [symmetric]] by (simp add: applyRaftToStore_def)
qed (simp add: applyRaftToStore_def)



end
